(* ===== verification/Prelude.thy ===== *)
theory Prelude
  imports Main "HOL-Library.Word"
begin

text \<open>
  Shared vocabulary of the development: the machine types of the C code, NUL-terminated
  strings, stores into a byte buffer, and the generic lemmas on them that the component
  theories use. Collections: \<open>buf_simps\<close> rewrites buffer stores, \<open>cstr_simps\<close> rewrites
  C-string observations, \<open>wrap_simps\<close> holds the wrap-around facts of fixed-width integers.
\<close>

unbundle bit_operations_syntax

named_theorems buf_simps
named_theorems cstr_simps
named_theorems wrap_simps

type_synonym byte = "8 word"
type_synonym u32 = "32 word"
type_synonym u64 = "64 word"
type_synonym u128 = "128 word"

section \<open>NUL-terminated strings\<close>

abbreviation NUL :: char where
  "NUL \<equiv> CHR 0x00"

abbreviation NL :: char where
  "NL \<equiv> CHR 0x0A"

abbreviation CR :: char where
  "CR \<equiv> CHR 0x0D"

text \<open>
  The C string that starts at the head of a memory region. The end of the region stands
  for a terminating NUL, so a list without \<^const>\<open>NUL\<close> is its own C string.
\<close>

definition cstr :: "char list \<Rightarrow> string" where
  "cstr m = takeWhile (\<lambda>c. c \<noteq> NUL) m"

text \<open>\<open>strcmp(a, b) == 0\<close>, read as a test.\<close>

definition strcmp_eq :: "char list \<Rightarrow> char list \<Rightarrow> bool" where
  "strcmp_eq a b = (cstr a = cstr b)"

lemma cstr_Nil [cstr_simps, simp]: "cstr [] = []"
  by (simp add: cstr_def)

lemma cstr_Cons [cstr_simps, simp]: "cstr (c # cs) = (if c = NUL then [] else c # cstr cs)"
  by (simp add: cstr_def)

lemma cstr_no_NUL [cstr_simps]: "NUL \<notin> set s \<Longrightarrow> cstr s = s"
  by (induction s) auto

lemma cstr_append_NUL [cstr_simps]: "NUL \<notin> set s \<Longrightarrow> cstr (s @ NUL # t) = s"
  by (induction s) auto

lemma NUL_notin_cstr [simp]: "NUL \<notin> set (cstr m)"
  by (induction m) auto

lemma cstr_idem [simp]: "cstr (cstr m) = cstr m"
  by (simp add: cstr_no_NUL)

lemma length_cstr_le: "length (cstr m) \<le> length m"
  by (simp add: cstr_def length_takeWhile_le)

section \<open>Stores into a buffer\<close>

text \<open>
  \<open>poke b i xs\<close> copies \<open>xs\<close> over the cells \<open>i, i+1, ...\<close> of the buffer \<open>b\<close>, as
  \<open>memcpy(b + i, xs, n)\<close> and a \<open>read\<close> into \<open>b + i\<close> do; it never changes the buffer's
  length when the copied range lies inside it.
\<close>

definition poke :: "'a list \<Rightarrow> nat \<Rightarrow> 'a list \<Rightarrow> 'a list" where
  "poke b i xs = take i b @ xs @ drop (i + length xs) b"

text \<open>The cells \<open>i, ..., j - 1\<close> of a buffer.\<close>

definition cells :: "nat \<Rightarrow> nat \<Rightarrow> 'a list \<Rightarrow> 'a list" where
  "cells i j b = take (j - i) (drop i b)"

lemma length_poke [buf_simps, simp]: "i + length xs \<le> length b \<Longrightarrow> length (poke b i xs) = length b"
  by (simp add: poke_def)

lemma poke_Nil [buf_simps, simp]: "poke b i [] = b"
  by (simp add: poke_def)

lemma take_poke_before [buf_simps]: "k \<le> i \<Longrightarrow> i \<le> length b \<Longrightarrow> take k (poke b i xs) = take k b"
  by (simp add: poke_def min_def)

lemma take_poke_end [buf_simps]:
  "i \<le> length b \<Longrightarrow> take (i + length xs) (poke b i xs) = take i b @ xs"
  by (simp add: poke_def)

lemma drop_poke_after [buf_simps]:
  "i + length xs \<le> k \<Longrightarrow> k \<le> length b \<Longrightarrow> drop k (poke b i xs) = drop k b"
  by (simp add: poke_def add.commute)

lemma length_cells [buf_simps, simp]: "j \<le> length b \<Longrightarrow> length (cells i j b) = j - i"
  by (simp add: cells_def)

lemma cells_empty [buf_simps, simp]: "cells i i b = []"
  by (simp add: cells_def)

lemma cells_zero [buf_simps, simp]: "cells 0 j b = take j b"
  by (simp add: cells_def)

lemma cells_append [buf_simps]: "i \<le> j \<Longrightarrow> j \<le> k \<Longrightarrow> cells i j b @ cells j k b = cells i k b"
proof -
  assume "i \<le> j" "j \<le> k"
  then have "cells i k b = take (j - i + (k - j)) (drop i b)" by (simp add: cells_def)
  also have "\<dots> = take (j - i) (drop i b) @ take (k - j) (drop (j - i) (drop i b))"
    by (rule take_add)
  also have "drop (j - i) (drop i b) = drop j b" using \<open>i \<le> j\<close> by simp
  finally show ?thesis by (simp add: cells_def)
qed

lemma cells_Suc [buf_simps]: "i \<le> j \<Longrightarrow> j < length b \<Longrightarrow> cells i (Suc j) b = cells i j b @ [b ! j]"
  using cells_append [of i j "Suc j" b] by (simp add: cells_def take_Suc_conv_app_nth)

lemma nth_cells [buf_simps]: "k < j - i \<Longrightarrow> j \<le> length b \<Longrightarrow> cells i j b ! k = b ! (i + k)"
  by (simp add: cells_def)

lemma cells_update_outside [buf_simps]:
  "k < i \<or> j \<le> k \<Longrightarrow> cells i j (b[k := x]) = cells i j b"
  by (cases "i \<le> k") (auto simp: cells_def drop_update_swap)

lemma cells_Cons_nth: "i < j \<Longrightarrow> j \<le> length b \<Longrightarrow> cells i j b = b ! i # cells (Suc i) j b"
  using cells_append [of i "Suc i" j b] cells_Suc [of i i b] by simp

lemma take_take_append [buf_simps]: "take n (take n xs @ ys) = take n (xs @ ys)"
  by (cases "n \<le> length xs") simp_all

section \<open>Machine integers\<close>

lemma mod_in_block: "q * m \<le> b \<Longrightarrow> b < q * m + m \<Longrightarrow> b mod m = b - q * (m :: nat)"
  by (rule mod_nat_eqI) auto

lemma unat_byte_less [wrap_simps]: "unat (b :: byte) < 256"
  using unsigned_less [of b] by simp

lemma char_of_unat_of_char [simp]: "char_of (unat (of_char c :: byte)) = c"
proof -
  have "unat (of_char c :: byte) = of_char c"
    by (cases c) (simp add: of_char_def split: bool.splits)
  then show ?thesis by simp
qed

lemma char_of_0 [simp]: "char_of (0 :: nat) = NUL"
  by code_simp

lemma of_nat_u32_zero:
  assumes "(of_nat m :: u32) = 0" "m < 2 ^ 32"
  shows "m = 0"
proof -
  have "2 ^ 32 dvd m" using assms(1) by (simp add: word_of_nat_eq_0_iff)
  with assms(2) nat_dvd_not_less show ?thesis by blast
qed

section \<open>Counting threads\<close>

text \<open>How many of a list of program points satisfy a predicate.\<close>

definition how_many :: "('a \<Rightarrow> bool) \<Rightarrow> 'a list \<Rightarrow> nat" where
  "how_many P pcs = length (filter P pcs)"

abbreviation bit01 :: "bool \<Rightarrow> 'a::zero_neq_one" where
  "bit01 b \<equiv> (if b then 1 else 0)"

lemma how_many_update:
  "t < length pcs \<Longrightarrow> how_many P (pcs[t := p]) + bit01 (P (pcs ! t)) = how_many P pcs + bit01 (P p)"
proof (induction pcs arbitrary: t)
  case (Cons q pcs)
  then show ?case by (cases t) (auto simp: how_many_def)
qed simp

lemma how_many_keeps:
  assumes "t < length pcs" "P p \<Longrightarrow> P (pcs ! t)"
  shows "how_many P (pcs[t := p]) \<le> how_many P pcs"
  using how_many_update [OF assms(1), of P p] assms(2) by (auto split: if_splits)

lemma how_many_le_length: "how_many P pcs \<le> length pcs"
  by (simp add: how_many_def)

lemma how_many_mono: "(\<And>p. P p \<Longrightarrow> Q p) \<Longrightarrow> how_many P pcs \<le> how_many Q pcs"
  by (induction pcs) (auto simp: how_many_def)

lemma how_many_0: "how_many P pcs = 0 \<longleftrightarrow> (\<forall>p \<in> set pcs. \<not> P p)"
  by (simp add: how_many_def filter_empty_conv)

end
