(* ===== verification/Hex.thy ===== *)
theory Hex
  imports Prelude
begin

text \<open>
  \<open>hex.c\<close>: decoding and encoding of hexadecimal text, used for the separator byte of the
  command line, the public key of the environment and the key files.
  Bytes are \<open>8 word\<close>; an \<open>int8_t\<close> result is an \<open>int\<close>. The input of \<open>hex_decode\<close> is a
  NUL-terminated string, a \<open>FILE\<close> is the text written so far, and \<open>fails i\<close> says that the
  \<open>i\<close>-th \<open>fprintf\<close> reports an error.
\<close>

section \<open>Definitions\<close>

definition hex_digit :: "byte \<Rightarrow> int" where
  "hex_digit c =
     (if 48 \<le> c \<and> c \<le> 57 then uint c - 48
      else if 65 \<le> c \<and> c \<le> 70 then uint c - 65 + 10
      else if 97 \<le> c \<and> c \<le> 102 then uint c - 97 + 10
      else -1)"

definition hex_digit_or_zero :: "byte \<Rightarrow> byte" where
  "hex_digit_or_zero c = (let d = hex_digit c in if d < 0 then 0 else word_of_int d)"

fun hex_decode_loop :: "byte list \<Rightarrow> nat \<Rightarrow> nat \<Rightarrow> char list \<Rightarrow> byte list \<times> nat" where
  "hex_decode_loop buf buf_len i [] = (buf, i)"
| "hex_decode_loop buf buf_len i (c # cs) =
     (if \<not> (i < buf_len \<and> c \<noteq> NUL) then (buf, i)
      else let buf1 = buf[i := push_bit 4 (hex_digit_or_zero (of_char c))] in
        (case cs of
           [] \<Rightarrow> (buf1, i + 1)
         | d # ds \<Rightarrow>
             if d = NUL then (buf1, i + 1)
             else hex_decode_loop (buf1[i := buf1 ! i OR hex_digit_or_zero (of_char d)])
                    buf_len (i + 1) ds))"

definition hex_decode :: "byte list \<Rightarrow> nat \<Rightarrow> char list \<Rightarrow> byte list \<times> nat" where
  "hex_decode buf buf_len inp = hex_decode_loop buf buf_len 0 inp"

text \<open>The two characters that \<open>fprintf(out, "%02X", b)\<close> writes.\<close>

definition hex_upper :: "nat \<Rightarrow> char" where
  "hex_upper d = (if d < 10 then char_of (48 + d) else char_of (55 + d))"

definition fprintf_02X :: "byte \<Rightarrow> string" where
  "fprintf_02X b = [hex_upper (unat b div 16), hex_upper (unat b mod 16)]"

fun hex_encode_loop :: "(nat \<Rightarrow> bool) \<Rightarrow> byte list \<Rightarrow> nat \<Rightarrow> nat \<Rightarrow> string \<Rightarrow> int \<times> string" where
  "hex_encode_loop fails buf i 0 out = (0, out)"
| "hex_encode_loop fails buf i (Suc k) out =
     (if fails i then (-1, out)
      else hex_encode_loop fails buf (i + 1) k (out @ fprintf_02X (buf ! i)))"

definition hex_encode :: "(nat \<Rightarrow> bool) \<Rightarrow> byte list \<Rightarrow> nat \<Rightarrow> string \<Rightarrow> int \<times> string" where
  "hex_encode fails buf n out = hex_encode_loop fails buf 0 n out"

section \<open>Digits\<close>

lemma hex_digit_range: "-1 \<le> hex_digit c \<and> hex_digit c \<le> 15"
  by (simp add: hex_digit_def word_le_def)

lemma uint_hex_digit_or_zero: "uint (hex_digit_or_zero c) = max 0 (hex_digit c)"
proof -
  have "0 \<le> hex_digit c \<Longrightarrow> uint (word_of_int (hex_digit c) :: byte) = hex_digit c"
    using hex_digit_range [of c] by (simp add: uint_word_of_int)
  then show ?thesis by (simp add: hex_digit_or_zero_def Let_def)
qed

lemma hex_upper_table:
  "\<forall>d \<in> set [0..<16]. hex_digit (of_char (hex_upper d)) = int d \<and> hex_upper d \<noteq> NUL"
  by code_simp

lemma hex_digit_hex_upper [simp]: "d < 16 \<Longrightarrow> hex_digit (of_char (hex_upper d)) = int d"
  and hex_upper_not_NUL [simp]: "d < 16 \<Longrightarrow> hex_upper d \<noteq> NUL"
  using hex_upper_table by auto

lemma hex_digit_or_zero_hex_upper [simp]:
  "d < 16 \<Longrightarrow> hex_digit_or_zero (of_char (hex_upper d)) = of_nat d"
  by (simp add: hex_digit_or_zero_def)

section \<open>What decoding computes\<close>

text \<open>
  The specification of the decoder: the digits of the string two by two, a last odd digit
  in the high half of its byte.
\<close>

fun hex_pairs :: "string \<Rightarrow> byte list" where
  "hex_pairs [] = []"
| "hex_pairs [c] = [push_bit 4 (hex_digit_or_zero (of_char c))]"
| "hex_pairs (c # d # cs) =
     (push_bit 4 (hex_digit_or_zero (of_char c)) OR hex_digit_or_zero (of_char d)) # hex_pairs cs"

lemma length_hex_pairs [simp]: "length (hex_pairs s) = (length s + 1) div 2"
  by (induction s rule: hex_pairs.induct) auto

lemma poke_Cons_update:
  "i < length buf \<Longrightarrow> poke (buf[i := x]) (Suc i) xs = poke buf i (x # xs)"
  by (simp add: poke_def take_Suc_conv_app_nth)

lemma hex_decode_loop_pairs:
  "i \<le> buf_len \<Longrightarrow> buf_len \<le> length buf \<Longrightarrow>
     hex_decode_loop buf buf_len i cs =
       (poke buf i (take (buf_len - i) (hex_pairs (cstr cs))),
        i + min (buf_len - i) (length (hex_pairs (cstr cs))))"
proof (induction buf buf_len i cs rule: hex_decode_loop.induct)
  case (1 buf buf_len i)
  then show ?case by simp
next
  case (2 buf buf_len i c cs)
  show ?case
  proof (cases "i < buf_len \<and> c \<noteq> NUL")
    case False
    then show ?thesis using "2.prems" by auto
  next
    case True
    then obtain k where k: "buf_len - i = Suc k" by (metis Suc_diff_Suc)
    then have k': "buf_len - Suc i = k" by simp
    show ?thesis
    proof (cases "cs = [] \<or> hd cs = NUL")
      case stop: True
      then have "cstr cs = []" by (cases cs) auto
      with stop True "2.prems" k show ?thesis
        by (cases cs) (auto simp: Let_def poke_Cons_update [symmetric])
    next
      case False
      then obtain d ds where cs: "cs = d # ds" "d \<noteq> NUL" by (cases cs) auto
      define buf2 where "buf2 = buf[i := push_bit 4 (hex_digit_or_zero (of_char c)) OR hex_digit_or_zero (of_char d)]"
      from True cs "2.prems" have
        "hex_decode_loop buf buf_len i (c # cs) = hex_decode_loop buf2 buf_len (i + 1) ds"
        by (simp add: Let_def buf2_def)
      also have "\<dots> = (poke buf2 (i + 1) (take k (hex_pairs (cstr ds))),
          i + 1 + min k (length (hex_pairs (cstr ds))))"
        using "2.IH" [OF _ refl cs(1) cs(2)] True cs "2.prems" k'
        by (simp add: buf2_def)
      finally show ?thesis
        using True cs k "2.prems" by (simp add: buf2_def poke_Cons_update)
    qed
  qed
qed

lemma hex_decode_eq:
  assumes "buf_len \<le> length buf"
  shows "hex_decode buf buf_len inp =
    (poke buf 0 (take buf_len (hex_pairs (cstr inp))), min buf_len ((length (cstr inp) + 1) div 2))"
  using hex_decode_loop_pairs [of 0 buf_len buf inp] assms by (simp add: hex_decode_def)

section \<open>Encoding, and the round trip\<close>

lemma nibbles_join: "push_bit 4 (of_nat (unat b div 16)) OR of_nat (unat b mod 16) = (b :: byte)"
proof -
  have "of_nat (unat b div 16) = drop_bit 4 b"
    by (simp add: drop_bit_eq_div word_arith_nat_div unat_div_distrib)
  moreover have "of_nat (unat b mod 16) = take_bit 4 b"
    by (simp add: take_bit_eq_mod word_arith_nat_mod)
  moreover have "push_bit 4 (drop_bit 4 b) OR take_bit 4 b = b"
    by (rule bit_eqI) (auto simp: bit_simps)
  ultimately show ?thesis by simp
qed

lemma hex_pairs_encode: "hex_pairs (concat (map fprintf_02X bs)) = bs"
proof (induction bs)
  case (Cons b bs)
  have "unat b div 16 < 16" using unat_byte_less [of b] by simp
  with Cons show ?case by (simp add: fprintf_02X_def nibbles_join)
qed simp

lemma encode_no_NUL: "NUL \<notin> set (concat (map fprintf_02X bs))"
proof -
  have "NUL \<notin> set (fprintf_02X b)" for b
    using unat_byte_less [of b] by (simp add: fprintf_02X_def eq_commute [of NUL])
  then show ?thesis by auto
qed

lemma length_encode [simp]: "length (concat (map fprintf_02X bs)) = 2 * length bs"
  by (induction bs) (simp_all add: fprintf_02X_def)

lemma hex_encode_loop_ok:
  "i + k \<le> length buf \<Longrightarrow> \<forall>j < i + k. i \<le> j \<longrightarrow> \<not> fails j \<Longrightarrow>
     hex_encode_loop fails buf i k out = (0, out @ concat (map fprintf_02X (cells i (i + k) buf)))"
proof (induction k arbitrary: i out)
  case (Suc k)
  then show ?case using cells_Cons_nth [of i "i + Suc k" buf] by (simp add: Suc.IH)
qed simp

lemma hex_encode_loop_fail:
  "(\<exists>j. i \<le> j \<and> j < i + k \<and> fails j) \<Longrightarrow> fst (hex_encode_loop fails buf i k out) = -1"
proof (induction k arbitrary: i out)
  case (Suc k)
  show ?case
  proof (cases "fails i")
    case False
    from Suc.prems obtain j where "i \<le> j" "j < i + Suc k" "fails j" by blast
    with False have "Suc i \<le> j" by (metis Suc_leI le_neq_implies_less)
    with \<open>j < i + Suc k\<close> \<open>fails j\<close> have "\<exists>j. Suc i \<le> j \<and> j < Suc i + k \<and> fails j" by auto
    from Suc.IH [OF this] False show ?thesis by simp
  qed simp
qed auto

section \<open>Properties\<close>

text \<open>
  C38: Hexadecimal round trip. When no \<open>fprintf\<close> fails, \<open>hex_encode\<close> writes exactly two
  characters per byte and \<open>hex_decode\<close> of the text it wrote, into a buffer of the same size,
  recovers every byte and reports their number.
\<close>

theorem hex_roundtrip:
  assumes "\<forall>i < length bs. \<not> fails i"
    and "length dst = length bs"
  shows "fst (hex_encode fails bs (length bs) []) = 0 \<and>
    length (snd (hex_encode fails bs (length bs) [])) = 2 * length bs \<and>
    hex_decode dst (length dst) (snd (hex_encode fails bs (length bs) [])) = (bs, length bs)"
proof -
  have enc: "hex_encode fails bs (length bs) [] = (0, concat (map fprintf_02X bs))"
    using hex_encode_loop_ok [of 0 "length bs" bs fails "[]"] assms(1) by (simp add: hex_encode_def)
  have "hex_decode dst (length dst) (concat (map fprintf_02X bs)) = (bs, length bs)"
    using assms(2) by (simp add: hex_decode_eq cstr_no_NUL [OF encode_no_NUL] hex_pairs_encode poke_def)
  with enc show ?thesis by simp
qed

theorem hex_roundtrip_witness:
  "hex_decode [0, 0, 0] 3 (snd (hex_encode (\<lambda>_. False) [0xDE, 0x0A, 0x7F] 3 [])) = ([0xDE, 0x0A, 0x7F], 3)"
  using hex_roundtrip [of "[0xDE, 0x0A, 0x7F]" "\<lambda>_. False" "[0, 0, 0]"] by (simp add: numeral_3_eq_3)

text \<open>
  What \<open>hex_decode\<close> computes on any input. It stores the digit pairs of the string that
  fit the buffer from its start, leaves the rest of the buffer as it was, never stores
  beyond \<open>buf_len\<close>, and returns how many bytes it stored, an odd last digit counting as one.
\<close>

lemma hex_decode_functional:
  assumes "buf_len \<le> length buf"
  shows "hex_decode buf buf_len inp =
      (poke buf 0 (take buf_len (hex_pairs (cstr inp))), min buf_len ((length (cstr inp) + 1) div 2))
    \<and> drop buf_len (fst (hex_decode buf buf_len inp)) = drop buf_len buf
    \<and> length (fst (hex_decode buf buf_len inp)) = length buf"
  using assms by (simp_all add: hex_decode_eq poke_def)

end
