(* ===== verification/Line_Buf.thy ===== *)
theory Line_Buf
  imports Prelude "HOL-Library.Sublist"
begin

text \<open>
  \<open>line_buf.c\<close>: the incremental line reader under the socket protocol. The C struct is the
  record \<open>line_buf\<close>; its buffer is a list of \<open>size\<close> characters. A line handler is given the
  buffer, the offset and the length of the line and the truncation flag, as the C handler is
  given a pointer into the buffer; it may write the buffer, so it returns it. A \<open>readf\<close> call
  is given the room left and answers with bytes or with a negative error code.
\<close>

section \<open>Definitions\<close>

record line_buf =
  lb_buf :: "char list"
  lb_size :: nat
  lb_start :: nat
  lb_afsep :: nat
  lb_truncated :: bool
  lb_n :: int

type_synonym 's line_handler = "'s \<Rightarrow> char list \<Rightarrow> nat \<Rightarrow> nat \<Rightarrow> bool \<Rightarrow> int \<times> 's \<times> char list"

datatype read_result = Read_bytes "char list" | Read_error int

definition LINE_BUF_READ_EOF :: int where
  "LINE_BUF_READ_EOF = -99999"

function replay_loop ::
  "line_buf \<Rightarrow> char \<Rightarrow> 's line_handler \<Rightarrow> 's \<Rightarrow> nat \<Rightarrow> int \<times> line_buf \<times> 's" where
  "replay_loop b sep h s i =
     (if int i < int (lb_start b) + lb_n b then
        if lb_buf b ! i = sep then
          (case h s ((lb_buf b)[i := NUL]) (lb_afsep b) (i - lb_afsep b) (lb_truncated b) of
             (lh_r, s', buf') \<Rightarrow>
               if lh_r < 0 then
                 (lh_r,
                  b\<lparr>lb_buf := buf'[i := sep], lb_truncated := False,
                    lb_n := lb_n b - (int (lb_afsep b) - int (lb_start b)),
                    lb_start := lb_afsep b\<rparr>,
                  s')
               else
                 replay_loop (b\<lparr>lb_buf := buf', lb_truncated := False, lb_afsep := i + 1\<rparr>)
                   sep h s' (i + 1))
        else replay_loop b sep h s (i + 1)
      else
        (lb_n b,
         b\<lparr>lb_buf := poke (lb_buf b) 0 (cells (lb_afsep b) i (lb_buf b)),
           lb_start := i - lb_afsep b, lb_afsep := 0\<rparr>,
         s))"
  by pat_completeness auto
termination
  by (relation "measure (\<lambda>(b, sep, h, s, i). nat (int (lb_start b) + lb_n b - int i))") auto

definition line_buf_replay ::
  "line_buf \<Rightarrow> char \<Rightarrow> 's line_handler \<Rightarrow> 's \<Rightarrow> int \<times> line_buf \<times> 's" where
  "line_buf_replay b sep h s = replay_loop b sep h s (lb_start b)"

definition line_buf_read ::
  "line_buf \<Rightarrow> char \<Rightarrow> (nat \<Rightarrow> read_result) \<Rightarrow> 's line_handler \<Rightarrow> 's \<Rightarrow> int \<times> line_buf \<times> 's" where
  "line_buf_read b sep readf h s =
     (let room = lb_size b - lb_start b;
          b1 = (if room = 0 then b\<lparr>lb_start := 0, lb_afsep := 0, lb_truncated := True\<rparr> else b);
          to_read = (if room = 0 then lb_size b else room)
      in case readf to_read of
           Read_error e \<Rightarrow> (e, b1\<lparr>lb_n := e\<rparr>, s)
         | Read_bytes data \<Rightarrow>
             let b2 = b1\<lparr>lb_buf := poke (lb_buf b1) (lb_start b1) data, lb_n := int (length data)\<rparr>
             in if data = [] then (LINE_BUF_READ_EOF, b2, s)
                else line_buf_replay b2 sep h s)"

declare replay_loop.simps [simp del]

section \<open>The framing a line reader promises\<close>

text \<open>
  The abstract reader keeps the bytes of the unfinished line and the truncation flag. It
  hands every finished line to the handler; a negative result stops it with the input
  that is not consumed yet, starting with the line that was refused.
\<close>

datatype 's framing =
    Awaiting 's bool string
  | Stopped int 's string

fun frame_run ::
  "char \<Rightarrow> ('s \<Rightarrow> string \<Rightarrow> bool \<Rightarrow> int \<times> 's) \<Rightarrow> 's \<Rightarrow> bool \<Rightarrow> string \<Rightarrow> string \<Rightarrow> 's framing" where
  "frame_run sep H s t p [] = Awaiting s t p"
| "frame_run sep H s t p (c # cs) =
     (if c = sep then
        (case H s p t of (r, s') \<Rightarrow>
           if r < 0 then Stopped r s' (p @ c # cs) else frame_run sep H s' False [] cs)
      else frame_run sep H s t (p @ [c]) cs)"

text \<open>One read of the abstract reader: a full unfinished line is dropped and flagged first.\<close>

definition frame_read ::
  "nat \<Rightarrow> char \<Rightarrow> ('s \<Rightarrow> string \<Rightarrow> bool \<Rightarrow> int \<times> 's) \<Rightarrow> 's \<Rightarrow> bool \<Rightarrow> string \<Rightarrow> string \<Rightarrow> 's framing" where
  "frame_read sz sep H s t p data =
     (if length p = sz then frame_run sep H s True [] data else frame_run sep H s t p data)"

lemma frame_run_append:
  "frame_run sep H s t p (xs @ ys) =
     (case frame_run sep H s t p xs of
        Awaiting s' t' p' \<Rightarrow> frame_run sep H s' t' p' ys
      | Stopped r s' rest \<Rightarrow> Stopped r s' (rest @ ys))"
  by (induction xs arbitrary: s t p) (auto split: prod.splits)

lemma frame_run_no_sep: "sep \<notin> set xs \<Longrightarrow> frame_run sep H s t p xs = Awaiting s t (p @ xs)"
  by (induction xs arbitrary: p) auto

text \<open>The lines of a byte stream and what is left after its last separator.\<close>

fun split_lines :: "char \<Rightarrow> string \<Rightarrow> string \<Rightarrow> string list \<times> string" where
  "split_lines sep p [] = ([], p)"
| "split_lines sep p (c # cs) =
     (if c = sep then (let (ls, r) = split_lines sep [] cs in (p # ls, r))
      else split_lines sep (p @ [c]) cs)"

text \<open>
  Deliveries \<open>calls\<close> that frame a stream honestly: one per line and in order, each the end of
  its line, and the whole line unless it is flagged as truncated.
\<close>

definition end_of :: "string \<Rightarrow> string \<times> bool \<Rightarrow> bool" where
  "end_of l d \<longleftrightarrow> suffix (fst d) l \<and> (\<not> snd d \<longrightarrow> fst d = l)"

definition framed :: "char \<Rightarrow> string \<Rightarrow> (string \<times> bool) list \<Rightarrow> string \<Rightarrow> bool \<Rightarrow> bool" where
  "framed sep xs calls p t \<longleftrightarrow>
     list_all2 end_of (fst (split_lines sep [] xs)) calls \<and> end_of (snd (split_lines sep [] xs)) (p, t)"

lemma split_lines_append:
  "split_lines sep p (xs @ ys) =
     (let (ls, r) = split_lines sep p xs; (ls', r') = split_lines sep r ys in (ls @ ls', r'))"
  by (induction sep p xs rule: split_lines.induct) (auto simp: Let_def split: prod.splits)

lemma framed_Nil [simp]: "framed sep [] [] [] False"
  by (simp add: framed_def end_of_def)

lemma framed_snoc:
  assumes "framed sep xs calls p t" and "c \<noteq> sep"
  shows "framed sep (xs @ [c]) calls (p @ [c]) t"
  using assms by (auto simp: framed_def end_of_def split_lines_append suffix_def Let_def split: prod.splits)

lemma framed_sep:
  assumes "framed sep xs calls p t"
  shows "framed sep (xs @ [sep]) (calls @ [(p, t)]) [] False"
  using assms by (auto simp: framed_def end_of_def split_lines_append Let_def split: prod.splits
      intro: list_all2_appendI)

lemma framed_drop: "framed sep xs calls p t \<Longrightarrow> framed sep xs calls [] True"
  by (auto simp: framed_def end_of_def)

text \<open>The streams whose lines all fit a buffer of \<open>sz\<close> bytes.\<close>

definition lines_fit :: "nat \<Rightarrow> char \<Rightarrow> string \<Rightarrow> bool" where
  "lines_fit sz sep xs \<longleftrightarrow>
     (\<forall>l \<in> set (fst (split_lines sep [] xs)). length l < sz) \<and> length (snd (split_lines sep [] xs)) \<le> sz"

lemma split_lines_grows:
  "ys \<noteq> [] \<Longrightarrow> (\<exists>l \<in> set (fst (split_lines sep r ys)). length r \<le> length l)
     \<or> length r < length (snd (split_lines sep r ys))"
proof (induction ys arbitrary: r)
  case (Cons c cs)
  show ?case
  proof (cases "c \<noteq> sep \<and> cs \<noteq> []")
    case True
    with Cons.IH [of "r @ [c]"] show ?thesis by (auto dest: Suc_leD)
  qed (auto simp: Let_def split: prod.splits)
qed simp

lemma lines_fit_append:
  assumes "lines_fit sz sep (xs @ ys)"
  shows "lines_fit sz sep xs" and "ys \<noteq> [] \<Longrightarrow> length (snd (split_lines sep [] xs)) < sz"
proof -
  let ?r = "snd (split_lines sep [] xs)"
  have *: "length ?r < sz" if "ys \<noteq> []"
    using split_lines_grows [OF that, of sep ?r] assms
    by (auto simp: lines_fit_def split_lines_append Let_def case_prod_beta intro: le_less_trans)
  then show "ys \<noteq> [] \<Longrightarrow> length ?r < sz" .
  show "lines_fit sz sep xs"
    using assms * by (cases "ys = []") (auto simp: lines_fit_def split_lines_append Let_def split: prod.splits)
qed

text \<open>A handler that never refuses sees honestly framed deliveries.\<close>

definition deliver_all :: "('s \<Rightarrow> string \<Rightarrow> bool \<Rightarrow> int \<times> 's) \<Rightarrow> 's \<Rightarrow> (string \<times> bool) list \<Rightarrow> 's" where
  "deliver_all H s calls = foldl (\<lambda>s (l, t). snd (H s l t)) s calls"

lemma frame_run_framed:
  "framed sep xs calls p t \<Longrightarrow> s = deliver_all H s0 calls \<Longrightarrow> frame_run sep H s t p ys = Awaiting s' t' p' \<Longrightarrow>
     \<exists>calls'. framed sep (xs @ ys) calls' p' t' \<and> s' = deliver_all H s0 calls'"
proof (induction sep H s t p ys arbitrary: xs calls rule: frame_run.induct)
  case (1 sep H s t p)
  then show ?case by auto
next
  case (2 sep H s t p c cs)
  show ?case
  proof (cases "c = sep")
    case False
    then show ?thesis
      using "2.IH"(2) [OF False framed_snoc [OF "2.prems"(1) False] "2.prems"(2)] "2.prems"(3) by simp
  next
    case True
    obtain r s1 where H: "H s p t = (r, s1)" by fastforce
    with "2.prems"(3) True have ok: "\<not> r < 0" and run: "frame_run sep H s1 False [] cs = Awaiting s' t' p'"
      by (auto split: if_splits)
    have "s1 = deliver_all H s0 (calls @ [(p, t)])"
      using "2.prems"(2) H by (simp add: deliver_all_def)
    from "2.IH"(1) [OF True H [symmetric] ok framed_sep [OF "2.prems"(1)] this run]
    show ?thesis using True by simp
  qed
qed

lemma frame_run_lines:
  "frame_run sep H s False p ys = Awaiting s' t' p' \<Longrightarrow>
     \<not> t' \<and> s' = deliver_all H s (map (\<lambda>l. (l, False)) (fst (split_lines sep p ys))) \<and> p' = snd (split_lines sep p ys)"
proof (induction ys arbitrary: s p)
  case (Cons c cs)
  then show ?case
    by (fastforce simp: deliver_all_def Let_def split: prod.splits if_splits)
qed (simp add: deliver_all_def)

section \<open>The invariant of the buffer\<close>

text \<open>
  Between calls the unfinished line occupies the cells from \<open>afsep\<close> to \<open>start\<close> and holds no
  separator; the bytes still to be scanned lie inside the buffer.
\<close>

definition lb_pending :: "line_buf \<Rightarrow> string" where
  "lb_pending b = cells (lb_afsep b) (lb_start b) (lb_buf b)"

definition lb_unscanned :: "line_buf \<Rightarrow> string" where
  "lb_unscanned b = cells (lb_start b) (nat (int (lb_start b) + lb_n b)) (lb_buf b)"

definition lb_ready :: "char \<Rightarrow> line_buf \<Rightarrow> bool" where
  "lb_ready sep b \<longleftrightarrow>
     length (lb_buf b) = lb_size b \<and> 0 < lb_size b \<and> lb_afsep b = 0 \<and> lb_start b \<le> lb_size b \<and>
     sep \<notin> set (lb_pending b)"

definition lb_scannable :: "char \<Rightarrow> line_buf \<Rightarrow> bool" where
  "lb_scannable sep b \<longleftrightarrow>
     length (lb_buf b) = lb_size b \<and> 0 < lb_size b \<and> lb_afsep b \<le> lb_start b \<and> 0 \<le> lb_n b \<and>
     int (lb_start b) + lb_n b \<le> int (lb_size b) \<and> sep \<notin> set (lb_pending b)"

lemma lb_ready_init: "0 < sz \<Longrightarrow> length m = sz \<Longrightarrow>
    lb_ready sep \<lparr>lb_buf = m, lb_size = sz, lb_start = 0, lb_afsep = 0, lb_truncated = False, lb_n = 0\<rparr>"
  by (simp add: lb_ready_def lb_pending_def)

text \<open>
  When the outcome of a scan of the buffer agrees with an outcome of the abstract reader: the
  same handler state, the same unfinished line and flag; on a refusal, a buffer that holds
  exactly the unconsumed input, ready for a replay.
\<close>

definition scan_agrees :: "char \<Rightarrow> line_buf \<Rightarrow> int \<times> line_buf \<times> 's \<Rightarrow> 's framing \<Rightarrow> bool" where
  "scan_agrees sep b res fr \<longleftrightarrow>
     (case fr of
        Awaiting s' t' p' \<Rightarrow>
          \<exists>b'. res = (lb_n b, b', s') \<and> lb_ready sep b' \<and> lb_size b' = lb_size b \<and>
               lb_pending b' = p' \<and> lb_truncated b' = t'
      | Stopped r s' rest \<Rightarrow>
          \<exists>b'. res = (r, b', s') \<and> r < 0 \<and> lb_scannable sep b' \<and> lb_size b' = lb_size b \<and>
               lb_pending b' = [] \<and> lb_unscanned b' = rest \<and> \<not> lb_truncated b')"

lemma scan_agrees_cong:
  "lb_n b1 = lb_n b2 \<Longrightarrow> lb_size b1 = lb_size b2 \<Longrightarrow> scan_agrees sep b1 res fr = scan_agrees sep b2 res fr"
  by (simp add: scan_agrees_def split: framing.split)

lemma replay_loop_finish:
  assumes "length (lb_buf b) = lb_size b" "0 < lb_size b" "lb_afsep b \<le> i"
    "int i = int (lb_start b) + lb_n b" "i \<le> lb_size b" "sep \<notin> set (cells (lb_afsep b) i (lb_buf b))"
  shows "scan_agrees sep b (replay_loop b sep h s i)
    (Awaiting s (lb_truncated b) (cells (lb_afsep b) i (lb_buf b)))"
proof -
  have "take (i - lb_afsep b) (poke (lb_buf b) 0 (cells (lb_afsep b) i (lb_buf b)))
      = cells (lb_afsep b) i (lb_buf b)"
    using assms by (simp add: poke_def)
  then show ?thesis
    using assms by (auto simp: scan_agrees_def replay_loop.simps [of b] lb_ready_def lb_pending_def)
qed

text \<open>
  What a client of the reader promises: its handler is a function of the bytes of the
  line, and leaves the buffer alone.
\<close>

locale line_client =
  fixes h :: "'s line_handler"
    and H :: "'s \<Rightarrow> string \<Rightarrow> bool \<Rightarrow> int \<times> 's"
  assumes handler_line:
    "off + len < length m \<Longrightarrow> m ! (off + len) = NUL \<Longrightarrow>
       h s m off len t = (case H s (cells off (off + len) m) t of (r, s') \<Rightarrow> (r, s', m))"
begin

lemma handler_at_sep:
  "lb_afsep b \<le> i \<Longrightarrow> i < length (lb_buf b) \<Longrightarrow>
     h s ((lb_buf b)[i := NUL]) (lb_afsep b) (i - lb_afsep b) t =
       (case H s (cells (lb_afsep b) i (lb_buf b)) t of (r, s') \<Rightarrow> (r, s', (lb_buf b)[i := NUL]))"
  using handler_line [of "lb_afsep b" "i - lb_afsep b" "(lb_buf b)[i := NUL]" s t]
  by (simp add: cells_update_outside)

lemma scan_refused:
  assumes "length (lb_buf b) = lb_size b" "0 < lb_size b" "lb_afsep b \<le> i"
    "int i < int (lb_start b) + lb_n b" "int (lb_start b) + lb_n b \<le> int (lb_size b)"
    "lb_buf b ! i = sep" "H s (cells (lb_afsep b) i (lb_buf b)) (lb_truncated b) = (r, s')" "r < 0"
  shows "scan_agrees sep b (replay_loop b sep h s i)
    (Stopped r s' (cells (lb_afsep b) (nat (int (lb_start b) + lb_n b)) (lb_buf b)))"
proof -
  have restored: "(lb_buf b)[i := sep] = lb_buf b"
    using assms(6) list_update_id [of "lb_buf b" i] by simp
  have "replay_loop b sep h s i =
      (r, b\<lparr>lb_buf := lb_buf b, lb_truncated := False, lb_n := lb_n b - (int (lb_afsep b) - int (lb_start b)),
            lb_start := lb_afsep b\<rparr>, s')"
    using assms by (simp add: replay_loop.simps [of b] handler_at_sep restored)
  then show ?thesis
    using assms by (auto simp: scan_agrees_def lb_scannable_def lb_pending_def lb_unscanned_def add.commute)
qed

lemma replay_loop_refines:
  "length (lb_buf b) = lb_size b \<Longrightarrow> 0 < lb_size b \<Longrightarrow> lb_afsep b \<le> i \<Longrightarrow>
   int (i + k) = int (lb_start b) + lb_n b \<Longrightarrow> i + k \<le> lb_size b \<Longrightarrow>
   sep \<notin> set (cells (lb_afsep b) i (lb_buf b)) \<Longrightarrow>
     scan_agrees sep b (replay_loop b sep h s i)
       (frame_run sep H s (lb_truncated b) (cells (lb_afsep b) i (lb_buf b))
          (cells i (i + k) (lb_buf b)))"
proof (induction k arbitrary: b s i)
  case 0
  then show ?case by (simp add: replay_loop_finish)
next
  case (Suc k)
  let ?m = "lb_buf b" and ?p = "cells (lb_afsep b) i (lb_buf b)"
  have i: "i < length ?m" and lt: "int i < int (lb_start b) + lb_n b"
    using Suc.prems by linarith+
  have input: "cells i (i + Suc k) ?m = ?m ! i # cells (Suc i) (Suc i + k) ?m"
    using cells_Cons_nth [of i "i + Suc k" ?m] Suc.prems by simp
  show ?case
  proof (cases "?m ! i = sep")
    case False
    have grow: "cells (lb_afsep b) (Suc i) ?m = ?p @ [?m ! i]"
      using Suc.prems i by (simp add: cells_Suc)
    have "scan_agrees sep b (replay_loop b sep h s (Suc i))
       (frame_run sep H s (lb_truncated b) (?p @ [?m ! i]) (cells (Suc i) (Suc i + k) ?m))"
      using Suc.IH [of b "Suc i" s] Suc.prems False grow by simp
    then show ?thesis using False lt input by (simp add: replay_loop.simps [of b sep h s i])
  next
    case True
    obtain r s' where H: "H s ?p (lb_truncated b) = (r, s')" by fastforce
    show ?thesis
    proof (cases "r < 0")
      case neg: True
      have "nat (int (lb_start b) + lb_n b) = i + Suc k" using Suc.prems(4) by linarith
      moreover have "cells (lb_afsep b) (i + Suc k) ?m = ?p @ sep # cells (Suc i) (Suc i + k) ?m"
        using cells_append [of "lb_afsep b" i "i + Suc k" ?m] Suc.prems input True by simp
      ultimately show ?thesis
        using scan_refused [OF _ _ _ lt _ True H neg] Suc.prems input True H neg by simp
    next
      case False
      let ?b2 = "b\<lparr>lb_buf := ?m[i := NUL], lb_truncated := False, lb_afsep := i + 1\<rparr>"
      have "scan_agrees sep ?b2 (replay_loop ?b2 sep h s' (Suc i))
         (frame_run sep H s' False [] (cells (Suc i) (Suc i + k) ?m))"
        using Suc.IH [of ?b2 "Suc i" s'] Suc.prems by (simp add: cells_update_outside)
      moreover have "replay_loop b sep h s i = replay_loop ?b2 sep h s' (Suc i)"
        using True lt H False Suc.prems(3) i
        by (simp add: replay_loop.simps [of b sep h s i] handler_at_sep)
      ultimately show ?thesis
        using True H False input by (simp add: scan_agrees_cong [of b ?b2])
    qed
  qed
qed

text \<open>A replay of the buffer, and a read followed by its scan, as steps of the abstract reader.\<close>

lemma replay_refines:
  assumes "lb_scannable sep b"
  shows "scan_agrees sep b (line_buf_replay b sep h s)
    (frame_run sep H s (lb_truncated b) (lb_pending b) (lb_unscanned b))"
proof -
  have "nat (int (lb_start b) + lb_n b) = lb_start b + nat (lb_n b)"
    using assms by (simp add: lb_scannable_def nat_add_distrib)
  moreover have "lb_start b + nat (lb_n b) \<le> lb_size b"
    using assms unfolding lb_scannable_def by linarith
  ultimately show ?thesis
    using assms replay_loop_refines [of b "lb_start b" "nat (lb_n b)" sep s]
    by (simp add: line_buf_replay_def lb_scannable_def lb_pending_def lb_unscanned_def)
qed

lemma read_refines:
  assumes "lb_ready sep b" and "readf (if lb_start b = lb_size b then lb_size b else lb_size b - lb_start b) = Read_bytes data"
    and "data \<noteq> []"
    and "length data \<le> (if lb_start b = lb_size b then lb_size b else lb_size b - lb_start b)"
  shows "scan_agrees sep (b\<lparr>lb_n := int (length data)\<rparr>) (line_buf_read b sep readf h s)
    (frame_read (lb_size b) sep H s (lb_truncated b) (lb_pending b) data)"
proof -
  define b1 where "b1 = (if lb_start b = lb_size b then b\<lparr>lb_start := 0, lb_afsep := 0, lb_truncated := True\<rparr> else b)"
  define b2 where "b2 = b1\<lparr>lb_buf := poke (lb_buf b1) (lb_start b1) data, lb_n := int (length data)\<rparr>"
  have room: "lb_size b - lb_start b = 0 \<longleftrightarrow> lb_start b = lb_size b"
    using assms(1) by (auto simp: lb_ready_def)
  have rd: "line_buf_read b sep readf h s = line_buf_replay b2 sep h s"
    using assms(2,3) room by (cases "lb_start b = lb_size b") (simp_all add: line_buf_read_def Let_def b1_def b2_def)
  have fits: "lb_start b1 + length data \<le> length (lb_buf b1)" "lb_afsep b1 = 0" "lb_size b1 = lb_size b"
    using assms(1,4) by (auto simp: b1_def lb_ready_def split: if_splits)
  have pend: "lb_pending b2 = (if lb_start b = lb_size b then [] else lb_pending b)"
    using fits assms(1)
    by (simp add: lb_pending_def b2_def take_poke_before) (simp add: b1_def lb_ready_def)
  have unsc: "lb_unscanned b2 = data"
    using fits by (simp add: lb_unscanned_def b2_def nat_add_distrib cells_def poke_def)
  have "lb_scannable sep b2"
    using assms(1) fits pend
    by (auto simp: lb_scannable_def b2_def) (auto simp: b1_def lb_ready_def split: if_splits)
  then have "scan_agrees sep b2 (line_buf_replay b2 sep h s)
      (frame_run sep H s (lb_truncated b2) (if lb_start b = lb_size b then [] else lb_pending b) data)"
    using replay_refines [of sep b2 s] pend unsc by simp
  moreover have "length (lb_pending b) = lb_size b \<longleftrightarrow> lb_start b = lb_size b"
    using assms(1) by (auto simp: lb_ready_def lb_pending_def)
  moreover have "lb_truncated b2 = (if lb_start b = lb_size b then True else lb_truncated b)"
    by (simp add: b2_def b1_def)
  moreover have "lb_size b2 = lb_size b" "lb_n b2 = int (length data)" using fits by (simp_all add: b2_def)
  ultimately show ?thesis
    using rd by (auto simp: frame_read_def scan_agrees_cong [of "b\<lparr>lb_n := int (length data)\<rparr>" b2])
qed

end

section \<open>Streams of reads\<close>

text \<open>
  The stream \<open>xs\<close> arrives in chunks, each as large as the room in the buffer allows, and no
  line is refused: the reader goes from \<open>b\<close> to \<open>b'\<close> and the handler from \<open>s\<close> to \<open>s'\<close>.
\<close>

definition room_of :: "line_buf \<Rightarrow> nat" where
  "room_of b = (if lb_start b = lb_size b then lb_size b else lb_size b - lb_start b)"

inductive feeds :: "char \<Rightarrow> 's line_handler \<Rightarrow> line_buf \<Rightarrow> 's \<Rightarrow> string \<Rightarrow> line_buf \<Rightarrow> 's \<Rightarrow> bool"
  for sep h b s where
  feeds_start: "feeds sep h b s [] b s"
| feeds_read: "feeds sep h b s xs b' s' \<Longrightarrow> c \<noteq> [] \<Longrightarrow> length c \<le> room_of b' \<Longrightarrow>
     line_buf_read b' sep (\<lambda>_. Read_bytes c) h s' = (r, b'', s'') \<Longrightarrow> 0 \<le> r \<Longrightarrow>
     feeds sep h b s (xs @ c) b'' s''"

context line_client
begin

lemma read_step:
  assumes "lb_ready sep b" "c \<noteq> []" "length c \<le> room_of b"
    "line_buf_read b sep (\<lambda>_. Read_bytes c) h s = (r, b', s')" "0 \<le> r"
  shows "frame_read (lb_size b) sep H s (lb_truncated b) (lb_pending b) c =
      Awaiting s' (lb_truncated b') (lb_pending b') \<and> lb_ready sep b' \<and> lb_size b' = lb_size b"
proof -
  have "scan_agrees sep (b\<lparr>lb_n := int (length c)\<rparr>) (r, b', s')
      (frame_read (lb_size b) sep H s (lb_truncated b) (lb_pending b) c)"
    using read_refines [of sep b "\<lambda>_. Read_bytes c" c s] assms by (simp add: room_of_def)
  then show ?thesis
    using assms(5) by (auto simp: scan_agrees_def split: framing.splits)
qed

lemma frame_read_framed:
  assumes "framed sep xs calls p t" "s = deliver_all H s0 calls" "frame_read sz sep H s t p c = Awaiting s' t' p'"
  shows "\<exists>calls'. framed sep (xs @ c) calls' p' t' \<and> s' = deliver_all H s0 calls'"
  using frame_run_framed [OF assms(1,2)] frame_run_framed [OF framed_drop [OF assms(1)] assms(2)] assms(3)
  by (auto simp: frame_read_def split: if_splits)

lemma feeds_framed:
  assumes "feeds sep h b s xs b' s'" "lb_ready sep b" "lb_pending b = []" "\<not> lb_truncated b"
  shows "lb_ready sep b' \<and> lb_size b' = lb_size b \<and>
    (\<exists>calls. framed sep xs calls (lb_pending b') (lb_truncated b') \<and> s' = deliver_all H s calls)"
  using assms
proof (induction rule: feeds.induct)
  case feeds_start
  then show ?case by (auto simp: deliver_all_def intro: exI [of _ "[]"])
next
  case (feeds_read xs b' s' c r b'' s'')
  then obtain calls where calls: "framed sep xs calls (lb_pending b') (lb_truncated b')" "s' = deliver_all H s calls"
    and rdy: "lb_ready sep b'" "lb_size b' = lb_size b" by blast
  note step = read_step [OF rdy(1) feeds_read.hyps(2-5)]
  from frame_read_framed [OF calls] step show ?case using rdy(2) by auto
qed

lemma feeds_untruncated:
  assumes "feeds sep h b s xs b' s'" "lb_ready sep b" "lb_pending b = []" "\<not> lb_truncated b"
    "lines_fit (lb_size b) sep xs"
  shows "\<not> lb_truncated b' \<and> s' = deliver_all H s (map (\<lambda>l. (l, False)) (fst (split_lines sep [] xs))) \<and>
    lb_pending b' = snd (split_lines sep [] xs)"
  using assms
proof (induction rule: feeds.induct)
  case feeds_start
  then show ?case by (auto simp: deliver_all_def)
next
  case (feeds_read xs b' s' c r b'' s'')
  note fit = lines_fit_append [OF feeds_read.prems(4)]
  from feeds_read.IH [OF feeds_read.prems(1-3) fit(1)]
  have st: "\<not> lb_truncated b'" "lb_pending b' = snd (split_lines sep [] xs)"
    "s' = deliver_all H s (map (\<lambda>l. (l, False)) (fst (split_lines sep [] xs)))" by auto
  have rdy: "lb_ready sep b'" "lb_size b' = lb_size b"
    using feeds_framed [OF feeds_read.hyps(1) feeds_read.prems(1-3)] by auto
  have "frame_run sep H s' False (snd (split_lines sep [] xs)) c =
      Awaiting s'' (lb_truncated b'') (lb_pending b'')"
    using read_step [OF rdy(1) feeds_read.hyps(2-5)] fit(2) feeds_read.hyps(2) st rdy(2)
    by (simp add: frame_read_def)
  from frame_run_lines [OF this] show ?case
    using st(3) by (auto simp: split_lines_append deliver_all_def Let_def split: prod.splits)
qed

end

text \<open>What every accepting call of the handler keeps, a stream without refusals keeps.\<close>

lemma replay_loop_keeps:
  "replay_loop b sep h s i = (r, b', s') \<Longrightarrow> 0 \<le> r \<Longrightarrow> P s \<Longrightarrow>
   (\<And>s m off len t r s' m'. P s \<Longrightarrow> h s m off len t = (r, s', m') \<Longrightarrow> 0 \<le> r \<Longrightarrow> P s') \<Longrightarrow> P s'"
proof (induction b sep h s i arbitrary: r b' s' rule: replay_loop.induct)
  case (1 b sep h s i)
  obtain q s1 m1 where h: "h s ((lb_buf b)[i := NUL]) (lb_afsep b) (i - lb_afsep b) (lb_truncated b) = (q, s1, m1)"
    by (metis prod_cases3)
  show ?case
    using "1.prems" h "1.IH" by (auto simp: replay_loop.simps [of b sep h s i] split: if_splits)
qed

lemma feeds_keeps:
  assumes "feeds sep h b s xs b' s'" "P s"
    and "\<And>s m off len t r s' m'. P s \<Longrightarrow> h s m off len t = (r, s', m') \<Longrightarrow> 0 \<le> r \<Longrightarrow> P s'"
  shows "P s'"
  using assms(1,2)
proof (induction rule: feeds.induct)
  case (feeds_read xs b' s' c r b'' s'')
  then show ?case
    using replay_loop_keeps [where P = P and h = h, OF _ _ _ assms(3)]
    by (auto simp: line_buf_read_def line_buf_replay_def Let_def split: if_splits)
qed

section \<open>Views of a handler\<close>

text \<open>
  A handler \<open>g\<close> on part of the state of \<open>h\<close>: every call of \<open>h\<close> is a call of \<open>g\<close> with the same
  result and the same stores into the buffer. Then the whole reader runs alike on both.
\<close>

locale handler_view =
  fixes h :: "'s line_handler" and g :: "'a line_handler" and view :: "'s \<Rightarrow> 'a"
  assumes handler_view: "h s m off len t = (r, s', m') \<Longrightarrow> g (view s) m off len t = (r, view s', m')"
begin

lemma replay_loop_view:
  "replay_loop b sep h s i = (r, b', s') \<Longrightarrow> replay_loop b sep g (view s) i = (r, b', view s')"
proof (induction "nat (int (lb_start b) + lb_n b - int i)" arbitrary: b s i rule: less_induct)
  case less
  show ?case
  proof (cases "int i < int (lb_start b) + lb_n b")
    case False
    then show ?thesis using less.prems by (auto simp: replay_loop.simps [of b])
  next
    case lt: True
    show ?thesis
    proof (cases "lb_buf b ! i = sep")
      case False
      then show ?thesis using less.prems lt less.hyps [of b "i + 1" s] by (simp add: replay_loop.simps [of b _ _ _ i])
    next
      case True
      obtain q s1 m1 where h: "h s ((lb_buf b)[i := NUL]) (lb_afsep b) (i - lb_afsep b) (lb_truncated b) = (q, s1, m1)"
        by (metis prod_cases3)
      show ?thesis
        using less.prems lt True h handler_view [OF h]
          less.hyps [of "b\<lparr>lb_buf := m1, lb_truncated := False, lb_afsep := i + 1\<rparr>" "i + 1" s1]
        by (auto simp: replay_loop.simps [of b _ _ _ i] split: if_splits)
    qed
  qed
qed

lemma line_buf_read_view:
  "line_buf_read b sep readf h s = (r, b', s') \<Longrightarrow> line_buf_read b sep readf g (view s) = (r, b', view s')"
  by (auto simp: line_buf_read_def line_buf_replay_def Let_def intro: replay_loop_view split: read_result.splits if_splits)

lemma feeds_view: "feeds sep h b s xs b' s' \<Longrightarrow> feeds sep g b (view s) xs b' (view s')"
  by (induction rule: feeds.induct) (auto intro: feeds.intros line_buf_read_view)

end

section \<open>An observer of the deliveries\<close>

text \<open>The handler that accepts every line and records what it was given.\<close>

definition record_line :: "(string \<times> bool) list line_handler" where
  "record_line log m off len t = (0, log @ [(cells off (off + len) m, t)], m)"

interpretation recorder: line_client record_line "\<lambda>log l t. (0, log @ [(l, t)])"
  by unfold_locales (simp add: record_line_def)

lemma deliver_all_record: "deliver_all (\<lambda>log l t. (0, log @ [(l, t)])) log calls = log @ calls"
  by (induction calls arbitrary: log) (auto simp: deliver_all_def)

definition fresh_line_buf :: "char list \<Rightarrow> line_buf" where
  "fresh_line_buf m = \<lparr>lb_buf = m, lb_size = length m, lb_start = 0, lb_afsep = 0, lb_truncated = False, lb_n = 0\<rparr>"

lemma fresh_line_buf_ready:
  "m \<noteq> [] \<Longrightarrow> lb_ready sep (fresh_line_buf m)" "lb_pending (fresh_line_buf m) = []"
  "\<not> lb_truncated (fresh_line_buf m)" "lb_size (fresh_line_buf m) = length m"
  using lb_ready_init [of "length m" m sep] by (simp_all add: fresh_line_buf_def lb_pending_def)

text \<open>A stream of two reads into a buffer of four bytes; the first read ends inside the line.\<close>

lemma feeds_example:
  "\<exists>b. feeds NL record_line (fresh_line_buf (replicate 4 NUL)) [] ([] @ ''ab'' @ [] @ ''c'' @ [NL]) b [(''abc'', False)]"
proof -
  have 1: "line_buf_read (fresh_line_buf (replicate 4 NUL)) NL (\<lambda>_. Read_bytes ''ab'') record_line [] =
      (2, \<lparr>lb_buf = [CHR ''a'', CHR ''b'', NUL, NUL], lb_size = 4, lb_start = 2, lb_afsep = 0, lb_truncated = False, lb_n = 2\<rparr>, [])"
    by code_simp
  have 2: "line_buf_read \<lparr>lb_buf = [CHR ''a'', CHR ''b'', NUL, NUL], lb_size = 4, lb_start = 2, lb_afsep = 0, lb_truncated = False, lb_n = 2\<rparr>
        NL (\<lambda>_. Read_bytes (''c'' @ [NL])) record_line [] =
      (2, \<lparr>lb_buf = [CHR ''a'', CHR ''b'', CHR ''c'', NUL], lb_size = 4, lb_start = 0, lb_afsep = 0, lb_truncated = False, lb_n = 2\<rparr>,
       [(''abc'', False)])"
    by code_simp
  have "feeds NL record_line (fresh_line_buf (replicate 4 NUL)) [] ([] @ ''ab'')
      \<lparr>lb_buf = [CHR ''a'', CHR ''b'', NUL, NUL], lb_size = 4, lb_start = 2, lb_afsep = 0, lb_truncated = False, lb_n = 2\<rparr> []"
    by (rule feeds_read [OF feeds_start _ _ 1]) (simp_all add: fresh_line_buf_def room_of_def)
  from feeds_read [OF this _ _ 2] show ?thesis by (auto simp: room_of_def)
qed

section \<open>Properties\<close>



text \<open>
  C8: Independence of the read boundaries. When every line of the stream is shorter than the
  buffer, the handler is given exactly the lines of the stream, whole, in order and not
  flagged, and the buffer keeps exactly the unfinished line: no choice of chunks matters.
\<close>

theorem framing_chunk_independent:
  assumes "feeds sep record_line (fresh_line_buf m) [] xs b log" and "m \<noteq> []"
    and "lines_fit (length m) sep xs"
  shows "log = map (\<lambda>l. (l, False)) (fst (split_lines sep [] xs)) \<and>
    lb_pending b = snd (split_lines sep [] xs) \<and> \<not> lb_truncated b"
  using recorder.feeds_untruncated [OF assms(1)] fresh_line_buf_ready [of m] assms(2,3)
  by (auto simp: deliver_all_record)

theorem framing_chunk_independent_witness:
  "\<exists>b. feeds NL record_line (fresh_line_buf (replicate 4 NUL)) [] (''abc'' @ [NL]) b [(''abc'', False)] \<and>
     [(''abc'', False)] = map (\<lambda>l. (l, False)) (fst (split_lines NL [] (''abc'' @ [NL]))) \<and> \<not> lb_truncated b"
proof -
  obtain b where b: "feeds NL record_line (fresh_line_buf (replicate 4 NUL)) [] (''abc'' @ [NL]) b [(''abc'', False)]"
    using feeds_example by auto
  have fit: "lines_fit (length (replicate 4 NUL)) NL (''abc'' @ [NL])"
    by (simp add: lines_fit_def)
  have ne: "replicate 4 NUL \<noteq> []" by simp
  note T = framing_chunk_independent [OF b ne fit]
  show ?thesis
    by (intro exI conjI) (rule b, rule conjunct1 [OF T], rule conjunct2 [OF conjunct2 [OF T]])
qed

text \<open>
  C32: Replay after a refusal. When the handler refuses a line, \<open>line_buf_read\<close> returns its
  result and leaves the buffer holding exactly the input that is not consumed, from the start
  of the refused line on; a following \<open>line_buf_replay\<close> delivers the refused line again and
  then the rest as if it had just been read: no byte is lost or delivered out of order.
\<close>

theorem replay_after_refusal:
  assumes "line_client h H" and "line_client h2 H2" and "lb_ready sep b"
    and "data \<noteq> []" and "length data \<le> room_of b"
    and "frame_read (lb_size b) sep H s (lb_truncated b) (lb_pending b) data = Stopped r s' rest"
  shows "\<exists>b'. line_buf_read b sep (\<lambda>_. Read_bytes data) h s = (r, b', s') \<and> lb_unscanned b' = rest \<and>
    scan_agrees sep b' (line_buf_replay b' sep h2 s2) (frame_run sep H2 s2 False [] rest)"
proof -
  have "scan_agrees sep (b\<lparr>lb_n := int (length data)\<rparr>) (line_buf_read b sep (\<lambda>_. Read_bytes data) h s)
      (Stopped r s' rest)"
    using line_client.read_refines [OF assms(1,3), of "\<lambda>_. Read_bytes data" data s] assms(4-6)
    by (simp add: room_of_def)
  then obtain b' where b': "line_buf_read b sep (\<lambda>_. Read_bytes data) h s = (r, b', s')"
    "lb_scannable sep b'" "lb_pending b' = []" "lb_unscanned b' = rest" "\<not> lb_truncated b'"
    by (auto simp: scan_agrees_def)
  from line_client.replay_refines [OF assms(2) b'(2), of s2] b' show ?thesis by auto
qed

text \<open>A handler that refuses every line, as the trampoline of the command loop refuses one.\<close>

definition refuse_line :: "int \<Rightarrow> nat line_handler" where
  "refuse_line r k m off len t = (r, Suc k, m)"

interpretation refuser: line_client "refuse_line r" "\<lambda>k l t. (r, Suc k)" for r
  by unfold_locales (simp add: refuse_line_def)

theorem replay_after_refusal_witness:
  "\<exists>b'. line_buf_read (fresh_line_buf (replicate 4 NUL)) NL (\<lambda>_. Read_bytes (''a'' @ [NL] @ ''b'')) (refuse_line (-9999)) 0
       = (-9999, b', 1) \<and> lb_unscanned b' = ''a'' @ [NL] @ ''b'' \<and>
     scan_agrees NL b' (line_buf_replay b' NL record_line []) (Awaiting [(''a'', False)] False ''b'')"
  using replay_after_refusal [OF refuser.line_client_axioms recorder.line_client_axioms
      fresh_line_buf_ready(1), of "replicate 4 NUL" "''a'' @ [NL] @ ''b''" NL "-9999" 0 "-9999" 1 "''a'' @ [NL] @ ''b''" "[]"]
  by (simp add: fresh_line_buf_def room_of_def frame_read_def lb_pending_def)

end
