(* ===== verification/Utils.thy ===== *)
theory Utils
  imports Prelude
begin

text \<open>
  \<open>utils.c\<close>: writing a whole buffer or a whole \<open>iovec\<close> array to a file descriptor, time
  differences, the bounded error buffer \<open>WBuf\<close>, reading all of standard input, polling.
  System calls answer from a script: each list element is what the next call returns, and
  a loop whose script is used up has not returned yet (\<open>None\<close>).
\<close>

section \<open>Writing\<close>

text \<open>
  One \<open>write\<close> or \<open>writev\<close>: the \<open>ssize_t\<close> result, and whether \<open>errno\<close> is \<open>EINTR\<close> when it
  is not positive. The \<open>int n\<close> of \<open>write_all\<close> keeps the low 32 bits of the result.
\<close>

type_synonym write_script = "(int \<times> bool) list"

definition to_int32 :: "int \<Rightarrow> int" where
  "to_int32 r = sint (word_of_int r :: u32)"

fun write_all :: "write_script \<Rightarrow> char list \<Rightarrow> string \<Rightarrow> (int \<times> write_script \<times> string) option" where
  "write_all os [] sent = Some (0, os, sent)"
| "write_all [] (c # cs) sent = None"
| "write_all ((r, eintr) # os) (c # cs) sent =
     (let n = to_int32 r; buf = c # cs; sent' = sent @ take (nat r) buf
      in if n \<le> 0 then (if eintr then write_all os buf sent' else Some (n, os, sent'))
         else write_all os (drop (nat n) buf) sent')"

fun advance_iov :: "nat \<Rightarrow> char list list \<Rightarrow> char list list" where
  "advance_iov remaining [] = []"
| "advance_iov remaining (v # vs) =
     (if length v \<le> remaining then advance_iov (remaining - length v) vs
      else drop remaining v # vs)"

fun writev_loop :: "write_script \<Rightarrow> char list list \<Rightarrow> string \<Rightarrow> (int \<times> write_script \<times> string) option" where
  "writev_loop os [] sent = Some (0, os, sent)"
| "writev_loop [] (v # vs) sent = None"
| "writev_loop ((n, eintr) # os) (v # vs) sent =
     (let iov = v # vs; sent' = sent @ take (nat n) (concat iov)
      in if n \<le> 0 then (if eintr then writev_loop os iov sent' else Some (-1, os, sent'))
         else writev_loop os (advance_iov (nat n) iov) sent')"

definition writev_all :: "write_script \<Rightarrow> char list list \<Rightarrow> string \<Rightarrow> (int \<times> write_script \<times> string) option" where
  "writev_all os iov sent =
     (if iov = [] then Some (0, os, sent)
      else if sum_list (map length iov) = 0 then Some (0, os, sent)
      else writev_loop os iov sent)"

section \<open>Time\<close>

record timespec =
  tv_sec :: u64
  tv_nsec :: u64

definition ns_time_diff :: "timespec \<Rightarrow> timespec \<Rightarrow> u64" where
  "ns_time_diff t1 t2 =
     (let s1 = tv_sec t1; s2 = tv_sec t2;
          (s1', s2') = (if s1 <s s2 then (0, s2 - s1) else (s1 - s2, 0));
          ns1 = s1' * 1000000 * 1000 + tv_nsec t1;
          ns2 = s2' * 1000000 * 1000 + tv_nsec t2
      in ns1 - ns2)"

text \<open>C division truncates towards zero; the \<open>long\<close> of a timespec is not negative.\<close>

definition ns_to_us :: "nat \<Rightarrow> nat" where
  "ns_to_us ns = ns div 1000 + (if 500 \<le> ns mod 1000 then 1 else 0)"

section \<open>Small helpers\<close>

definition memswap_small :: "'a list \<Rightarrow> 'a list \<Rightarrow> nat \<Rightarrow> 'a list \<times> 'a list" where
  "memswap_small m1 m2 n =
     (let tmp = take n m1; m1' = poke m1 0 (take n m2); m2' = poke m2 0 tmp in (m1', m2'))"

text \<open>
  \<open>make_temp_dir\<close>: the size test is on \<open>size_t\<close> and wraps; \<open>snprintf\<close> keeps at most
  \<open>out_size - 1\<close> characters; \<open>mkdtemp\<close> is given the resulting string.
\<close>

definition make_temp_dir :: "string option \<Rightarrow> u64 \<Rightarrow> string \<Rightarrow> (string \<Rightarrow> string option) \<Rightarrow> int \<times> string option" where
  "make_temp_dir TMPDIR_env out_size template mkdtemp =
     (let TMPDIR = (case TMPDIR_env of None \<Rightarrow> ''/tmp'' | Some d \<Rightarrow> d) in
      if out_size - of_nat (length template) - 1 - 1 \<le> of_nat (length TMPDIR) then (-1, None)
      else let out = take (unat out_size - 1) (TMPDIR @ ''/'' @ template) in
        (case mkdtemp out of None \<Rightarrow> (-1, Some out) | Some d \<Rightarrow> (0, Some d)))"

record WBuf =
  wb_buf :: "char list"
  wb_index :: nat
  wb_length :: nat

definition write_to_wbuf :: "WBuf \<Rightarrow> string \<Rightarrow> WBuf" where
  "write_to_wbuf b inp =
     (let to_write = (if wb_index b \<le> wb_length b then min (wb_length b - wb_index b) (length inp) else 0)
      in b\<lparr>wb_buf := poke (wb_buf b) (wb_index b) (take to_write inp), wb_index := wb_index b + to_write\<rparr>)"

datatype PollFdResult = READY | SIG_INTERRUPT_OR_ERROR | GO_AROUND

definition poll_fd :: "int \<Rightarrow> bool \<Rightarrow> PollFdResult" where
  "poll_fd poll_ret interrupted =
     (if poll_ret = 0 then (if interrupted then SIG_INTERRUPT_OR_ERROR else GO_AROUND) else READY)"

definition ppoll_fd :: "int \<Rightarrow> bool \<Rightarrow> PollFdResult" where
  "ppoll_fd ppoll_ret interrupted =
     (if ppoll_ret = 0 then (if interrupted then SIG_INTERRUPT_OR_ERROR else GO_AROUND) else READY)"

section \<open>Reading standard input\<close>

text \<open>
  One round of the loop of \<open>read_all_stdin\<close> is answered by: whether \<open>realloc\<close> succeeds if it
  is called, the bytes \<open>fread\<close> delivers, and \<open>feof\<close> and \<open>ferror\<close> after it. The result is the
  text and, beside it, whether any \<open>fread\<close> was given less room than it may fill.
\<close>

datatype stdin_round = Stdin_round (sr_realloc_ok: bool) (sr_data: string) (sr_eof: bool) (sr_err: bool)

definition CHUNK :: nat where
  "CHUNK = 8192"

definition stdin_grow :: "nat \<Rightarrow> nat \<Rightarrow> nat" where
  "stdin_grow sz cap =
     (if cap < sz + CHUNK then max (if cap \<noteq> 0 then cap * 2 else CHUNK) (sz + CHUNK) else cap)"

fun stdin_loop :: "stdin_round list \<Rightarrow> string \<Rightarrow> nat \<Rightarrow> bool \<Rightarrow> (string option \<times> bool) option" where
  "stdin_loop [] text cap overrun = None"
| "stdin_loop (Stdin_round realloc_ok data eof err # rs) text cap overrun =
     (if cap < length text + CHUNK \<and> \<not> realloc_ok then Some (None, overrun)
      else let cap' = stdin_grow (length text) cap;
               overrun' = (overrun \<or> cap' < length text + CHUNK);
               text' = text @ data
           in if length data < CHUNK \<and> eof then Some (Some text', overrun')
              else if length data < CHUNK \<and> err then Some (None, overrun')
              else stdin_loop rs text' cap' overrun')"

definition read_all_stdin :: "stdin_round list \<Rightarrow> bool \<Rightarrow> (string option \<times> bool) option" where
  "read_all_stdin rounds final_realloc_ok =
     (case stdin_loop rounds [] 0 False of
        Some (Some text, ov) \<Rightarrow> Some (if final_realloc_ok then Some text else None, ov)
      | res \<Rightarrow> res)"

section \<open>Whole writes\<close>

text \<open>
  What \<open>write\<close> and \<open>writev\<close> promise for a request of \<open>len\<close> bytes, call after call: never more
  than was asked for, and not zero for a request that is not empty.
\<close>

fun honest_writes :: "write_script \<Rightarrow> nat \<Rightarrow> bool" where
  "honest_writes [] len = True"
| "honest_writes ((r, eintr) # os) len =
     (len = 0 \<or> (r \<noteq> 0 \<and> -1 \<le> r \<and> r \<le> int len \<and> honest_writes os (len - nat r)))"

lemma to_int32_small: "-(2 ^ 31) \<le> r \<Longrightarrow> r < 2 ^ 31 \<Longrightarrow> to_int32 r = r"
  unfolding to_int32_def by (simp add: signed_of_int signed_take_bit_int_eq_self)

lemma honest_writes_step:
  assumes "honest_writes ((r, eintr) # os) len" "0 < len" "len < 2 ^ 31"
  shows "r \<noteq> 0" "-1 \<le> r" "r \<le> int len" "honest_writes os (len - nat r)" "to_int32 r = r"
proof -
  show r: "r \<noteq> 0" "-1 \<le> r" "r \<le> int len" "honest_writes os (len - nat r)" using assms by auto
  have "int len < 2 ^ 31" using assms(3) by simp
  with r show "to_int32 r = r" by (intro to_int32_small) simp_all
qed

lemma concat_advance_iov: "concat (advance_iov k iov) = drop k (concat iov)"
  by (induction k iov rule: advance_iov.induct) auto

lemma advance_iov_nonempty: "advance_iov k iov = [] \<or> concat (advance_iov k iov) \<noteq> []"
  by (induction k iov rule: advance_iov.induct) auto

definition neg_to_minus_one :: "int \<times> write_script \<times> string \<Rightarrow> int \<times> write_script \<times> string" where
  "neg_to_minus_one = (\<lambda>(r, os, sent). (if r = 0 then 0 else -1, os, sent))"

lemma writev_loop_write_all:
  "iov = [] \<or> concat iov \<noteq> [] \<Longrightarrow> honest_writes os (length (concat iov)) \<Longrightarrow> length (concat iov) < 2 ^ 31 \<Longrightarrow>
     writev_loop os iov sent = map_option neg_to_minus_one (write_all os (concat iov) sent)"
proof (induction os iov sent rule: writev_loop.induct)
  case (1 os sent)
  then show ?case by (simp add: neg_to_minus_one_def)
next
  case (2 v vs sent)
  then obtain c cs where "concat (v # vs) = c # cs" by (metis list.distinct(1) neq_Nil_conv)
  then show ?case by simp
next
  case (3 n eintr os v vs sent)
  let ?iov = "v # vs"
  obtain c cs where cc: "concat ?iov = c # cs" using "3.prems" by (metis list.distinct(1) neq_Nil_conv)
  note hon = honest_writes_step [OF "3.prems"(2) _ "3.prems"(3), unfolded cc length_greater_0_conv, OF list.distinct(2)]
  note n32 = hon(5)
  show ?case
  proof (cases "n \<le> 0")
    case True
    then have "nat n = 0" by simp
    with True "3.IH"(1) [OF refl refl True] "3.prems" n32 cc hon show ?thesis
      by (auto simp: Let_def neg_to_minus_one_def)
  next
    case False
    let ?sent = "sent @ take (nat n) (concat ?iov)" and ?rest = "advance_iov (nat n) ?iov"
    have "honest_writes os (length (concat ?rest))"
      using hon(4) by (simp only: concat_advance_iov length_drop cc)
    moreover have "length (concat ?rest) < 2 ^ 31"
      using "3.prems"(3) by (simp only: concat_advance_iov length_drop)
    ultimately have "writev_loop os ?rest ?sent = map_option neg_to_minus_one (write_all os (concat ?rest) ?sent)"
      by (rule "3.IH"(2) [OF refl refl False advance_iov_nonempty])
    then show ?thesis
      using False n32 cc by (simp add: Let_def concat_advance_iov del: concat.simps advance_iov.simps)
  qed
qed

lemma write_all_prefix:
  "honest_writes os (length buf) \<Longrightarrow> length buf < 2 ^ 31 \<Longrightarrow> write_all os buf sent = Some (r, os', sent') \<Longrightarrow>
     (\<exists>k \<le> length buf. sent' = sent @ take k buf) \<and> r \<le> 0 \<and> (r = 0 \<longleftrightarrow> sent' = sent @ buf)"
proof (induction os buf sent rule: write_all.induct)
  case (3 n eintr os c cs sent)
  let ?buf = "c # cs"
  note hon = honest_writes_step [OF "3.prems"(1) _ "3.prems"(2), unfolded length_greater_0_conv, OF list.distinct(2)]
  note n32 = hon(5)
  show ?case
  proof (cases "n \<le> 0")
    case True
    then have z: "nat n = 0" by simp
    show ?thesis
    proof (cases eintr)
      case True
      with \<open>n \<le> 0\<close> z n32 show ?thesis
        using "3.IH"(1) [OF refl refl refl] "3.prems" hon by (simp add: Let_def)
    next
      case False
      with \<open>n \<le> 0\<close> z n32 hon(1) show ?thesis
        using "3.prems"(3) by (auto simp: Let_def intro: exI [of _ 0])
    qed
  next
    case False
    define k where "k = nat n"
    have k: "k \<le> length ?buf" using hon(3) unfolding k_def by linarith
    have run: "write_all os (drop k ?buf) (sent @ take k ?buf) = Some (r, os', sent')"
      using "3.prems"(3) False n32 unfolding k_def by (simp add: Let_def)
    have IH: "(\<exists>j \<le> length (drop k ?buf). sent' = (sent @ take k ?buf) @ take j (drop k ?buf)) \<and> r \<le> 0 \<and>
        (r = 0 \<longleftrightarrow> sent' = (sent @ take k ?buf) @ drop k ?buf)"
      using "3.IH"(2) [OF refl refl refl, unfolded n32, OF False] hon(4) "3.prems"(2) run
      unfolding k_def by simp
    then obtain j where j: "j \<le> length ?buf - k" "sent' = sent @ take (k + j) ?buf"
      by (auto simp: take_add)
    have "k + j \<le> length ?buf" using j(1) k by simp
    with j(2) have "\<exists>i \<le> length ?buf. sent' = sent @ take i ?buf" by blast
    moreover have "(sent @ take k ?buf) @ drop k ?buf = sent @ ?buf" by (metis append.assoc append_take_drop_id)
    ultimately show ?thesis using IH by simp
  qed
qed auto

text \<open>Calls that make progress: every result is positive or an interruption.\<close>

definition progress_writes :: "write_script \<Rightarrow> bool" where
  "progress_writes os \<longleftrightarrow> (\<forall>(r, eintr) \<in> set os. 0 < r \<or> eintr)"

lemma write_all_returns:
  "honest_writes os (length buf) \<Longrightarrow> length buf < 2 ^ 31 \<Longrightarrow> progress_writes os \<Longrightarrow>
   length buf \<le> length (filter (\<lambda>(r, eintr). 0 < r) os) \<Longrightarrow>
     \<exists>os'. write_all os buf sent = Some (0, os', sent @ buf)"
proof (induction os buf sent rule: write_all.induct)
  case (3 n eintr os c cs sent)
  let ?buf = "c # cs"
  note hon = honest_writes_step [OF "3.prems"(1) _ "3.prems"(2), unfolded length_greater_0_conv, OF list.distinct(2)]
  note n32 = hon(5)
  have prog: "progress_writes os" and eintr: "n \<le> 0 \<Longrightarrow> eintr"
    using "3.prems"(3) by (auto simp: progress_writes_def)
  show ?case
  proof (cases "n \<le> 0")
    case True
    then have z: "nat n = 0" by simp
    with True n32 eintr show ?thesis
      using "3.IH"(1) [OF refl refl refl] "3.prems" prog hon by (simp add: Let_def)
  next
    case False
    have "length (drop (nat n) ?buf) \<le> length (filter (\<lambda>(r, eintr). 0 < r) os)"
      using "3.prems"(4) False by simp
    then have "\<exists>os'. write_all os (drop (nat n) ?buf) (sent @ take (nat n) ?buf) =
        Some (0, os', (sent @ take (nat n) ?buf) @ drop (nat n) ?buf)"
      using "3.IH"(2) [OF refl refl refl, unfolded n32, OF False] hon(4) "3.prems"(2) prog by simp
    moreover have "(sent @ take (nat n) ?buf) @ drop (nat n) ?buf = sent @ ?buf"
      by (metis append.assoc append_take_drop_id)
    ultimately show ?thesis using False n32 by (simp add: Let_def)
  qed
qed auto

lemma writev_all_write_all:
  assumes "honest_writes os (length (concat iov))" "length (concat iov) < 2 ^ 31"
  shows "writev_all os iov sent = map_option neg_to_minus_one (write_all os (concat iov) sent)"
proof (cases "concat iov = []")
  case True
  then have "write_all os (concat iov) sent = Some (0, os, sent)" by (simp only: write_all.simps)
  with True show ?thesis by (auto simp: writev_all_def neg_to_minus_one_def)
next
  case False
  then have "iov \<noteq> []" "sum_list (map length iov) \<noteq> 0" by auto
  then have "writev_all os iov sent = writev_loop os iov sent" by (simp only: writev_all_def if_False)
  then show ?thesis using writev_loop_write_all [of iov os sent] assms False by simp
qed

section \<open>The bounded error buffer\<close>

definition wbuf_wf :: "WBuf \<Rightarrow> bool" where
  "wbuf_wf b \<longleftrightarrow> length (wb_buf b) = wb_length b \<and> wb_index b \<le> wb_length b"

definition wbuf_text :: "WBuf \<Rightarrow> string" where
  "wbuf_text b = take (wb_index b) (wb_buf b)"

lemma write_to_wbuf_step:
  assumes "wbuf_wf b"
  shows "wbuf_wf (write_to_wbuf b inp) \<and> wb_length (write_to_wbuf b inp) = wb_length b \<and>
    wbuf_text (write_to_wbuf b inp) = take (wb_length b) (wbuf_text b @ inp)"
  using assms by (auto simp: wbuf_wf_def wbuf_text_def write_to_wbuf_def Let_def poke_def min_def)

lemma foldl_write_to_wbuf:
  "wbuf_wf b \<Longrightarrow> wbuf_wf (foldl write_to_wbuf b ws) \<and> wb_length (foldl write_to_wbuf b ws) = wb_length b \<and>
     wbuf_text (foldl write_to_wbuf b ws) = take (wb_length b) (wbuf_text b @ concat ws)"
proof (induction ws arbitrary: b)
  case Nil
  then show ?case by (auto simp: wbuf_wf_def wbuf_text_def)
next
  case (Cons w ws)
  note step = write_to_wbuf_step [OF Cons.prems, of w]
  from Cons.IH [of "write_to_wbuf b w"] step show ?case
    by (simp add: take_take_append del: take_append)
qed

section \<open>Time differences\<close>

lemma sint_diff_u64:
  "-(2 ^ 63) \<le> sint a - sint b \<Longrightarrow> sint a - sint b < 2 ^ 63 \<Longrightarrow> sint (a - b :: u64) = sint a - sint b"
  using signed_take_bit_int_eq_self [of 63 "sint a - sint b"]
  by (simp add: sint_word_ariths)

lemma sint_scaled_u64:
  assumes "0 \<le> sint (s :: u64)" "sint s < 9000000000" "0 \<le> sint n" "sint n < 1000000000"
  shows "sint (s * 1000000 * 1000 + n) = sint s * 1000000000 + sint n"
proof -
  have "s * 1000000 * 1000 + n = word_of_int (sint s * 1000000000 + sint n)"
    by simp
  also have "sint (word_of_int (sint s * 1000000000 + sint n) :: u64) = sint s * 1000000000 + sint n"
    using assms by (simp only: sint_sbintrunc') (simp add: signed_take_bit_int_eq_self)
  finally show ?thesis .
qed

lemma ns_time_diff_exact:
  assumes "0 \<le> sint (tv_nsec t1)" "sint (tv_nsec t1) < 1000000000"
    and "0 \<le> sint (tv_nsec t2)" "sint (tv_nsec t2) < 1000000000"
    and "\<bar>sint (tv_sec t1) - sint (tv_sec t2)\<bar> < 9000000000"
  shows "sint (ns_time_diff t1 t2) =
    (sint (tv_sec t1) - sint (tv_sec t2)) * 1000000000 + (sint (tv_nsec t1) - sint (tv_nsec t2))"
proof -
  let ?s1 = "tv_sec t1" and ?s2 = "tv_sec t2" and ?n1 = "tv_nsec t1" and ?n2 = "tv_nsec t2"
  have d: "sint (?s1 - ?s2) = sint ?s1 - sint ?s2" "sint (?s2 - ?s1) = sint ?s2 - sint ?s1"
    using assms(5) by (intro sint_diff_u64; simp)+
  show ?thesis
  proof (cases "?s1 <s ?s2")
    case True
    then have lt: "sint ?s1 < sint ?s2" by (simp add: word_sless_alt)
    have "sint (?n1 - ((?s2 - ?s1) * 1000000 * 1000 + ?n2)) =
        sint ?n1 - ((sint ?s2 - sint ?s1) * 1000000000 + sint ?n2)"
      using sint_scaled_u64 [of "?s2 - ?s1" ?n2] assms lt d
      by (subst sint_diff_u64) auto
    with True show ?thesis by (simp add: ns_time_diff_def Let_def algebra_simps)
  next
    case False
    then have ge: "sint ?s2 \<le> sint ?s1" by (simp add: word_sless_alt)
    have "sint (((?s1 - ?s2) * 1000000 * 1000 + ?n1) - ?n2) =
        ((sint ?s1 - sint ?s2) * 1000000000 + sint ?n1) - sint ?n2"
      using sint_scaled_u64 [of "?s1 - ?s2" ?n1] assms ge d
      by (subst sint_diff_u64) auto
    with False show ?thesis by (simp add: ns_time_diff_def Let_def algebra_simps)
  qed
qed

section \<open>Standard input\<close>

lemma stdin_grow_room: "sz + CHUNK \<le> stdin_grow sz cap"
  by (simp add: stdin_grow_def)

lemma stdin_loop_text:
  "stdin_loop rs acc cap ov = Some (Some out, ov') \<Longrightarrow>
     \<exists>k. k \<le> length rs \<and> out = acc @ concat (map sr_data (take k rs))"
proof (induction rs acc cap ov rule: stdin_loop.induct)
  case (2 realloc_ok data eof err rs acc cap ov)
  show ?case
  proof (cases "length data < CHUNK \<and> eof")
    case True
    with "2.prems" have "out = acc @ data" by (auto simp: Let_def split: if_splits)
    then show ?thesis by (auto intro: exI [of _ "Suc 0"])
  next
    case False
    with "2.prems" 2 obtain k where "k \<le> length rs" "out = (acc @ data) @ concat (map sr_data (take k rs))"
      by (auto simp: Let_def split: if_splits)
    then show ?thesis by (intro exI [of _ "Suc k"]) simp
  qed
qed simp

lemma stdin_loop_no_overrun:
  "stdin_loop rs acc cap ov = Some (res, ov') \<Longrightarrow> ov' = ov"
proof (induction rs acc cap ov rule: stdin_loop.induct)
  case (2 realloc_ok data eof err rs acc cap ov)
  then show ?case
    using stdin_grow_room [of "length acc" cap] by (auto simp: Let_def split: if_splits)
qed simp

section \<open>Properties\<close>

text \<open>
  C33: A response is written whole. If the descriptor's \<open>writev\<close> keeps its contract, then
  \<open>writev_all\<close> returns only 0 or \<open>-1\<close>, what it sent is a prefix of the concatenated
  vectors, and it returns 0 exactly when all of them were sent, in order, whatever partial
  writes and interruptions occurred.
\<close>

theorem writev_all_whole:
  assumes "honest_writes os (length (concat iov))" and "length (concat iov) < 2 ^ 31"
    and "writev_all os iov sent = Some (r, os', sent')"
  shows "r \<in> {0, -1} \<and> (\<exists>k \<le> length (concat iov). sent' = sent @ take k (concat iov)) \<and>
    (r = 0 \<longleftrightarrow> sent' = sent @ concat iov)"
proof -
  obtain r0 where "write_all os (concat iov) sent = Some (r0, os', sent')" "r = (if r0 = 0 then 0 else -1)"
    using assms writev_all_write_all [OF assms(1,2), of sent] by (auto simp: neg_to_minus_one_def)
  with write_all_prefix [OF assms(1,2), of sent r0 os' sent'] show ?thesis by auto
qed

theorem writev_all_whole_witness:
  "writev_all [(3, False), (-1, True), (1, False), (1, False)] [''ab'', [], ''cd'', ''e''] [] = Some (0, [], ''abcde'') \<and>
     ''abcde'' = [] @ concat [''ab'', [], ''cd'', ''e'']"
proof -
  have run: "writev_all [(3, False), (-1, True), (1, False), (1, False)] [''ab'', [], ''cd'', ''e''] [] = Some (0, [], ''abcde'')"
    by (simp add: writev_all_def)
  have hon: "honest_writes [(3, False), (-1, True), (1, False), (1, False)] (length (concat [''ab'', [], ''cd'', ''e'']))"
    by simp
  from writev_all_whole [OF hon _ run] run show ?thesis by simp
qed

text \<open>
  C40: Writing ends. If every call makes progress or is merely interrupted, and there are as
  many calls with progress as bytes to send, \<open>write_all\<close> and \<open>writev_all\<close> both return 0 having
  sent everything.
\<close>

theorem writes_terminate:
  assumes "honest_writes os (length (concat iov))" and "length (concat iov) < 2 ^ 31"
    and "progress_writes os" and "length (concat iov) \<le> length (filter (\<lambda>(r, eintr). 0 < r) os)"
  shows "\<exists>os'. writev_all os iov sent = Some (0, os', sent @ concat iov) \<and>
    write_all os (concat iov) sent = Some (0, os', sent @ concat iov)"
  using write_all_returns [OF assms, of sent] writev_all_write_all [OF assms(1,2), of sent]
  by (auto simp: neg_to_minus_one_def)

theorem writes_terminate_witness:
  "\<exists>os'. writev_all [(1, False), (-1, True), (1, False)] [''a'', ''b''] ''x'' = Some (0, os', ''xab'') \<and>
     write_all [(1, False), (-1, True), (1, False)] ''ab'' ''x'' = Some (0, os', ''xab'')"
  using writes_terminate [of "[(1, False), (-1, True), (1, False)]" "[''a'', ''b'']" "''x''"]
  by (simp add: progress_writes_def)



end
