(* ===== verification/Text_Codec.thy ===== *)
theory Text_Codec
  imports Prelude
begin

text \<open>
  \<open>textencodedecode.c\<close>, the byte level: the resumable UTF-8 decoder, the encoder, and the
  two passes over an input chunk that \<open>TextDecoder.decode\<close> makes (measure, then write). A
  pointer into the input is the list of the bytes from it to the end; a pointer into the
  output is the list of the bytes written. Code points are \<open>32 word\<close>, bytes \<open>8 word\<close>.
\<close>

section \<open>Definitions\<close>

definition NJS_UNICODE_REPLACEMENT :: u32 where
  "NJS_UNICODE_REPLACEMENT = 0xFFFD"

definition NJS_UNICODE_MAX_CODEPOINT :: u32 where
  "NJS_UNICODE_MAX_CODEPOINT = 0x10FFFF"

definition NJS_UNICODE_ERROR :: u32 where
  "NJS_UNICODE_ERROR = 0x1FFFFF"

definition NJS_UNICODE_CONTINUE :: u32 where
  "NJS_UNICODE_CONTINUE = 0x2FFFFF"

record njs_unicode_decode_t =
  codepoint :: u32
  need :: nat
  lower :: byte
  upper :: byte

definition njs_utf8_decode_init :: "njs_unicode_decode_t \<Rightarrow> njs_unicode_decode_t" where
  "njs_utf8_decode_init ctx = ctx\<lparr>need := 0, lower := 0, codepoint := 0\<rparr>"

definition njs_utf8_bom :: "byte list \<Rightarrow> nat" where
  "njs_utf8_bom start =
     (if length start < 3 then 0
      else if start ! 0 = 0xEF \<and> start ! 1 = 0xBB \<and> start ! 2 = 0xBF then 3 else 0)"

definition add_continuation :: "u32 \<Rightarrow> byte \<Rightarrow> u32" where
  "add_continuation cp ch = push_bit 6 cp OR (ucast ch AND 0x3F)"

text \<open>The caller has checked that a byte is left; the first value is the C return code.\<close>

fun njs_utf8_boundary ::
  "njs_unicode_decode_t \<Rightarrow> byte list \<Rightarrow> nat \<Rightarrow> byte \<Rightarrow> byte \<Rightarrow> int \<times> njs_unicode_decode_t \<times> byte list \<times> nat" where
  "njs_utf8_boundary ctx [] nd lo up = (-1, ctx, [], nd)"
| "njs_utf8_boundary ctx (ch # data) nd lo up =
     (if ch < lo \<or> up < ch then (-1, ctx, ch # data, nd)
      else (0, ctx\<lparr>codepoint := add_continuation (codepoint ctx) ch\<rparr>, data, nd - 1))"

definition njs_utf8_boundary_set ::
  "njs_unicode_decode_t \<Rightarrow> byte \<Rightarrow> byte \<Rightarrow> byte \<Rightarrow> byte \<Rightarrow> byte \<Rightarrow> njs_unicode_decode_t" where
  "njs_utf8_boundary_set ctx ch first second lo up =
     (if ch = first then ctx\<lparr>lower := lo, upper := 0xBF\<rparr>
      else if ch = second then ctx\<lparr>lower := 0x80, upper := up\<rparr>
      else ctx)"

text \<open>The labels \<open>failed\<close>, \<open>next\<close> and \<open>decode\<close> of \<open>njs_utf8_decode\<close>.\<close>

definition decode_failed :: "njs_unicode_decode_t \<Rightarrow> byte list \<Rightarrow> u32 \<times> njs_unicode_decode_t \<times> byte list" where
  "decode_failed ctx start = (NJS_UNICODE_ERROR, ctx\<lparr>lower := 0, need := 0\<rparr>, start)"

definition decode_next :: "njs_unicode_decode_t \<Rightarrow> byte list \<Rightarrow> nat \<Rightarrow> u32 \<times> njs_unicode_decode_t \<times> byte list" where
  "decode_next ctx start nd = (NJS_UNICODE_CONTINUE, ctx\<lparr>need := nd\<rparr>, start)"

fun decode_loop :: "njs_unicode_decode_t \<Rightarrow> byte list \<Rightarrow> nat \<Rightarrow> u32 \<times> njs_unicode_decode_t \<times> byte list" where
  "decode_loop ctx [] nd = decode_next ctx [] nd"
| "decode_loop ctx (c # p) nd =
     (if c < 0x80 \<or> 0xBF < c then decode_failed ctx (c # p)
      else let ctx' = ctx\<lparr>codepoint := add_continuation (codepoint ctx) c\<rparr>
           in if nd - 1 = 0 then (codepoint ctx', ctx', p) else decode_loop ctx' p (nd - 1))"

text \<open>The part common to the three- and four-byte leads: boundary check of the next byte, then the loop.\<close>

definition decode_lead ::
  "njs_unicode_decode_t \<Rightarrow> byte \<Rightarrow> byte list \<Rightarrow> nat \<Rightarrow> byte \<Rightarrow> byte \<Rightarrow> byte \<Rightarrow> byte
     \<Rightarrow> u32 \<times> njs_unicode_decode_t \<times> byte list" where
  "decode_lead ctx c start nd first second lo up =
     (if start = [] then decode_next (njs_utf8_boundary_set ctx c first second lo up) start nd
      else case (if c = first then njs_utf8_boundary ctx start nd lo 0xBF
                 else if c = second then njs_utf8_boundary ctx start nd 0x80 up
                 else (0, ctx, start, nd)) of
             (ret, ctx', start', nd') \<Rightarrow>
               if ret \<noteq> 0 then decode_failed ctx' start' else decode_loop ctx' start' nd')"

fun njs_utf8_decode :: "njs_unicode_decode_t \<Rightarrow> byte list \<Rightarrow> u32 \<times> njs_unicode_decode_t \<times> byte list" where
  "njs_utf8_decode ctx start =
     (if need ctx \<noteq> 0 then
        let nd = need ctx; ctx0 = ctx\<lparr>need := 0\<rparr> in
        if lower ctx \<noteq> 0 then
          (case njs_utf8_boundary ctx0 start nd (lower ctx) (upper ctx) of
             (ret, ctx', start', nd') \<Rightarrow>
               if ret \<noteq> 0 then decode_failed ctx' start'
               else decode_loop (ctx'\<lparr>lower := 0\<rparr>) start' nd')
        else decode_loop ctx0 start nd
      else case start of
        [] \<Rightarrow> (NJS_UNICODE_ERROR, ctx, [])
      | c # rest \<Rightarrow>
          if c < 0x80 then (ucast c, ctx, rest)
          else if c \<le> 0xDF then
            if c < 0xC2 then (NJS_UNICODE_ERROR, ctx, rest)
            else decode_loop (ctx\<lparr>codepoint := ucast c AND 0x1F\<rparr>) rest 1
          else if c < 0xF0 then
            decode_lead (ctx\<lparr>codepoint := ucast c AND 0x0F\<rparr>) c rest 2 0xE0 0xED 0xA0 0x9F
          else if c < 0xF5 then
            decode_lead (ctx\<lparr>codepoint := ucast c AND 0x07\<rparr>) c rest 3 0xF0 0xF4 0x90 0x8F
          else (NJS_UNICODE_ERROR, ctx, rest))"

definition njs_utf8_size :: "u32 \<Rightarrow> nat" where
  "njs_utf8_size cp = (if cp < 0x80 then 1 else if cp < 0x0800 then 2 else if cp < 0x10000 then 3 else 4)"

definition njs_utf8_encode :: "u32 \<Rightarrow> byte list option" where
  "njs_utf8_encode u =
     (if u < 0x80 then Some [ucast (u AND 0xFF)]
      else if u < 0x0800 then
        Some [ucast (drop_bit 6 u OR 0xC0), ucast ((u AND 0x3F) OR 0x80)]
      else if u < 0x10000 then
        Some [ucast (drop_bit 12 u OR 0xE0), ucast ((drop_bit 6 u AND 0x3F) OR 0x80),
              ucast ((u AND 0x3F) OR 0x80)]
      else if u < 0x110000 then
        Some [ucast (drop_bit 18 u OR 0xF0), ucast ((drop_bit 12 u AND 0x3F) OR 0x80),
              ucast ((drop_bit 6 u AND 0x3F) OR 0x80), ucast ((u AND 0x3F) OR 0x80)]
      else None)"

section \<open>Progress of the decoder\<close>

lemma boundary_length:
  "njs_utf8_boundary ctx xs nd lo up = (ret, ctx', xs', nd') \<Longrightarrow>
     length xs' \<le> length xs \<and> (ret = 0 \<longrightarrow> length xs' < length xs) \<and> need ctx' = need ctx"
  by (cases "(ctx, xs, nd, lo, up)" rule: njs_utf8_boundary.cases) (auto split: if_splits)

lemma decode_loop_progress:
  "decode_loop ctx xs nd = (cp, ctx', xs') \<Longrightarrow> need ctx = 0 \<Longrightarrow>
     length xs' \<le> length xs \<and> (cp \<noteq> NJS_UNICODE_CONTINUE \<longrightarrow> need ctx' = 0)"
proof (induction ctx xs nd rule: decode_loop.induct)
  case (2 ctx c p nd)
  then show ?case by (fastforce simp: Let_def decode_failed_def split: if_splits)
qed (auto simp: decode_next_def)

lemma decode_lead_progress:
  "decode_lead ctx c xs nd f s lo up = (cp, ctx', xs') \<Longrightarrow> need ctx = 0 \<Longrightarrow>
     length xs' \<le> length xs \<and> (cp \<noteq> NJS_UNICODE_CONTINUE \<longrightarrow> need ctx' = 0)"
  by (fastforce simp: decode_lead_def decode_next_def decode_failed_def
      split: if_splits prod.splits dest: boundary_length decode_loop_progress)

lemma njs_utf8_decode_progress:
  assumes "njs_utf8_decode ctx xs = (cp, ctx', xs')"
  shows "length xs' \<le> length xs"
    and "cp \<noteq> NJS_UNICODE_CONTINUE \<Longrightarrow> need ctx' = 0"
    and "need ctx = 0 \<Longrightarrow> xs \<noteq> [] \<Longrightarrow> length xs' < length xs"
proof -
  have "length xs' \<le> length xs \<and> (cp \<noteq> NJS_UNICODE_CONTINUE \<longrightarrow> need ctx' = 0) \<and>
      (need ctx = 0 \<longrightarrow> xs \<noteq> [] \<longrightarrow> length xs' < length xs)"
  proof (cases "need ctx = 0")
    case True
    then show ?thesis
      using assms
      by (cases xs) (auto simp: less_Suc_eq_le split: if_splits dest: decode_loop_progress decode_lead_progress)
  next
    case False
    then show ?thesis
      using assms
      by (fastforce simp: Let_def decode_failed_def split: if_splits prod.splits
          dest: boundary_length decode_loop_progress)
  qed
  then show "length xs' \<le> length xs" "cp \<noteq> NJS_UNICODE_CONTINUE \<Longrightarrow> need ctx' = 0"
    "need ctx = 0 \<Longrightarrow> xs \<noteq> [] \<Longrightarrow> length xs' < length xs" by auto
qed

definition decode_measure :: "njs_unicode_decode_t \<Rightarrow> byte list \<Rightarrow> nat" where
  "decode_measure ctx xs = 2 * length xs + (if need ctx = 0 then 0 else 1)"

lemma njs_utf8_decode_measure [termination_simp]:
  assumes "(cp, ctx', xs') = njs_utf8_decode ctx xs" "xs \<noteq> []" "cp \<noteq> NJS_UNICODE_CONTINUE"
  shows "decode_measure ctx' xs' < decode_measure ctx xs"
  using njs_utf8_decode_progress [of ctx xs cp ctx' xs'] assms
  by (cases "need ctx = 0") (auto simp: decode_measure_def)

text \<open>Whatever a call returns, it has used up the input or is not inside a sequence any more.\<close>

lemma decode_loop_settles:
  "decode_loop ctx xs nd = (cp, ctx', xs') \<Longrightarrow> need ctx = 0 \<Longrightarrow> xs' = [] \<or> need ctx' = 0"
proof (induction ctx xs nd rule: decode_loop.induct)
  case (2 ctx c p nd)
  then show ?case by (fastforce simp: Let_def decode_failed_def split: if_splits)
qed (auto simp: decode_next_def)

lemma decode_lead_settles:
  "decode_lead ctx c xs nd f s lo up = (cp, ctx', xs') \<Longrightarrow> need ctx = 0 \<Longrightarrow> xs' = [] \<or> need ctx' = 0"
  by (fastforce simp: decode_lead_def decode_next_def decode_failed_def
      split: if_splits prod.splits dest: boundary_length decode_loop_settles)

lemma njs_utf8_decode_settles:
  assumes "njs_utf8_decode ctx xs = (cp, ctx', xs')" "xs \<noteq> []"
  shows "xs' = [] \<or> need ctx' = 0"
proof (cases "need ctx = 0")
  case True
  then show ?thesis
    using assms by (cases xs) (auto split: if_splits dest: decode_loop_settles decode_lead_settles)
next
  case False
  obtain ret c1 s1 n1 where B: "njs_utf8_boundary (ctx\<lparr>need := 0\<rparr>) xs (need ctx) (lower ctx) (upper ctx) = (ret, c1, s1, n1)"
    by (rule prod_cases4)
  with boundary_length [OF B] False assms decode_loop_settles [of "ctx\<lparr>need := 0\<rparr>" xs "need ctx" cp ctx' xs']
    decode_loop_settles [of "c1\<lparr>lower := 0\<rparr>" s1 n1 cp ctx' xs']
  show ?thesis
    by (auto simp: Let_def decode_failed_def split: if_splits)
qed

lemma njs_utf8_decode_measure_any:
  assumes "(cp, ctx', xs') = njs_utf8_decode ctx xs" "xs \<noteq> []"
  shows "decode_measure ctx' xs' < decode_measure ctx xs"
proof -
  note eq = assms(1) [symmetric]
  have "length xs \<noteq> 0" using assms(2) by simp
  with njs_utf8_decode_progress(1) [OF eq] njs_utf8_decode_progress(3) [OF eq _ assms(2)]
    njs_utf8_decode_settles [OF eq assms(2)]
  show ?thesis
    by (cases "need ctx = 0") (auto simp del: njs_utf8_decode.simps simp: decode_measure_def)
qed

lemma unicode_constants:
  "NJS_UNICODE_MAX_CODEPOINT < NJS_UNICODE_CONTINUE" "NJS_UNICODE_MAX_CODEPOINT < NJS_UNICODE_ERROR"
  "NJS_UNICODE_CONTINUE \<noteq> NJS_UNICODE_ERROR"
  by (simp_all add: NJS_UNICODE_MAX_CODEPOINT_def NJS_UNICODE_CONTINUE_def NJS_UNICODE_ERROR_def)

section \<open>The two passes over a chunk\<close>

declare njs_utf8_decode.simps [simp del]

function stream_length_loop ::
  "njs_unicode_decode_t \<Rightarrow> byte list \<Rightarrow> bool \<Rightarrow> nat \<Rightarrow> nat \<Rightarrow> (nat \<times> nat \<times> njs_unicode_decode_t) option" where
  "stream_length_loop ctx p fatal sz len =
     (if p = [] then Some (sz, len, ctx)
      else case njs_utf8_decode ctx p of (cp, ctx', p') \<Rightarrow>
        if NJS_UNICODE_MAX_CODEPOINT < cp then
          if cp = NJS_UNICODE_CONTINUE then Some (sz, len, ctx')
          else if fatal then None
          else stream_length_loop ctx' p' fatal (sz + njs_utf8_size NJS_UNICODE_REPLACEMENT) (len + 1)
        else stream_length_loop ctx' p' fatal (sz + njs_utf8_size cp) (len + 1))"
  by pat_completeness auto
termination
  by (relation "measure (\<lambda>(ctx, p, fatal, sz, len). decode_measure ctx p)")
     (use unicode_constants in \<open>auto intro!: njs_utf8_decode_measure\<close>)

definition njs_utf8_stream_length ::
  "njs_unicode_decode_t \<Rightarrow> byte list \<Rightarrow> bool \<Rightarrow> bool \<Rightarrow> (nat \<times> nat \<times> njs_unicode_decode_t) option" where
  "njs_utf8_stream_length ctx p is_last fatal =
     (case stream_length_loop ctx p fatal 0 0 of
        None \<Rightarrow> None
      | Some (sz, len, ctx') \<Rightarrow>
          if is_last \<and> need ctx' \<noteq> 0 then
            (if fatal then None else Some (sz + njs_utf8_size NJS_UNICODE_REPLACEMENT, len + 1, ctx'))
          else Some (sz, len, ctx'))"

text \<open>\<open>None\<close> is the null pointer: a fatal error, or an encoder call that refused its code point.\<close>

function stream_encode_loop ::
  "njs_unicode_decode_t \<Rightarrow> byte list \<Rightarrow> byte list \<Rightarrow> bool \<Rightarrow> (byte list \<times> njs_unicode_decode_t) option" where
  "stream_encode_loop ctx start dst fatal =
     (if start = [] then Some (dst, ctx)
      else case njs_utf8_decode ctx start of (cp, ctx', start') \<Rightarrow>
        if NJS_UNICODE_MAX_CODEPOINT < cp \<and> cp = NJS_UNICODE_CONTINUE then Some (dst, ctx')
        else if NJS_UNICODE_MAX_CODEPOINT < cp \<and> fatal then None
        else (case njs_utf8_encode (if NJS_UNICODE_MAX_CODEPOINT < cp then NJS_UNICODE_REPLACEMENT else cp) of
                None \<Rightarrow> None
              | Some bs \<Rightarrow> stream_encode_loop ctx' start' (dst @ bs) fatal))"
  by pat_completeness auto
termination
  by (relation "measure (\<lambda>(ctx, p, dst, fatal). decode_measure ctx p)")
     (use unicode_constants in \<open>auto intro!: njs_utf8_decode_measure\<close>)

definition njs_utf8_stream_encode ::
  "njs_unicode_decode_t \<Rightarrow> byte list \<Rightarrow> bool \<Rightarrow> bool \<Rightarrow> (byte list \<times> njs_unicode_decode_t) option" where
  "njs_utf8_stream_encode ctx start is_last fatal =
     (case stream_encode_loop ctx start [] fatal of
        None \<Rightarrow> None
      | Some (dst, ctx') \<Rightarrow>
          if is_last \<and> need ctx' \<noteq> 0 then
            (if fatal then None
             else map_option (\<lambda>bs. (dst @ bs, ctx')) (njs_utf8_encode NJS_UNICODE_REPLACEMENT))
          else Some (dst, ctx'))"

declare stream_length_loop.simps [simp del] stream_encode_loop.simps [simp del]

section \<open>The reference decoder\<close>

text \<open>
  The UTF-8 decoder of the Encoding Standard, one byte at a time: between two code points, or
  waiting for \<open>n\<close> more bytes of which the next must lie between two bounds. A byte that does
  not continue a sequence makes the sequence an error (\<open>None\<close>) and is read again as a first
  byte.
\<close>

datatype utf8_state = Start | Mid nat byte byte u32

definition utf8_lead :: "byte \<Rightarrow> utf8_state \<times> u32 option list" where
  "utf8_lead c =
     (if c < 0x80 then (Start, [Some (ucast c)])
      else if 0xC2 \<le> c \<and> c \<le> 0xDF then (Mid 1 0x80 0xBF (ucast (c - 0xC0)), [])
      else if 0xE0 \<le> c \<and> c \<le> 0xEF then
        (Mid 2 (if c = 0xE0 then 0xA0 else 0x80) (if c = 0xED then 0x9F else 0xBF) (ucast (c - 0xE0)), [])
      else if 0xF0 \<le> c \<and> c \<le> 0xF4 then
        (Mid 3 (if c = 0xF0 then 0x90 else 0x80) (if c = 0xF4 then 0x8F else 0xBF) (ucast (c - 0xF0)), [])
      else (Start, [None]))"

fun utf8_step :: "utf8_state \<Rightarrow> byte \<Rightarrow> utf8_state \<times> u32 option list" where
  "utf8_step Start b = utf8_lead b"
| "utf8_step (Mid n lo hi cp) b =
     (if lo \<le> b \<and> b \<le> hi then
        (let cp' = cp * 64 + ucast (b - 0x80)
         in if n = 1 then (Start, [Some cp']) else (Mid (n - 1) 0x80 0xBF cp', []))
      else map_prod id ((#) None) (utf8_lead b))"

fun utf8_run :: "utf8_state \<Rightarrow> byte list \<Rightarrow> utf8_state \<times> u32 option list" where
  "utf8_run st [] = (st, [])"
| "utf8_run st (b # bs) =
     (let (st1, o1) = utf8_step st b; (st2, o2) = utf8_run st1 bs in (st2, o1 @ o2))"

lemma utf8_run_append:
  "utf8_run st (xs @ ys) = (let (st1, o1) = utf8_run st xs; (st2, o2) = utf8_run st1 ys in (st2, o1 @ o2))"
  by (induction xs arbitrary: st) (auto simp: Let_def split: prod.splits)

definition scalar :: "u32 \<Rightarrow> bool" where
  "scalar u \<longleftrightarrow> u \<le> 0x10FFFF \<and> \<not> (0xD800 \<le> u \<and> u \<le> 0xDFFF)"

text \<open>The states the decoder reaches: every completion of the sequence is a scalar value.\<close>

fun okst :: "utf8_state \<Rightarrow> bool" where
  "okst Start = True"
| "okst (Mid n lo hi cp) \<longleftrightarrow>
     n \<in> {1, 2, 3} \<and> 0x80 \<le> lo \<and> lo \<le> hi \<and> hi \<le> 0xBF \<and>
     (unat cp * 64 + (unat hi - 128) + 1) * 64 ^ (n - 1) \<le> 0x110000 \<and>
     ((unat cp * 64 + (unat hi - 128) + 1) * 64 ^ (n - 1) \<le> 0xD800 \<or>
      0xDFFF < (unat cp * 64 + (unat lo - 128)) * 64 ^ (n - 1))"

subsection \<open>Bit patterns and arithmetic\<close>

lemma byte_le_unat [wrap_simps]: "(a :: byte) \<le> b \<longleftrightarrow> unat a \<le> unat b"
  and byte_less_unat [wrap_simps]: "(a :: byte) < b \<longleftrightarrow> unat a < unat b"
  by (simp_all add: word_le_nat_alt word_less_nat_alt)

lemma unat_byte_minus: "b \<le> (a :: byte) \<Longrightarrow> unat (a - b) = unat a - unat b"
  by (simp add: unat_sub)

lemma unat_ucast_u32 [simp]: "unat (ucast (b :: byte) :: u32) = unat b"
  using unat_byte_less [of b] by (simp add: unsigned_ucast_eq take_bit_nat_eq_self)

lemma and_mask_unat:
  "unat ((ucast (c :: byte) :: u32) AND 0x3F) = unat c mod 64"
  "unat ((ucast (c :: byte) :: u32) AND 0x1F) = unat c mod 32"
  "unat ((ucast (c :: byte) :: u32) AND 0x0F) = unat c mod 16"
  "unat ((ucast (c :: byte) :: u32) AND 0x07) = unat c mod 8"
proof -
  have m: "(0x3F :: u32) = mask 6" "(0x1F :: u32) = mask 5" "(0x0F :: u32) = mask 4" "(0x07 :: u32) = mask 3"
    by (simp_all add: mask_eq_exp_minus_1)
  show "unat ((ucast c :: u32) AND 0x3F) = unat c mod 64" "unat ((ucast c :: u32) AND 0x1F) = unat c mod 32"
    "unat ((ucast c :: u32) AND 0x0F) = unat c mod 16" "unat ((ucast c :: u32) AND 0x07) = unat c mod 8"
    unfolding m by (simp_all add: take_bit_eq_mask [symmetric] unsigned_take_bit_eq) (simp_all add: take_bit_eq_mod)
qed

lemma add_continuation_arith:
  assumes "0x80 \<le> b" "b \<le> 0xBF"
  shows "add_continuation cp b = cp * 64 + ucast (b - 0x80)"
proof -
  have m: "(0x3F :: u32) = mask 6" by (simp add: mask_eq_exp_minus_1)
  have "add_continuation cp b = push_bit 6 cp OR take_bit 6 (ucast b)"
    unfolding add_continuation_def m by (simp only: take_bit_eq_mask)
  also have "\<dots> = push_bit 6 cp + take_bit 6 (ucast b)"
    by (rule disjunctive_add_eq_or [symmetric]) (rule bit_eqI, auto simp: bit_simps)
  also have "take_bit 6 (ucast b) = (ucast (b - 0x80) :: u32)"
  proof (rule word_unat_eq_iff [THEN iffD2])
    have "unat (take_bit 6 (ucast b :: u32)) = unat b mod 64"
      using and_mask_unat(1) [of b] unfolding m by (simp only: take_bit_eq_mask)
    also have "\<dots> = unat b - 128" using assms mod_in_block [of 2 64 "unat b"] by (simp add: wrap_simps)
    finally show "unat (take_bit 6 (ucast b :: u32)) = unat (ucast (b - 0x80) :: u32)"
      using assms by (simp add: unat_byte_minus)
  qed
  also have "push_bit 6 cp = cp * 64" by (simp add: push_bit_eq_mult)
  finally show ?thesis .
qed

lemma lead_bits:
  "0xC2 \<le> c \<Longrightarrow> c \<le> 0xDF \<Longrightarrow> (ucast (c :: byte) :: u32) AND 0x1F = ucast (c - 0xC0)"
  "0xE0 \<le> c \<Longrightarrow> c \<le> 0xEF \<Longrightarrow> (ucast (c :: byte) :: u32) AND 0x0F = ucast (c - 0xE0)"
  "0xF0 \<le> c \<Longrightarrow> c \<le> 0xF4 \<Longrightarrow> (ucast (c :: byte) :: u32) AND 0x07 = ucast (c - 0xF0)"
  using mod_in_block [of 6 32 "unat c"] mod_in_block [of 14 16 "unat c"] mod_in_block [of 30 8 "unat c"]
  by (simp_all add: word_unat_eq_iff and_mask_unat unat_byte_minus wrap_simps)

subsection \<open>Reachable states stay correct\<close>

lemma scalar_bound: "scalar u \<Longrightarrow> \<not> NJS_UNICODE_MAX_CODEPOINT < u \<and> u \<noteq> NJS_UNICODE_ERROR \<and> u \<noteq> NJS_UNICODE_CONTINUE"
  by (auto simp: scalar_def NJS_UNICODE_MAX_CODEPOINT_def NJS_UNICODE_ERROR_def NJS_UNICODE_CONTINUE_def)

lemma scalar_unat: "scalar u \<longleftrightarrow> unat u \<le> 0x10FFFF \<and> \<not> (0xD800 \<le> unat u \<and> unat u \<le> 0xDFFF)"
  by (simp add: scalar_def word_le_nat_alt)

lemma unat_continue:
  assumes "unat cp < 0x11000" "0x80 \<le> b"
  shows "unat (cp * 64 + ucast (b - 0x80 :: byte)) = unat (cp :: u32) * 64 + (unat b - 128)"
proof -
  have "unat b - 128 < 128" using unat_byte_less [of b] by linarith
  then show ?thesis
    using assms by (simp add: unat_word_ariths unat_byte_minus)
qed

lemma okst_lead: "okst (fst (utf8_lead c)) \<and> (\<forall>u. Some u \<in> set (snd (utf8_lead c)) \<longrightarrow> scalar u)"
  by (auto simp: utf8_lead_def scalar_unat wrap_simps unat_byte_minus word_unat_eq_iff)

lemma okst_cp: "okst (Mid n lo hi cp) \<Longrightarrow> unat cp < 0x11000"
  by auto

lemma okst_advance:
  assumes ok: "okst (Mid n lo hi cp)" and b: "lo \<le> b" "b \<le> hi"
  shows "n = 1 \<Longrightarrow> scalar (cp * 64 + ucast (b - 0x80))"
    and "n \<noteq> 1 \<Longrightarrow> okst (Mid (n - 1) 0x80 0xBF (cp * 64 + ucast (b - 0x80)))"
proof -
  have cp: "unat cp < 0x11000" using ok by (rule okst_cp)
  have b80: "0x80 \<le> b" using ok b by (auto intro: order_trans)
  note k = unat_continue [OF cp b80]
  show "n = 1 \<Longrightarrow> scalar (cp * 64 + ucast (b - 0x80))"
    using ok b unfolding scalar_unat k by (auto simp: wrap_simps)
  show "n \<noteq> 1 \<Longrightarrow> okst (Mid (n - 1) 0x80 0xBF (cp * 64 + ucast (b - 0x80)))"
    using ok b unfolding okst.simps k by (auto simp: wrap_simps)
qed

lemma okst_step:
  assumes "okst st" and "utf8_step st b = (st', out)"
  shows "okst st' \<and> (\<forall>u. Some u \<in> set out \<longrightarrow> scalar u)"
proof (cases st)
  case Start
  with assms okst_lead [of b] show ?thesis by auto
next
  case (Mid n lo hi cp)
  show ?thesis
  proof (cases "lo \<le> b \<and> b \<le> hi")
    case True
    with assms Mid okst_advance [of n lo hi cp b] show ?thesis
      by (cases "n = 1") (auto simp: Let_def simp del: okst.simps(2))
  next
    case False
    with assms Mid okst_lead [of b] show ?thesis by (cases "utf8_lead b") auto
  qed
qed

lemma okst_run:
  "okst st \<Longrightarrow> utf8_run st bs = (st', out) \<Longrightarrow> okst st' \<and> (\<forall>u. Some u \<in> set out \<longrightarrow> scalar u)"
proof (induction bs arbitrary: st out)
  case (Cons b bs)
  then show ?case
    using okst_step [of st b] by (fastforce simp: Let_def split: prod.splits)
qed simp

section \<open>The decoder refines the reference\<close>

text \<open>The reference state a decoder context stands for, and the contexts the decoder leaves behind.\<close>

definition utf8_abs :: "njs_unicode_decode_t \<Rightarrow> utf8_state" where
  "utf8_abs ctx =
     (if need ctx = 0 then Start
      else Mid (need ctx) (if lower ctx = 0 then 0x80 else lower ctx) (if lower ctx = 0 then 0xBF else upper ctx)
             (codepoint ctx))"

definition ctx_wf :: "njs_unicode_decode_t \<Rightarrow> bool" where
  "ctx_wf ctx \<longleftrightarrow> (lower ctx \<noteq> 0 \<longrightarrow> 1 < need ctx) \<and> okst (utf8_abs ctx)"

text \<open>One call of the decoder agrees with the reference run on the rest of the input.\<close>

definition decode_agrees ::
  "utf8_state \<Rightarrow> byte list \<Rightarrow> u32 \<times> njs_unicode_decode_t \<times> byte list \<Rightarrow> bool" where
  "decode_agrees st xs = (\<lambda>(cp, ctx', xs'). ctx_wf ctx' \<and>
     (if cp = NJS_UNICODE_CONTINUE then xs' = [] \<and> utf8_run st xs = (utf8_abs ctx', [])
      else need ctx' = 0 \<and> (cp = NJS_UNICODE_ERROR \<or> scalar cp) \<and>
        utf8_run st xs =
          map_prod id ((#) (if cp = NJS_UNICODE_ERROR then None else Some cp)) (utf8_run Start xs')))"

lemma utf8_run_reject:
  "\<not> (lo \<le> b \<and> b \<le> hi) \<Longrightarrow> utf8_run (Mid n lo hi cp) (b # bs) = map_prod id ((#) None) (utf8_run Start (b # bs))"
  by (auto simp: Let_def split: prod.splits)

lemma decode_failed_agrees:
  "\<not> (lo \<le> b \<and> b \<le> hi) \<Longrightarrow> decode_agrees (Mid n lo hi cp) (b # bs) (decode_failed ctx (b # bs))"
  using unicode_constants(3)
  by (auto simp: decode_agrees_def decode_failed_def ctx_wf_def utf8_abs_def utf8_run_reject simp del: utf8_run.simps)

lemma utf8_run_continue:
  "lo \<le> b \<Longrightarrow> b \<le> hi \<Longrightarrow> n \<noteq> 1 \<Longrightarrow>
     utf8_run (Mid n lo hi cp) (b # bs) = utf8_run (Mid (n - 1) 0x80 0xBF (cp * 64 + ucast (b - 0x80))) bs"
  by (simp add: Let_def)

lemma decode_loop_agrees:
  "need ctx = 0 \<Longrightarrow> lower ctx = 0 \<Longrightarrow> okst (Mid nd 0x80 0xBF (codepoint ctx)) \<Longrightarrow>
     decode_agrees (Mid nd 0x80 0xBF (codepoint ctx)) xs (decode_loop ctx xs nd)"
proof (induction ctx xs nd rule: decode_loop.induct)
  case (1 ctx nd)
  then show ?case by (auto simp: decode_agrees_def decode_next_def ctx_wf_def utf8_abs_def)
next
  case (2 ctx c p nd)
  show ?case
  proof (cases "0x80 \<le> c \<and> c \<le> 0xBF")
    case False
    then show ?thesis by (auto simp: not_le not_less intro!: decode_failed_agrees)
  next
    case True
    then have in_range: "\<not> (c < 0x80 \<or> 0xBF < c)" by (simp add: not_less)
    note adv = okst_advance [OF "2.prems"(3), of c] and arith = add_continuation_arith [of c "codepoint ctx"]
    let ?ctx = "ctx\<lparr>codepoint := codepoint ctx * 64 + ucast (c - 0x80)\<rparr>"
    show ?thesis
    proof (cases "nd = 1")
      case one: True
      then have "scalar (codepoint ctx * 64 + ucast (c - 0x80))" using adv True by simp
      with scalar_bound [OF this] show ?thesis
        using True in_range one "2.prems" arith
        by (auto simp: decode_agrees_def ctx_wf_def utf8_abs_def Let_def split: prod.splits)
    next
      case False
      then have "nd - 1 \<noteq> 0" using "2.prems"(3) by auto
      moreover have "decode_agrees (Mid (nd - 1) 0x80 0xBF (codepoint ?ctx)) p (decode_loop ?ctx p (nd - 1))"
        using "2.IH" [OF in_range refl] "2.prems" adv True False arith calculation
        by (simp del: okst.simps)
      moreover have "decode_loop ctx (c # p) nd = decode_loop ?ctx p (nd - 1)"
        using in_range arith True calculation(1) by (simp add: Let_def)
      moreover have "utf8_run (Mid nd 0x80 0xBF (codepoint ctx)) (c # p) =
          utf8_run (Mid (nd - 1) 0x80 0xBF (codepoint ?ctx)) p"
        using True False by (simp add: utf8_run_continue del: utf8_run.simps)
      ultimately show ?thesis by (simp only: decode_agrees_def)
    qed
  qed
qed

lemma decode_agrees_cong:
  "utf8_run st xs = utf8_run st' ys \<Longrightarrow> decode_agrees st xs = decode_agrees st' ys"
  by (simp only: decode_agrees_def)

lemma boundary_agrees:
  assumes "1 < nd" "need ctx = 0" "lower ctx = 0" and ok: "okst (Mid nd lo hi (codepoint ctx))"
    and "start \<noteq> []"
  shows "decode_agrees (Mid nd lo hi (codepoint ctx)) start
      (case njs_utf8_boundary ctx start nd lo hi of
         (ret, ctx', start', nd') \<Rightarrow> if ret \<noteq> 0 then decode_failed ctx' start' else decode_loop ctx' start' nd')"
proof -
  obtain b p where start: "start = b # p" using assms(5) by (cases start) auto
  show ?thesis
  proof (cases "lo \<le> b \<and> b \<le> hi")
    case False
    then show ?thesis
      unfolding start by (auto simp: not_le not_less intro!: decode_failed_agrees)
  next
    case True
    then have in_range: "\<not> (b < lo \<or> hi < b)" by (simp add: not_less)
    let ?ctx = "ctx\<lparr>codepoint := codepoint ctx * 64 + ucast (b - 0x80)\<rparr>"
    have "0x80 \<le> b" "b \<le> 0xBF" using ok True by (auto intro: order_trans)
    note arith = add_continuation_arith [OF this]
    have "decode_agrees (Mid nd lo hi (codepoint ctx)) (b # p) =
        decode_agrees (Mid (nd - 1) 0x80 0xBF (codepoint ?ctx)) p"
      using True assms(1) by (intro decode_agrees_cong) (simp add: utf8_run_continue del: utf8_run.simps)
    moreover have "decode_agrees (Mid (nd - 1) 0x80 0xBF (codepoint ?ctx)) p (decode_loop ?ctx p (nd - 1))"
      using okst_advance(2) [OF ok, of b] True assms by (intro decode_loop_agrees) (auto simp del: okst.simps)
    ultimately show ?thesis
      unfolding start using in_range by (simp add: arith del: utf8_run.simps)
  qed
qed

lemma decode_lead_agrees:
  assumes "1 < nd" "need ctx = 0" "lower ctx = 0" "first \<noteq> second"
    and ok: "okst (Mid nd (if c = first then lo else 0x80) (if c = second then up else 0xBF) (codepoint ctx))"
  shows "decode_agrees (Mid nd (if c = first then lo else 0x80) (if c = second then up else 0xBF) (codepoint ctx))
      start (decode_lead ctx c start nd first second lo up)"
proof (cases "start = []")
  case True
  have "0x80 \<le> lo \<or> c \<noteq> first" using ok by auto
  then have "lo \<noteq> 0 \<or> c \<noteq> first" by auto
  with True assms show ?thesis
    by (auto simp: decode_lead_def decode_next_def decode_agrees_def ctx_wf_def utf8_abs_def njs_utf8_boundary_set_def
        simp del: okst.simps)
next
  case False
  consider "c = first" "c \<noteq> second" | "c \<noteq> first" "c = second" | "c \<noteq> first" "c \<noteq> second"
    using assms(4) by blast
  then show ?thesis
  proof cases
    case 3
    with assms False show ?thesis
      by (auto simp: decode_lead_def simp del: okst.simps decode_loop.simps intro!: decode_loop_agrees)
  qed (use boundary_agrees [of nd ctx lo "0xBF" start] boundary_agrees [of nd ctx "0x80" up start] assms False in
      \<open>simp_all add: decode_lead_def del: okst.simps\<close>)
qed

lemma utf8_run_lead:
  assumes "utf8_lead c = (st, [])"
  shows "utf8_run Start (c # xs) = utf8_run st xs"
  using assms by (simp split: prod.splits)

lemma utf8_abs_start [simp]: "need ctx = 0 \<Longrightarrow> utf8_abs ctx = Start"
  by (simp add: utf8_abs_def)

lemma decode_start_agrees:
  assumes "need ctx = 0" "lower ctx = 0"
  shows "decode_agrees Start (c # rest) (njs_utf8_decode ctx (c # rest))"
proof -
  note lead = okst_lead [of c]
  note eq = njs_utf8_decode.simps [of ctx "c # rest"]
  have via: "decode_agrees st rest r \<Longrightarrow> utf8_lead c = (st, []) \<Longrightarrow> decode_agrees Start (c # rest) r" for st r
    by (simp add: utf8_run_lead decode_agrees_cong [of Start "c # rest" st rest] del: utf8_run.simps)
  have one: "decode_agrees Start (c # rest) (cp, ctx, rest)"
    if "utf8_lead c = (Start, [if cp = NJS_UNICODE_ERROR then None else Some cp])"
      "cp = NJS_UNICODE_ERROR \<or> scalar cp" for cp
    using that assms scalar_bound [of cp] unicode_constants(3)
    by (auto simp: decode_agrees_def ctx_wf_def split: prod.splits)
  consider "c < 0x80" | "0x80 \<le> c" "c < 0xC2" | "0xC2 \<le> c" "c \<le> 0xDF" | "0xE0 \<le> c" "c \<le> 0xEF"
    | "0xF0 \<le> c" "c \<le> 0xF4" | "0xF4 < c"
    by (simp add: wrap_simps) linarith
  then show ?thesis
  proof cases
    case 1
    with lead have "scalar (ucast c)" by (simp add: utf8_lead_def)
    with 1 one [of "ucast c"] scalar_bound [OF this] assms show ?thesis
      by (simp add: eq utf8_lead_def)
  next
    case 2
    then have "utf8_lead c = (Start, [None])" "\<not> c < 0x80" "c \<le> 0xDF"
      by (simp_all add: utf8_lead_def wrap_simps)
    with 2 one [of NJS_UNICODE_ERROR] assms show ?thesis by (simp add: eq)
  next
    case 3
    then have l: "utf8_lead c = (Mid 1 0x80 0xBF (ucast (c - 0xC0)), [])" and "\<not> c < 0x80" "\<not> c < 0xC2"
      by (simp_all add: utf8_lead_def wrap_simps)
    moreover have "decode_agrees (Mid 1 0x80 0xBF (ucast (c - 0xC0))) rest
        (decode_loop (ctx\<lparr>codepoint := ucast (c - 0xC0)\<rparr>) rest 1)"
      using decode_loop_agrees [of "ctx\<lparr>codepoint := ucast (c - 0xC0)\<rparr>" 1 rest] lead l assms by simp
    ultimately show ?thesis
      using 3 assms lead_bits(1) [of c] by (intro via [OF _ l]) (simp add: eq)
  next
    case 4
    let ?st = "Mid 2 (if c = 0xE0 then 0xA0 else 0x80) (if c = 0xED then 0x9F else 0xBF) (ucast (c - 0xE0))"
    have l: "utf8_lead c = (?st, [])" and b: "\<not> c < 0x80" "\<not> c \<le> 0xDF" "c < 0xF0"
      using 4 by (simp_all add: utf8_lead_def wrap_simps)
    have "decode_agrees ?st rest
        (decode_lead (ctx\<lparr>codepoint := ucast (c - 0xE0)\<rparr>) c rest 2 0xE0 0xED 0xA0 0x9F)"
      using decode_lead_agrees [of 2 "ctx\<lparr>codepoint := ucast (c - 0xE0)\<rparr>" "0xE0" "0xED" c "0xA0" "0x9F" rest] lead l assms
      by (simp del: okst.simps)
    with 4 b assms lead_bits(2) [of c] show ?thesis by (intro via [OF _ l]) (simp add: eq)
  next
    case 5
    let ?st = "Mid 3 (if c = 0xF0 then 0x90 else 0x80) (if c = 0xF4 then 0x8F else 0xBF) (ucast (c - 0xF0))"
    have l: "utf8_lead c = (?st, [])" and b: "\<not> c < 0x80" "\<not> c \<le> 0xDF" "\<not> c < 0xF0" "c < 0xF5"
      using 5 by (simp_all add: utf8_lead_def wrap_simps)
    have "decode_agrees ?st rest
        (decode_lead (ctx\<lparr>codepoint := ucast (c - 0xF0)\<rparr>) c rest 3 0xF0 0xF4 0x90 0x8F)"
      using decode_lead_agrees [of 3 "ctx\<lparr>codepoint := ucast (c - 0xF0)\<rparr>" "0xF0" "0xF4" c "0x90" "0x8F" rest] lead l assms
      by (simp del: okst.simps)
    with 5 b assms lead_bits(3) [of c] show ?thesis by (intro via [OF _ l]) (simp add: eq)
  next
    case 6
    then have "utf8_lead c = (Start, [None])" "\<not> c < 0x80" "\<not> c \<le> 0xDF" "\<not> c < 0xF0" "\<not> c < 0xF5"
      by (simp_all add: utf8_lead_def wrap_simps)
    with one [of NJS_UNICODE_ERROR] assms show ?thesis by (simp add: eq)
  qed
qed

lemma njs_utf8_decode_agrees:
  assumes "ctx_wf ctx" "xs \<noteq> []"
  shows "decode_agrees (utf8_abs ctx) xs (njs_utf8_decode ctx xs)"
proof (cases "need ctx = 0")
  case True
  with assms have "lower ctx = 0" by (auto simp: ctx_wf_def)
  with True assms(2) show ?thesis by (cases xs) (simp_all add: decode_start_agrees)
next
  case False
  let ?ctx = "ctx\<lparr>need := 0, lower := 0\<rparr>"
  have ok: "okst (utf8_abs ctx)" and low: "lower ctx \<noteq> 0 \<Longrightarrow> 1 < need ctx"
    using assms by (simp_all add: ctx_wf_def)
  show ?thesis
  proof (cases "lower ctx = 0")
    case True
    with False ok decode_loop_agrees [of "ctx\<lparr>need := 0\<rparr>" "need ctx" xs] show ?thesis
      by (simp add: njs_utf8_decode.simps utf8_abs_def del: okst.simps)
  next
    case nz: False
    obtain b p where xs: "xs = b # p" using assms(2) by (cases xs) auto
    have "(case njs_utf8_boundary (ctx\<lparr>need := 0\<rparr>) xs (need ctx) (lower ctx) (upper ctx) of
             (ret, ctx', start', nd') \<Rightarrow>
               if ret \<noteq> 0 then decode_failed ctx' start' else decode_loop (ctx'\<lparr>lower := 0\<rparr>) start' nd') =
        (case njs_utf8_boundary ?ctx xs (need ctx) (lower ctx) (upper ctx) of
           (ret, ctx', start', nd') \<Rightarrow> if ret \<noteq> 0 then decode_failed ctx' start' else decode_loop ctx' start' nd')"
      by (cases ctx) (simp add: xs decode_failed_def)
    with boundary_agrees [of "need ctx" ?ctx "lower ctx" "upper ctx" xs] nz False ok low assms(2)
    show ?thesis by (simp add: njs_utf8_decode.simps utf8_abs_def Let_def del: okst.simps)
  qed
qed

section \<open>The encoder\<close>

text \<open>The encoding of a scalar value in arithmetic: quotient and remainders by 64 below the lead.\<close>

definition utf8_bytes :: "u32 \<Rightarrow> byte list" where
  "utf8_bytes u = (let n = unat u in map of_nat
     (if n < 0x80 then [n]
      else if n < 0x0800 then [0xC0 + n div 64, 0x80 + n mod 64]
      else if n < 0x10000 then [0xE0 + n div 4096, 0x80 + n div 64 mod 64, 0x80 + n mod 64]
      else [0xF0 + n div 262144, 0x80 + n div 4096 mod 64, 0x80 + n div 64 mod 64, 0x80 + n mod 64]))"

lemma or_marker:
  fixes x :: u32
  assumes "unat x < 2 ^ j" "take_bit j m = 0" "unat x + unat m < 256"
  shows "(ucast (x OR m) :: byte) = of_nat (unat m + unat x)"
proof -
  have "take_bit j x = x"
    using assms(1) by (simp add: word_unat_eq_iff unsigned_take_bit_eq take_bit_nat_eq_self)
  then have "x AND m = (x AND mask j) AND m"
    by (simp only: take_bit_eq_mask)
  also have "\<dots> = x AND (m AND mask j)"
    by (simp only: and.assoc and.commute [of m])
  also have "\<dots> = 0"
    using assms(2) by (simp only: take_bit_eq_mask and_zero_eq)
  finally have "x OR m = x + m"
    by (rule disjunctive_add_eq_or [symmetric])
  moreover have "(ucast (x + m) :: byte) = of_nat (unat m + unat x)"
    by (rule word_unat_eq_iff [THEN iffD2], simp only: unsigned_ucast_eq unat_of_nat unat_word_ariths)
       (use assms(3) in \<open>simp add: take_bit_eq_mod\<close>)
  ultimately show ?thesis by simp
qed

lemma unat_and_3F: "unat ((x :: u32) AND 0x3F) = unat x mod 64"
proof -
  have m: "(0x3F :: u32) = mask 6" by (simp add: mask_eq_exp_minus_1)
  show ?thesis
    unfolding m by (simp add: take_bit_eq_mask [symmetric] unsigned_take_bit_eq) (simp add: take_bit_eq_mod)
qed

lemma unat_drop_bit_u32: "unat (drop_bit k (x :: u32)) = unat x div 2 ^ k"
  using unsigned_less [of x, where ?'a = nat] by (simp only: unsigned_drop_bit_eq) (simp add: drop_bit_eq_div take_bit_nat_eq_self)

lemma continuation_byte: "(ucast (((x :: u32) AND 0x3F) OR 0x80) :: byte) = of_nat (0x80 + unat x mod 64)"
  using or_marker [of "x AND 0x3F" 6 "0x80"] by (simp add: unat_and_3F)

lemma njs_utf8_encode_bytes:
  assumes "u < 0x110000"
  shows "njs_utf8_encode u = Some (utf8_bytes u)"
proof -
  have n: "unat u < 0x110000" using assms by (simp add: word_less_nat_alt)
  consider "unat u < 0x80" | "0x80 \<le> unat u" "unat u < 0x800" | "0x800 \<le> unat u" "unat u < 0x10000"
    | "0x10000 \<le> unat u" by linarith
  then show ?thesis
  proof cases
    case 1
    have m: "(0xFF :: u32) = mask 8" by (simp add: mask_eq_exp_minus_1)
    have "unat (u AND 0xFF) = unat u"
      unfolding m take_bit_eq_mask [symmetric] using 1 by (simp add: unsigned_take_bit_eq take_bit_nat_eq_self)
    then have "(ucast (u AND 0xFF) :: byte) = of_nat (unat u)"
      using 1 by (simp add: word_unat_eq_iff unsigned_ucast_eq unat_of_nat take_bit_eq_mod)
    with 1 show ?thesis by (simp add: njs_utf8_encode_def utf8_bytes_def Let_def word_less_nat_alt)
  next
    case 2
    then have "(ucast (drop_bit 6 u OR 0xC0) :: byte) = of_nat (0xC0 + unat u div 64)"
      using or_marker [of "drop_bit 6 u" 5 "0xC0"] by (simp add: unat_drop_bit_u32)
    with 2 show ?thesis
      by (simp add: njs_utf8_encode_def utf8_bytes_def Let_def word_less_nat_alt continuation_byte)
  next
    case 3
    then have "(ucast (drop_bit 12 u OR 0xE0) :: byte) = of_nat (0xE0 + unat u div 4096)"
      using or_marker [of "drop_bit 12 u" 4 "0xE0"] by (simp add: unat_drop_bit_u32)
    with 3 show ?thesis
      by (simp add: njs_utf8_encode_def utf8_bytes_def Let_def word_less_nat_alt continuation_byte unat_drop_bit_u32)
  next
    case 4
    then have "(ucast (drop_bit 18 u OR 0xF0) :: byte) = of_nat (0xF0 + unat u div 262144)"
      using or_marker [of "drop_bit 18 u" 3 "0xF0"] n by (simp add: unat_drop_bit_u32)
    with 4 n show ?thesis
      by (simp add: njs_utf8_encode_def utf8_bytes_def Let_def word_less_nat_alt continuation_byte unat_drop_bit_u32)
  qed
qed

lemma utf8_bytes_size: "length (utf8_bytes u) = njs_utf8_size u"
  by (simp add: utf8_bytes_def njs_utf8_size_def word_less_nat_alt Let_def)

lemma marker_byte:
  assumes "numeral m + q < (256 :: nat)"
  shows "unat (numeral m + of_nat q :: byte) = numeral m + q"
proof -
  have "(numeral m + of_nat q :: byte) = of_nat (numeral m + q)" by simp
  then show "unat (numeral m + of_nat q :: byte) = numeral m + q"
    using assms by (simp only: unat_of_nat) simp
qed

lemma widen_byte: "q < 256 \<Longrightarrow> (ucast (of_nat q :: byte) :: u32) = of_nat q"
  by (simp add: word_unat_eq_iff unat_of_nat)

lemma utf8_run_sextet:
  assumes "q \<le> 63" "unat lo \<le> 0x80 + q" "0x80 + q \<le> unat hi"
  shows "utf8_run (Mid k lo hi (of_nat a)) ((0x80 + of_nat q) # bs) =
    (if k = 1 then map_prod id ((#) (Some (of_nat (a * 64 + q)))) (utf8_run Start bs)
     else utf8_run (Mid (k - 1) 0x80 0xBF (of_nat (a * 64 + q))) bs)"
proof -
  have b: "unat (0x80 + of_nat q :: byte) = 0x80 + q" using assms(1) by (simp add: marker_byte)
  have "(of_nat a :: u32) * 64 + ucast (0x80 + of_nat q - 0x80 :: byte) = of_nat (a * 64 + q)"
    using assms(1) by (simp add: widen_byte)
  then show ?thesis
    using b assms by (simp add: wrap_simps Let_def del: of_nat_add of_nat_mult split: prod.splits)
qed

lemma utf8_bytes_decodes:
  assumes "scalar u"
  shows "utf8_run Start (utf8_bytes u) = (Start, [Some u])"
proof -
  define n where "n = unat u"
  have u: "of_nat n = u" by (simp add: n_def)
  have s: "n < 0x110000" "n < 0xD800 \<or> 0xDFFF < n" using assms by (auto simp: scalar_unat n_def)
  have d: "n div 64 * 64 + n mod 64 = n" "n div 4096 * 64 + n div 64 mod 64 = n div 64"
    "n div 262144 * 64 + n div 4096 mod 64 = n div 4096"
    using div_mult_mod_eq [of n 64] div_mult_mod_eq [of "n div 64" 64] div_mult_mod_eq [of "n div 4096" 64]
    by (simp_all add: div_mult2_eq [symmetric])
  have m: "n mod 64 \<le> 63" "n div 64 mod 64 \<le> 63" "n div 4096 mod 64 \<le> 63"
    using mod_less_divisor [of 64] by (auto simp flip: less_Suc_eq_le)
  note e = utf8_lead_def wrap_simps marker_byte widen_byte word_unat_eq_iff
  note run = utf8_run_lead utf8_run_sextet m d u
  consider "n < 0x80" | "0x80 \<le> n" "n < 0x800" | "0x800 \<le> n" "n < 0x10000" | "0x10000 \<le> n" by linarith
  then show ?thesis
  proof cases
    case 1
    then have "unat (ucast u :: byte) = unat u"
      by (simp add: n_def unsigned_ucast_eq take_bit_nat_eq_self)
    with 1 show ?thesis
      by (simp add: utf8_bytes_def n_def e)
  next
    case 2
    then have q: "n div 64 < 32" "2 \<le> n div 64" by linarith+
    with 2 have "utf8_bytes u = [0xC0 + of_nat (n div 64), 0x80 + of_nat (n mod 64)]"
      by (simp add: utf8_bytes_def n_def Let_def)
    moreover have "utf8_lead (0xC0 + of_nat (n div 64)) = (Mid 1 0x80 0xBF (of_nat (n div 64)), [])"
      using q by (simp add: e)
    ultimately show ?thesis by (simp add: run del: utf8_run.simps(2))
  next
    case 3
    then have q: "n div 4096 < 16" "n div 4096 = 0 \<Longrightarrow> 32 \<le> n div 64 mod 64"
      "n div 4096 = 13 \<Longrightarrow> n div 64 mod 64 \<le> 31" using d s by linarith+
    with 3 have "utf8_bytes u = [0xE0 + of_nat (n div 4096), 0x80 + of_nat (n div 64 mod 64), 0x80 + of_nat (n mod 64)]"
      by (simp add: utf8_bytes_def n_def Let_def)
    moreover have "utf8_lead (0xE0 + of_nat (n div 4096)) =
        (Mid 2 (if n div 4096 = 0 then 0xA0 else 0x80) (if n div 4096 = 13 then 0x9F else 0xBF) (of_nat (n div 4096)), [])"
      using q by (simp add: e)
    ultimately show ?thesis using q by (simp add: run del: utf8_run.simps(2))
  next
    case 4
    then have q: "n div 262144 < 5" "n div 262144 = 0 \<Longrightarrow> 16 \<le> n div 4096 mod 64"
      "n div 262144 = 4 \<Longrightarrow> n div 4096 mod 64 \<le> 15" using d s by linarith+
    with 4 have "utf8_bytes u = [0xF0 + of_nat (n div 262144), 0x80 + of_nat (n div 4096 mod 64),
        0x80 + of_nat (n div 64 mod 64), 0x80 + of_nat (n mod 64)]"
      by (simp add: utf8_bytes_def n_def Let_def)
    moreover have "utf8_lead (0xF0 + of_nat (n div 262144)) =
        (Mid 3 (if n div 262144 = 0 then 0x90 else 0x80) (if n div 262144 = 4 then 0x8F else 0xBF)
          (of_nat (n div 262144)), [])"
      using q by (simp add: e)
    ultimately show ?thesis using q by (simp add: run del: utf8_run.simps(2))
  qed
qed

section \<open>The two passes agree\<close>

text \<open>What the reference outputs amount to: an error becomes the replacement character.\<close>

definition out_code :: "u32 option \<Rightarrow> u32" where
  "out_code r = (case r of None \<Rightarrow> NJS_UNICODE_REPLACEMENT | Some u \<Rightarrow> u)"

definition out_text :: "u32 option list \<Rightarrow> byte list" where
  "out_text rs = concat (map (utf8_bytes \<circ> out_code) rs)"

lemma out_text_simps [simp]:
  "out_text [] = []" "out_text (r # rs) = utf8_bytes (out_code r) @ out_text rs"
  "out_text (rs @ rs') = out_text rs @ out_text rs'"
  by (simp_all add: out_text_def)

lemma scalar_replacement: "scalar NJS_UNICODE_REPLACEMENT"
  by (simp add: scalar_def NJS_UNICODE_REPLACEMENT_def)

lemma scalar_encodes: "scalar u \<Longrightarrow> njs_utf8_encode u = Some (utf8_bytes u)"
  by (rule njs_utf8_encode_bytes) (auto simp: scalar_def elim: order_le_less_trans)

text \<open>One round of either loop, in terms of the reference output it consumes.\<close>

lemma decode_outcomes:
  assumes "ctx_wf ctx" "xs \<noteq> []" "utf8_run (utf8_abs ctx) xs = (st, out)"
  obtains (more) ctx' where "njs_utf8_decode ctx xs = (NJS_UNICODE_CONTINUE, ctx', [])" "ctx_wf ctx'"
      "utf8_abs ctx' = st" "out = []"
  | (item) cp ctx' xs' r out' where "njs_utf8_decode ctx xs = (cp, ctx', xs')" "ctx_wf ctx'" "need ctx' = 0"
      "cp \<noteq> NJS_UNICODE_CONTINUE" "NJS_UNICODE_MAX_CODEPOINT < cp \<longleftrightarrow> r = None"
      "r = None \<or> r = Some cp" "scalar (out_code r)" "out = r # out'" "utf8_run (utf8_abs ctx') xs' = (st, out')"
proof (cases "njs_utf8_decode ctx xs")
  case (fields cp ctx' xs')
  note A = njs_utf8_decode_agrees [OF assms(1,2)]
  show thesis
  proof (cases "cp = NJS_UNICODE_CONTINUE")
    case True
    with A fields assms(3) more show ?thesis by (auto simp: decode_agrees_def)
  next
    case False
    let ?r = "if cp = NJS_UNICODE_ERROR then None else Some cp"
    have B: "ctx_wf ctx'" "need ctx' = 0" "cp = NJS_UNICODE_ERROR \<or> scalar cp"
      "(st, out) = map_prod id ((#) ?r) (utf8_run Start xs')"
      using A False fields assms(3) by (auto simp: decode_agrees_def)
    obtain out' where out: "utf8_run Start xs' = (st, out')" "out = ?r # out'"
      using B(4) by (cases "utf8_run Start xs'") auto
    show ?thesis
      using B out fields False unicode_constants(2) scalar_replacement scalar_bound [of cp]
      by (intro item [of cp ctx' xs' ?r out']) (auto simp: out_code_def)
  qed
qed

lemma stream_loops:
  assumes "ctx_wf ctx" "utf8_run (utf8_abs ctx) xs = (st, out)"
  shows "if fatal \<and> None \<in> set out
    then stream_length_loop ctx xs fatal sz len = None \<and> stream_encode_loop ctx xs dst fatal = None
    else \<exists>ctx'. ctx_wf ctx' \<and> utf8_abs ctx' = st \<and>
      stream_length_loop ctx xs fatal sz len = Some (sz + length (out_text out), len + length out, ctx') \<and>
      stream_encode_loop ctx xs dst fatal = Some (dst @ out_text out, ctx')"
  using assms
proof (induction "decode_measure ctx xs" arbitrary: ctx xs out sz len dst rule: less_induct)
  case less
  show ?case
  proof (cases "xs = []")
    case True
    with less.prems show ?thesis
      by (auto simp: stream_length_loop.simps stream_encode_loop.simps)
  next
    case False
    from less.prems(1) False less.prems(2) show ?thesis
    proof (cases rule: decode_outcomes)
      case (more ctx')
      with False unicode_constants(1) show ?thesis
        by (auto simp: stream_length_loop.simps stream_encode_loop.simps)
    next
      case (item cp ctx' xs' r out')
      have "decode_measure ctx' xs' < decode_measure ctx xs"
        using njs_utf8_decode_measure [OF item(1) [symmetric] False item(4)] .
      note IH = less.hyps [OF this item(2) item(9)]
      show ?thesis
      proof (cases "fatal \<and> r = None")
        case True
        with item False show ?thesis
          by (auto simp: stream_length_loop.simps stream_encode_loop.simps)
      next
        case ok: False
        have "stream_length_loop ctx xs fatal sz len =
            stream_length_loop ctx' xs' fatal (sz + length (utf8_bytes (out_code r))) (len + 1)"
          using item False ok
          by (subst stream_length_loop.simps) (auto simp: utf8_bytes_size out_code_def)
        moreover have "stream_encode_loop ctx xs dst fatal =
            stream_encode_loop ctx' xs' (dst @ utf8_bytes (out_code r)) fatal"
          using item False ok scalar_encodes [OF item(7)]
          by (subst stream_encode_loop.simps) (auto simp: out_code_def)
        ultimately show ?thesis
          using IH [of "sz + length (utf8_bytes (out_code r))" "len + 1" "dst @ utf8_bytes (out_code r)"] item(8) ok
          by (auto simp: ac_simps split: if_splits)
      qed
    qed
  qed
qed

text \<open>A whole chunk on the reference side: at the end of the stream an unfinished sequence is one error.\<close>

definition utf8_chunk :: "utf8_state \<Rightarrow> byte list \<Rightarrow> bool \<Rightarrow> utf8_state \<times> u32 option list" where
  "utf8_chunk st xs is_last =
     (let (st', out) = utf8_run st xs in (st', if is_last \<and> st' \<noteq> Start then out @ [None] else out))"

definition fresh_ctx :: njs_unicode_decode_t where
  "fresh_ctx = njs_utf8_decode_init \<lparr>codepoint = 0, need = 0, lower = 0, upper = 0\<rparr>"

lemma fresh_ctx_wf [simp]: "ctx_wf fresh_ctx" "utf8_abs fresh_ctx = Start"
  by (simp_all add: fresh_ctx_def ctx_wf_def utf8_abs_def njs_utf8_decode_init_def)

lemma utf8_abs_pending: "ctx_wf ctx \<Longrightarrow> utf8_abs ctx \<noteq> Start \<longleftrightarrow> need ctx \<noteq> 0"
  by (simp add: utf8_abs_def)

lemma stream_passes:
  assumes "ctx_wf ctx" "utf8_chunk (utf8_abs ctx) xs is_last = (st, out)"
  shows "if fatal \<and> None \<in> set out
    then njs_utf8_stream_length ctx xs is_last fatal = None \<and> njs_utf8_stream_encode ctx xs is_last fatal = None
    else \<exists>ctx'. ctx_wf ctx' \<and> utf8_abs ctx' = st \<and>
      njs_utf8_stream_length ctx xs is_last fatal = Some (length (out_text out), length out, ctx') \<and>
      njs_utf8_stream_encode ctx xs is_last fatal = Some (out_text out, ctx')"
proof -
  obtain out0 where run: "utf8_run (utf8_abs ctx) xs = (st, out0)"
    and out: "out = (if is_last \<and> st \<noteq> Start then out0 @ [None] else out0)"
    using assms(2) by (auto simp: utf8_chunk_def split: prod.splits)
  note L = stream_loops [OF assms(1) run, of fatal 0 0 "[]"]
  note enc = scalar_encodes [OF scalar_replacement] utf8_bytes_size [of NJS_UNICODE_REPLACEMENT]
  show ?thesis
  proof (cases "fatal \<and> None \<in> set out0")
    case True
    with L out show ?thesis
      by (auto simp: njs_utf8_stream_length_def njs_utf8_stream_encode_def)
  next
    case False
    then obtain ctx' where c: "ctx_wf ctx'" "utf8_abs ctx' = st"
      "stream_length_loop ctx xs fatal 0 0 = Some (length (out_text out0), length out0, ctx')"
      "stream_encode_loop ctx xs [] fatal = Some (out_text out0, ctx')"
      using L by auto
    with False out enc utf8_abs_pending [OF c(1)] show ?thesis
      by (auto simp: njs_utf8_stream_length_def njs_utf8_stream_encode_def out_code_def)
  qed
qed

lemma utf8_chunk_append:
  "utf8_chunk st (xs @ ys) is_last =
     (let (st1, o1) = utf8_chunk st xs False; (st2, o2) = utf8_chunk st1 ys is_last in (st2, o1 @ o2))"
  by (auto simp: utf8_chunk_def utf8_run_append Let_def split: prod.splits)

lemma utf8_run_scalars:
  "\<forall>u \<in> set us. scalar u \<Longrightarrow> utf8_run Start (concat (map utf8_bytes us)) = (Start, map Some us)"
  by (induction us) (simp_all add: utf8_run_append utf8_bytes_decodes)

section \<open>Properties of the codec\<close>

text \<open>
  C16: the two passes of \<open>TextDecoder\<close> over a chunk, \<open>njs_utf8_stream_length\<close> and
  \<open>njs_utf8_stream_encode\<close>, compute what the byte-by-byte UTF-8 decoder of the Encoding Standard
  outputs from the same state: in fatal mode both fail exactly when it reports an error, and
  otherwise the bytes written are the encodings of its code points with U+FFFD for each error, the
  measured size is their number, the measured length the number of code points, and both leave the
  context of the state it stops in.
\<close>

theorem utf8_decode_refines:
  assumes "ctx_wf ctx" "utf8_chunk (utf8_abs ctx) xs is_last = (st, out)"
  shows "if fatal \<and> None \<in> set out
    then njs_utf8_stream_length ctx xs is_last fatal = None \<and> njs_utf8_stream_encode ctx xs is_last fatal = None
    else \<exists>ctx'. ctx_wf ctx' \<and> utf8_abs ctx' = st \<and>
      njs_utf8_stream_length ctx xs is_last fatal = Some (length (out_text out), length out, ctx') \<and>
      njs_utf8_stream_encode ctx xs is_last fatal = Some (out_text out, ctx')"
  using assms by (rule stream_passes)

lemma utf8_decode_refines_witness:
  "utf8_chunk Start [0x41, 0xFF, 0xE2, 0x82] True = (Mid 1 0x80 0xBF 0x82, [Some 0x41, None, None]) \<and>
   njs_utf8_stream_encode fresh_ctx [0x41, 0xFF, 0xE2, 0x82] True True = None"
proof -
  have run: "utf8_chunk Start [0x41, 0xFF, 0xE2, 0x82] True = (Mid 1 0x80 0xBF 0x82, [Some 0x41, None, None])"
    by (simp add: utf8_chunk_def utf8_lead_def)
  with utf8_decode_refines [of fresh_ctx "[0x41, 0xFF, 0xE2, 0x82]" True _ _ True] show ?thesis by simp
qed

text \<open>
  Streaming is invisible at this level: two passes, the first not the last of the stream, write
  the text, or fail, as one pass over the concatenated bytes does, wherever the cut falls.
\<close>

lemma utf8_decode_chunks:
  assumes "ctx_wf ctx"
  shows "map_option fst (njs_utf8_stream_encode ctx (xs @ ys) is_last fatal) =
    (case njs_utf8_stream_encode ctx xs False fatal of
       None \<Rightarrow> None
     | Some (d1, ctx1) \<Rightarrow> map_option (\<lambda>(d2, ctx2). d1 @ d2) (njs_utf8_stream_encode ctx1 ys is_last fatal))"
proof -
  obtain st1 o1 where 1: "utf8_chunk (utf8_abs ctx) xs False = (st1, o1)" by fastforce
  obtain st2 o2 where 2: "utf8_chunk st1 ys is_last = (st2, o2)" by fastforce
  have 12: "utf8_chunk (utf8_abs ctx) (xs @ ys) is_last = (st2, o1 @ o2)"
    by (simp add: utf8_chunk_append 1 2)
  note whole = stream_passes [OF assms 12, of fatal] and first = stream_passes [OF assms 1, of fatal]
  show ?thesis
  proof (cases "fatal \<and> None \<in> set o1")
    case True
    with whole first show ?thesis by auto
  next
    case False
    with first obtain ctx1 where c: "ctx_wf ctx1" "utf8_abs ctx1 = st1"
      "njs_utf8_stream_encode ctx xs False fatal = Some (out_text o1, ctx1)" by auto
    with 2 have "utf8_chunk (utf8_abs ctx1) ys is_last = (st2, o2)" by simp
    note rest = stream_passes [OF c(1) this, of fatal]
    show ?thesis
      using whole rest c False by (auto split: if_splits)
  qed
qed


text \<open>
  C19: the encoder and the decoder are inverse on scalar values: the encodings of any sequence of
  scalar values are accepted by the decoder, also in fatal mode, reproduce the same bytes, and are
  counted as that many code points; each encoding has the size \<open>njs_utf8_size\<close> announces.
\<close>

theorem utf8_roundtrip:
  assumes "\<forall>u \<in> set us. scalar u"
  shows "\<exists>bs ctx'. map njs_utf8_encode us = map Some bs \<and> map length bs = map njs_utf8_size us \<and>
    njs_utf8_stream_encode fresh_ctx (concat bs) True fatal = Some (concat bs, ctx') \<and>
    njs_utf8_stream_length fresh_ctx (concat bs) True fatal = Some (length (concat bs), length us, ctx') \<and>
    need ctx' = 0"
proof -
  let ?bs = "map utf8_bytes us"
  have "utf8_chunk (utf8_abs fresh_ctx) (concat ?bs) True = (Start, map Some us)"
    using utf8_run_scalars [OF assms] by (simp add: utf8_chunk_def)
  moreover have "out_text (map Some us) = concat ?bs"
    by (simp add: out_text_def out_code_def comp_def)
  ultimately obtain ctx' where "ctx_wf ctx'" "utf8_abs ctx' = Start"
    "njs_utf8_stream_length fresh_ctx (concat ?bs) True fatal = Some (length (concat ?bs), length us, ctx')"
    "njs_utf8_stream_encode fresh_ctx (concat ?bs) True fatal = Some (concat ?bs, ctx')"
    using stream_passes [of fresh_ctx "concat ?bs" True Start "map Some us" fatal] by auto
  moreover from calculation have "need ctx' = 0" using utf8_abs_pending by blast
  moreover have "map njs_utf8_encode us = map Some ?bs" "map length ?bs = map njs_utf8_size us"
    using assms by (simp_all add: scalar_encodes utf8_bytes_size)
  ultimately show ?thesis by blast
qed

lemma utf8_roundtrip_witness:
  "\<exists>bs ctx'. map njs_utf8_encode [0x24, 0x20AC, 0x1F600] = map Some bs \<and>
    map length bs = map njs_utf8_size [0x24, 0x20AC, 0x1F600] \<and>
    njs_utf8_stream_encode fresh_ctx (concat bs) True True = Some (concat bs, ctx') \<and>
    njs_utf8_stream_length fresh_ctx (concat bs) True True =
      Some (length (concat bs), length [0x24, 0x20AC, 0x1F600 :: u32], ctx') \<and>
    need ctx' = 0"
  by (rule utf8_roundtrip) (simp add: scalar_def)

end
