(* ===== verification/Text_Objects.thy ===== *)
theory Text_Objects
  imports Text_Codec
begin

text \<open>
  \<open>textencodedecode.c\<close>, the object level: the constructors, getters and methods of
  \<open>TextDecoder\<close> and \<open>TextEncoder\<close>. QuickJS is a parameter: what a call of its API answers
  (the opaque pointer of \<open>this\<close>, the bytes of a buffer, a property, an allocation) is an
  argument of the definition that makes the call, \<open>None\<close> or \<open>False\<close> standing for an exception
  or a null pointer.
\<close>

section \<open>Definitions\<close>

datatype js_throw =
    ThrowInternalError string
  | ThrowTypeError string
  | ThrowOutOfMemory
  | Exception

datatype qjs_encoding_t = QJS_ENCODING_UTF8

record qjs_text_decoder_t =
  encoding :: qjs_encoding_t
  fatal :: bool
  ignore_bom :: bool
  dctx :: njs_unicode_decode_t

definition qjs_encoding_labels :: "(string \<times> qjs_encoding_t) list" where
  "qjs_encoding_labels = [(''utf-8'', QJS_ENCODING_UTF8), (''utf8'', QJS_ENCODING_UTF8)]"

definition qjs_text_decoder_ignore_bom :: "qjs_text_decoder_t option \<Rightarrow> js_throw + bool" where
  "qjs_text_decoder_ignore_bom this =
     (case this of None \<Rightarrow> Inl (ThrowInternalError '''this' is not a TextDecoder'')
      | Some td \<Rightarrow> Inr (ignore_bom td))"

definition qjs_text_decoder_fatal :: "qjs_text_decoder_t option \<Rightarrow> js_throw + bool" where
  "qjs_text_decoder_fatal this =
     (case this of None \<Rightarrow> Inl (ThrowInternalError '''this' is not a TextDecoder'')
      | Some td \<Rightarrow> Inr (fatal td))"

definition qjs_text_decoder_encoding :: "qjs_text_decoder_t option \<Rightarrow> js_throw + string" where
  "qjs_text_decoder_encoding this =
     (case this of None \<Rightarrow> Inl (ThrowInternalError '''this' is not a TextDecoder'')
      | Some td \<Rightarrow> (case encoding td of QJS_ENCODING_UTF8 \<Rightarrow> Inr ''utf-8''))"

text \<open>
  The bytes a typed array or an array buffer denotes. \<open>JS_GetTypedArrayBuffer\<close> gives the
  underlying buffer, the byte offset and the byte length of a typed array,
  \<open>JS_GetArrayBuffer\<close> the bytes of a buffer.
\<close>

definition qjs_typed_array_data ::
  "('v \<Rightarrow> ('v \<times> nat \<times> nat) option) \<Rightarrow> ('v \<Rightarrow> byte list option) \<Rightarrow> 'v \<Rightarrow> byte list option" where
  "qjs_typed_array_data JS_GetTypedArrayBuffer JS_GetArrayBuffer value =
     (case JS_GetTypedArrayBuffer value of
        None \<Rightarrow> JS_GetArrayBuffer value
      | Some (ab, byte_offset, byte_length) \<Rightarrow>
          (case JS_GetArrayBuffer ab of
             None \<Rightarrow> None
           | Some bytes \<Rightarrow> Some (take byte_length (drop byte_offset bytes))))"

text \<open>
  \<open>TextDecoder.decode\<close>. \<open>stream_arg\<close> is \<open>None\<close> when there is no second argument, otherwise
  the value of its \<open>stream\<close> property. The result is the string handed to JavaScript, in
  UTF-8: the first \<open>size\<close> bytes of the buffer of \<open>size + 1\<close> bytes the second pass fills.
\<close>

definition qjs_text_decoder_decode ::
  "(nat \<Rightarrow> bool) \<Rightarrow> qjs_text_decoder_t option \<Rightarrow> byte list option \<Rightarrow> bool option option
     \<Rightarrow> (js_throw + byte list) \<times> qjs_text_decoder_t option" where
  "qjs_text_decoder_decode js_malloc this arg stream_arg =
     (case this of
        None \<Rightarrow> (Inl (ThrowInternalError '''this' is not a TextDecoder''), this)
      | Some td \<Rightarrow>
     (case arg of
        None \<Rightarrow> (Inl Exception, this)
      | Some bytes \<Rightarrow>
     (case stream_arg of
        Some None \<Rightarrow> (Inl Exception, this)
      | _ \<Rightarrow>
        let stream = (case stream_arg of Some (Some b) \<Rightarrow> b | _ \<Rightarrow> False);
            start = (if \<not> ignore_bom td then drop (njs_utf8_bom bytes) bytes else bytes)
        in case njs_utf8_stream_length (dctx td) start (\<not> stream) (fatal td) of
             None \<Rightarrow> (Inl (ThrowTypeError ''The encoded data was not valid''), this)
           | Some (sz, len, ctx) \<Rightarrow>
               if \<not> js_malloc (sz + 1) then (Inl ThrowOutOfMemory, this)
               else (case njs_utf8_stream_encode (dctx td) start (\<not> stream) False of
                       None \<Rightarrow> (Inl Exception, this)
                     | Some (dst, ctx') \<Rightarrow>
                         (Inr (take sz dst),
                          Some (td\<lparr>dctx := if \<not> stream then njs_utf8_decode_init ctx' else ctx'\<rparr>))))))"

text \<open>\<open>str\<close> is the first argument as a string: \<open>None\<close> when it cannot be had.\<close>

definition qjs_text_decoder_encoding_arg ::
  "nat \<Rightarrow> string option \<Rightarrow> qjs_text_decoder_t \<Rightarrow> js_throw + qjs_text_decoder_t" where
  "qjs_text_decoder_encoding_arg argc str td =
     (if argc < 1 then Inr (td\<lparr>encoding := QJS_ENCODING_UTF8\<rparr>)
      else case str of
        None \<Rightarrow> Inl ThrowOutOfMemory
      | Some s \<Rightarrow>
          (case find (\<lambda>label. s = fst label) qjs_encoding_labels of
             Some label \<Rightarrow> Inr (td\<lparr>encoding := snd label\<rparr>)
           | None \<Rightarrow> Inl (ThrowTypeError (''The \"'' @ s @ ''\" encoding is not supported''))))"

definition qjs_text_decoder_options ::
  "nat \<Rightarrow> bool option \<Rightarrow> bool option \<Rightarrow> qjs_text_decoder_t \<Rightarrow> js_throw + qjs_text_decoder_t" where
  "qjs_text_decoder_options argc fatal_prop ignoreBOM_prop td =
     (if argc < 2 then Inr (td\<lparr>fatal := False, ignore_bom := False\<rparr>)
      else case fatal_prop of
        None \<Rightarrow> Inl Exception
      | Some f \<Rightarrow> (case ignoreBOM_prop of
          None \<Rightarrow> Inl Exception
        | Some i \<Rightarrow> Inr (td\<lparr>fatal := f, ignore_bom := i\<rparr>)))"

definition zeroed_decoder :: qjs_text_decoder_t where
  "zeroed_decoder = \<lparr>encoding = QJS_ENCODING_UTF8, fatal = False, ignore_bom = False,
     dctx = \<lparr>codepoint = 0, need = 0, lower = 0, upper = 0\<rparr>\<rparr>"

definition qjs_text_decoder_ctor ::
  "bool \<Rightarrow> bool \<Rightarrow> nat \<Rightarrow> string option \<Rightarrow> bool option \<Rightarrow> bool option \<Rightarrow> js_throw + qjs_text_decoder_t" where
  "qjs_text_decoder_ctor obj_ok malloc_ok argc str fatal_prop ignoreBOM_prop =
     (if \<not> obj_ok then Inl Exception
      else if \<not> malloc_ok then Inl ThrowOutOfMemory
      else case qjs_text_decoder_encoding_arg argc str zeroed_decoder of
        Inl e \<Rightarrow> Inl e
      | Inr td \<Rightarrow> (case qjs_text_decoder_options argc fatal_prop ignoreBOM_prop td of
          Inl e \<Rightarrow> Inl e
        | Inr td' \<Rightarrow> Inr (td'\<lparr>dctx := njs_utf8_decode_init (dctx td')\<rparr>)))"

text \<open>
  \<open>TextEncoder.encode\<close>: \<open>utf8\<close> is the string as QuickJS hands it out in UTF-8,
  \<open>new_array n\<close> whether an array of \<open>n\<close> bytes can be made and its bytes be had.
\<close>

definition qjs_text_encoder_encode ::
  "bool \<Rightarrow> bool \<Rightarrow> byte list option \<Rightarrow> (nat \<Rightarrow> bool) \<Rightarrow> js_throw + byte list" where
  "qjs_text_encoder_encode this_ok is_string utf8 new_array =
     (if \<not> this_ok then Inl (ThrowInternalError '''this' is not a TextEncoder'')
      else if \<not> is_string then Inl (ThrowTypeError ''The input argument must be a string'')
      else case utf8 of
        None \<Rightarrow> Inl Exception
      | Some bytes \<Rightarrow> if \<not> new_array (length bytes) then Inl Exception else Inr bytes)"

text \<open>The loop of \<open>encodeInto\<close>: \<open>to\<close> is what was written, \<open>room\<close> the length of the target.\<close>

function encode_into_loop ::
  "njs_unicode_decode_t \<Rightarrow> byte list \<Rightarrow> byte list \<Rightarrow> nat \<Rightarrow> nat \<Rightarrow> nat \<Rightarrow> byte list \<times> nat \<times> nat" where
  "encode_into_loop ctx start to room rd written =
     (if start = [] then (to, rd, written)
      else case njs_utf8_decode ctx start of (cp0, ctx', start') \<Rightarrow>
        let cp = (if NJS_UNICODE_MAX_CODEPOINT < cp0 then NJS_UNICODE_REPLACEMENT else cp0);
            sz = njs_utf8_size cp
        in if room < length to + sz then (to, rd, written)
           else case njs_utf8_encode cp of
                  None \<Rightarrow> (to, rd, written)
                | Some bs \<Rightarrow>
                    encode_into_loop ctx' start' (to @ bs) room (rd + (if 0xFFFF < cp then 2 else 1)) (written + sz))"
  by pat_completeness auto
termination
  by (relation "measure (\<lambda>(ctx, start, to, room, rd, written). decode_measure ctx start)")
     (auto intro: njs_utf8_decode_measure_any)

declare encode_into_loop.simps [simp del]

text \<open>
  \<open>TextEncoder.encodeInto\<close>: \<open>dst\<close> is the target's bytes (\<open>None\<close> when they cannot be had); the
  last component is the target after the call, overwritten from its start.
\<close>

definition qjs_text_encoder_encode_into ::
  "bool \<Rightarrow> bool \<Rightarrow> byte list option \<Rightarrow> bool \<Rightarrow> byte list option
     \<Rightarrow> (js_throw + nat \<times> nat) \<times> byte list option" where
  "qjs_text_encoder_encode_into this_ok is_string dst is_uint8 utf8 =
     (if \<not> this_ok then (Inl (ThrowInternalError '''this' is not a TextEncoder''), dst)
      else if \<not> is_string then (Inl (ThrowTypeError ''The input argument must be a string''), dst)
      else case dst of
        None \<Rightarrow> (Inl Exception, dst)
      | Some target \<Rightarrow>
          if \<not> is_uint8 then (Inl (ThrowTypeError ''The output argument must be a Uint8Array''), dst)
          else (case utf8 of
            None \<Rightarrow> (Inl Exception, dst)
          | Some start \<Rightarrow>
              (case encode_into_loop fresh_ctx start [] (length target) 0 0 of
                 (to, rd, written) \<Rightarrow> (Inr (rd, written), Some (to @ drop (length to) target)))))"

section \<open>The decoder object\<close>


definition after_bom :: "qjs_text_decoder_t \<Rightarrow> byte list \<Rightarrow> byte list" where
  "after_bom td bytes = (if ignore_bom td then bytes else drop (njs_utf8_bom bytes) bytes)"

lemma decode_init_wf [simp]: "ctx_wf (njs_utf8_decode_init ctx)" "utf8_abs (njs_utf8_decode_init ctx) = Start"
  by (simp_all add: ctx_wf_def utf8_abs_def njs_utf8_decode_init_def)

lemma decoder_call:
  assumes wf: "ctx_wf (dctx td)"
    and run: "utf8_chunk (utf8_abs (dctx td)) (after_bom td bytes) (\<not> stream) = (st, out)"
  shows "if fatal td \<and> None \<in> set out
    then qjs_text_decoder_decode js_malloc (Some td) (Some bytes) (Some (Some stream)) =
      (Inl (ThrowTypeError ''The encoded data was not valid''), Some td)
    else if \<not> js_malloc (length (out_text out) + 1)
    then qjs_text_decoder_decode js_malloc (Some td) (Some bytes) (Some (Some stream)) =
      (Inl ThrowOutOfMemory, Some td)
    else \<exists>ctx'. ctx_wf ctx' \<and> utf8_abs ctx' = (if stream then st else Start) \<and>
      qjs_text_decoder_decode js_malloc (Some td) (Some bytes) (Some (Some stream)) =
        (Inr (out_text out), Some (td\<lparr>dctx := ctx'\<rparr>))"
proof -
  note strict = stream_passes [OF wf run, of "fatal td"] and lax = stream_passes [OF wf run, of False]
  note unfold = qjs_text_decoder_decode_def Let_def after_bom_def
  show ?thesis
  proof (cases "fatal td \<and> None \<in> set out")
    case True
    with strict show ?thesis by (simp add: unfold split: if_splits)
  next
    case ok: False
    then obtain c where c: "njs_utf8_stream_length (dctx td) (after_bom td bytes) (\<not> stream) (fatal td) =
        Some (length (out_text out), length out, c)" using strict by auto
    obtain c' where c': "ctx_wf c'" "utf8_abs c' = st"
      "njs_utf8_stream_encode (dctx td) (after_bom td bytes) (\<not> stream) False = Some (out_text out, c')"
      using lax by auto
    show ?thesis
    proof (cases "js_malloc (length (out_text out) + 1)")
      case False
      with ok c show ?thesis by (auto simp: unfold split: if_splits)
    next
      case True
      have "qjs_text_decoder_decode js_malloc (Some td) (Some bytes) (Some (Some stream)) =
          (Inr (out_text out), Some (td\<lparr>dctx := if \<not> stream then njs_utf8_decode_init c' else c'\<rparr>))"
        using True c c' by (auto simp: unfold split: if_splits)
      with True ok c' show ?thesis
        by (cases stream) (auto intro: exI [of _ c'] exI [of _ "njs_utf8_decode_init c'"])
    qed
  qed
qed



text \<open>Feeding a stream: every chunk with \<open>stream: true\<close>, then a last call with no bytes.\<close>

fun decode_stream ::
  "qjs_text_decoder_t \<Rightarrow> byte list list \<Rightarrow> js_throw + byte list" where
  "decode_stream td [] = fst (qjs_text_decoder_decode (\<lambda>n. True) (Some td) (Some []) (Some (Some False)))"
| "decode_stream td (chunk # chunks) =
     (case qjs_text_decoder_decode (\<lambda>n. True) (Some td) (Some chunk) (Some (Some True)) of
        (Inr s, Some td') \<Rightarrow> (case decode_stream td' chunks of Inl e \<Rightarrow> Inl e | Inr rest \<Rightarrow> Inr (s @ rest))
      | (Inl e, td') \<Rightarrow> Inl e
      | (Inr s, None) \<Rightarrow> Inr s)"

definition decode_text :: "bool \<Rightarrow> utf8_state \<Rightarrow> byte list \<Rightarrow> js_throw + byte list" where
  "decode_text strict st bytes =
     (let out = snd (utf8_chunk st bytes True)
      in if strict \<and> None \<in> set out then Inl (ThrowTypeError ''The encoded data was not valid'')
         else Inr (out_text out))"

lemma decode_text_append:
  "decode_text strict st (xs @ ys) =
     (let (st1, o1) = utf8_chunk st xs False
      in if strict \<and> None \<in> set o1 then Inl (ThrowTypeError ''The encoded data was not valid'')
         else case decode_text strict st1 ys of Inl e \<Rightarrow> Inl e | Inr rest \<Rightarrow> Inr (out_text o1 @ rest))"
  by (auto simp: decode_text_def utf8_chunk_append Let_def split: prod.splits)

lemma decode_stream_text:
  "ctx_wf (dctx td) \<Longrightarrow> ignore_bom td \<Longrightarrow>
     decode_stream td chunks = decode_text (fatal td) (utf8_abs (dctx td)) (concat chunks)"
proof (induction chunks arbitrary: td)
  case Nil
  obtain st out where run: "utf8_chunk (utf8_abs (dctx td)) [] True = (st, out)" by fastforce
  with decoder_call [of td "[]" False st out "\<lambda>n. True"] Nil show ?case
    by (auto simp: after_bom_def decode_text_def split: if_splits)
next
  case (Cons chunk chunks)
  obtain st out where run: "utf8_chunk (utf8_abs (dctx td)) chunk False = (st, out)" by fastforce
  note call = decoder_call [of td chunk True st out "\<lambda>n. True"]
  show ?case
  proof (cases "fatal td \<and> None \<in> set out")
    case True
    with call Cons.prems run show ?thesis
      by (simp add: after_bom_def decode_text_append)
  next
    case False
    then obtain ctx' where c: "ctx_wf ctx'" "utf8_abs ctx' = st"
      "qjs_text_decoder_decode (\<lambda>n. True) (Some td) (Some chunk) (Some (Some True)) =
        (Inr (out_text out), Some (td\<lparr>dctx := ctx'\<rparr>))"
      using call Cons.prems run by (auto simp: after_bom_def split: if_splits)
    with Cons.IH [of "td\<lparr>dctx := ctx'\<rparr>"] Cons.prems run False show ?thesis
      by (auto simp: decode_text_append)
  qed
qed

text \<open>
  C18: streaming is invisible to a \<open>TextDecoder\<close> that keeps byte order marks: however a byte
  stream is cut into chunks, also inside multi-byte sequences, feeding the chunks with
  \<open>stream: true\<close> and closing with an empty call gives the text, or the error, of decoding the
  concatenated bytes in one call.
\<close>

theorem text_decoder_streaming:
  assumes "ctx_wf (dctx td)" "ignore_bom td"
  shows "decode_stream td chunks =
    fst (qjs_text_decoder_decode (\<lambda>n. True) (Some td) (Some (concat chunks)) (Some (Some False)))"
proof -
  obtain st out where run: "utf8_chunk (utf8_abs (dctx td)) (concat chunks) True = (st, out)" by fastforce
  have "fst (qjs_text_decoder_decode (\<lambda>n. True) (Some td) (Some (concat chunks)) (Some (Some False))) =
      decode_text (fatal td) (utf8_abs (dctx td)) (concat chunks)"
    using decoder_call [of td "concat chunks" False st out "\<lambda>n. True"] assms run
    by (auto simp: after_bom_def decode_text_def split: if_splits)
  with decode_stream_text [OF assms] show ?thesis by simp
qed

lemma text_decoder_streaming_witness:
  "decode_stream (zeroed_decoder\<lparr>ignore_bom := True\<rparr>) [[0xE2], [0x82], [0xAC, 0x21]] =
    fst (qjs_text_decoder_decode (\<lambda>n. True) (Some (zeroed_decoder\<lparr>ignore_bom := True\<rparr>))
      (Some (concat [[0xE2], [0x82], [0xAC, 0x21]])) (Some (Some False)))"
  by (rule text_decoder_streaming) (simp_all add: zeroed_decoder_def ctx_wf_def utf8_abs_def)

text \<open>
  A decoder that strips byte order marks strips one at the start of every chunk: U+FEFF inside a
  text is lost when a chunk happens to begin with it.
\<close>

lemma bom_stripped_mid_stream:
  "fst (qjs_text_decoder_decode (\<lambda>n. True) (Some zeroed_decoder) (Some [0x41, 0xEF, 0xBB, 0xBF, 0x42]) None) =
     Inr [0x41, 0xEF, 0xBB, 0xBF, 0x42]"
  "decode_stream zeroed_decoder [[0x41], [0xEF, 0xBB, 0xBF, 0x42]] = Inr [0x41, 0x42]"
proof -
  show "fst (qjs_text_decoder_decode (\<lambda>n. True) (Some zeroed_decoder) (Some [0x41, 0xEF, 0xBB, 0xBF, 0x42]) None) =
     Inr [0x41, 0xEF, 0xBB, 0xBF, 0x42]"
    by code_simp
  show "decode_stream zeroed_decoder [[0x41], [0xEF, 0xBB, 0xBF, 0x42]] = Inr [0x41, 0x42]"
    by code_simp
qed

section \<open>\<open>encodeInto\<close>\<close>

text \<open>The longest prefix whose encodings fit, and the UTF-16 code units it takes in JavaScript.\<close>

fun fitting :: "nat \<Rightarrow> u32 list \<Rightarrow> u32 list" where
  "fitting room [] = []"
| "fitting room (u # us) = (if room < length (utf8_bytes u) then [] else u # fitting (room - length (utf8_bytes u)) us)"

definition utf16_units :: "u32 \<Rightarrow> nat" where
  "utf16_units u = (if 0xFFFF < u then 2 else 1)"

definition encodings :: "u32 list \<Rightarrow> byte list" where
  "encodings us = concat (map utf8_bytes us)"

lemma encodings_simps [simp]: "encodings [] = []" "encodings (u # us) = utf8_bytes u @ encodings us"
  by (simp_all add: encodings_def)

lemma fitting_bound: "length (encodings (fitting room us)) \<le> room"
  by (induction room us rule: fitting.induct) (auto simp: not_less)

lemma fitting_all: "length (encodings us) \<le> room \<Longrightarrow> fitting room us = us"
  by (induction room us rule: fitting.induct) auto

lemma silent_step: "utf8_step st b = (st', []) \<Longrightarrow> st' \<noteq> Start"
  by (cases st) (auto simp: utf8_lead_def Let_def split: if_splits)

lemma silent_run: "utf8_run st xs = (st', []) \<Longrightarrow> st' = Start \<Longrightarrow> xs = [] \<and> st = Start"
proof (induction xs arbitrary: st)
  case (Cons b xs)
  then show ?case by (auto simp: Let_def split: prod.splits dest!: silent_step)
qed simp

lemma encode_into_loop_correct:
  assumes "ctx_wf ctx" "utf8_abs ctx = Start" "utf8_chunk Start xs True = (st, out)" "length to \<le> room"
  shows "encode_into_loop ctx xs to room rd written =
    (let us = fitting (room - length to) (map out_code out)
     in (to @ encodings us, rd + sum_list (map utf16_units us), written + length (encodings us)))"
  using assms
proof (induction "length xs" arbitrary: ctx xs out to rd written rule: less_induct)
  case less
  show ?case
  proof (cases "xs = []")
    case True
    with less.prems show ?thesis by (auto simp: encode_into_loop.simps utf8_chunk_def)
  next
    case False
    obtain out0 where run: "utf8_run (utf8_abs ctx) xs = (st, out0)"
      and out: "out = (if st \<noteq> Start then out0 @ [None] else out0)"
      using less.prems(2,3) by (auto simp: utf8_chunk_def split: prod.splits)
    from less.prems(1) False run show ?thesis
    proof (cases rule: decode_outcomes)
      case (more ctx')
      with run False silent_run [of "utf8_abs ctx" xs st] out have "out = [None]" by auto
      with more False less.prems unicode_constants(1) scalar_encodes [OF scalar_replacement] show ?thesis
        by (auto simp: encode_into_loop.simps Let_def out_code_def utf8_bytes_size [symmetric]
            utf16_units_def NJS_UNICODE_REPLACEMENT_def)
    next
      case (item cp ctx' xs' r out')
      let ?u = "out_code r"
      have u: "(if NJS_UNICODE_MAX_CODEPOINT < cp then NJS_UNICODE_REPLACEMENT else cp) = ?u"
        using item by (auto simp: out_code_def)
      have step: "encode_into_loop ctx xs to room rd written =
          (if room < length to + length (utf8_bytes ?u) then (to, rd, written)
           else encode_into_loop ctx' xs' (to @ utf8_bytes ?u) room (rd + utf16_units ?u) (written + length (utf8_bytes ?u)))"
        using item(1) False u scalar_encodes [OF item(7)]
        by (subst encode_into_loop.simps) (simp add: Let_def utf8_bytes_size utf16_units_def)
      have shorter: "length xs' < length xs"
        using njs_utf8_decode_progress(3) [OF item(1) _ False] less.prems(2) utf8_abs_pending [OF less.prems(1)] by simp
      have start: "utf8_abs ctx' = Start" using item(3) by simp
      define tl where "tl = (if st \<noteq> Start then out' @ [None] else out')"
      have rest: "utf8_chunk Start xs' True = (st, tl)"
        using item(9) start by (simp add: utf8_chunk_def tl_def)
      have out_eq: "out = r # tl" using out item(8) by (simp add: tl_def)
      show ?thesis
      proof (cases "room < length to + length (utf8_bytes ?u)")
        case True
        then have "room - length to < length (utf8_bytes ?u)" using less.prems(4) by simp
        with True step out_eq show ?thesis by (simp add: Let_def)
      next
        case fits: False
        note IH = less.hyps [OF shorter item(2) start rest, of "to @ utf8_bytes ?u"]
        have "\<not> room - length to < length (utf8_bytes ?u)" using fits by simp
        with IH step fits out_eq show ?thesis by (simp add: Let_def add.assoc)
      qed
    qed
  qed
qed



end
