(* ===== verification/Hash_Cache.thy ===== *)
theory Hash_Cache
  imports Prelude "HOL-Library.Multiset"
begin

text \<open>
  \<open>hash_cache.c\<close> run by one thread: the open-addressing cache with a bounded probe window,
  reference counts and sequence counts. A bucket pointer is the index of the bucket. The
  counters are \<open>int32_t\<close> and wrap, so they are \<open>32 word\<close>; a UID is \<open>unsigned __int128\<close>. The
  interleavings of several threads are in \<open>Hash_Cache_Conc\<close>.
\<close>

section \<open>Definitions\<close>

record 'p bucket =
  b_uid :: u128
  b_refcount :: u32
  b_update_count :: u32
  b_payload :: 'p

definition HASH_CACHE_BUCKET_ARRAY_SIZE_FROM_HASH_BITS :: "nat \<Rightarrow> nat" where
  "HASH_CACHE_BUCKET_ARRAY_SIZE_FROM_HASH_BITS hash_bits = unat (push_bit hash_bits 1 :: u64)"

definition LOW_CONTENTION_SPIN_LOCK_MAX_TRIES :: nat where
  "LOW_CONTENTION_SPIN_LOCK_MAX_TRIES = 200"

definition get_cache_bucket :: "u128 \<Rightarrow> nat \<Rightarrow> nat" where
  "get_cache_bucket uid n_bits = unat (ucast (uid mod push_bit n_bits 1) :: u64)"

definition get_bucket_look_forward :: "nat \<Rightarrow> nat" where
  "get_bucket_look_forward n_bits = n_bits * 3 div 2"

text \<open>The two halves of the 128-bit hash, put together.\<close>

definition get_hash_cache_uid :: "('d \<Rightarrow> u64 \<times> u64) \<Rightarrow> 'd \<Rightarrow> u128" where
  "get_hash_cache_uid XXH3_128bits data =
     (case XXH3_128bits data of (high64, low64) \<Rightarrow> push_bit 64 (ucast high64) OR ucast low64)"

text \<open>
  What a successful compare-and-exchange does to its bucket: odd count, cleanup of an old entry,
  copy, new UID, even count. The cleanup callback may change the bucket and a state of its own.
\<close>

definition replace_entry ::
  "('p bucket \<Rightarrow> 's \<Rightarrow> 'p bucket \<times> 's) option \<Rightarrow> u128 \<Rightarrow> 'p \<Rightarrow> 'p bucket \<Rightarrow> 's \<Rightarrow> 'p bucket \<times> 's" where
  "replace_entry cleanup uid object bucket s =
     (let b1 = bucket\<lparr>b_refcount := 1\<rparr>;
          b2 = b1\<lparr>b_update_count := b_update_count b1 + 1\<rparr>;
          (b3, s') = (if b_uid b2 \<noteq> 0 then (case cleanup of Some f \<Rightarrow> f b2 s | None \<Rightarrow> (b2, s)) else (b2, s));
          b4 = b3\<lparr>b_payload := object\<rparr>;
          b5 = b4\<lparr>b_uid := uid\<rparr>
      in (b5\<lparr>b_update_count := b_update_count b5 + 1\<rparr>, s'))"

fun add_loop ::
  "('p bucket \<Rightarrow> 's \<Rightarrow> 'p bucket \<times> 's) option \<Rightarrow> u128 \<Rightarrow> 'p \<Rightarrow> nat \<Rightarrow> nat list \<Rightarrow> 'p bucket list \<Rightarrow> 's
     \<Rightarrow> nat option \<times> 'p bucket list \<times> 's" where
  "add_loop cleanup uid object n_buckets [] buckets s = (None, buckets, s)"
| "add_loop cleanup uid object n_buckets (i # rest) buckets s =
     (let j = i mod n_buckets in
      if b_refcount (buckets ! j) = 0 then
        (let (b, s') = replace_entry cleanup uid object (buckets ! j) s in (Some j, buckets[j := b], s'))
      else add_loop cleanup uid object n_buckets rest buckets s)"

definition add_to_hash_cache ::
  "'p bucket list \<Rightarrow> nat \<Rightarrow> u128 \<Rightarrow> 'p \<Rightarrow> ('p bucket \<Rightarrow> 's \<Rightarrow> 'p bucket \<times> 's) option \<Rightarrow> 's
     \<Rightarrow> nat option \<times> 'p bucket list \<times> 's" where
  "add_to_hash_cache buckets n_bits uid object cleanup s =
     (if uid = 0 then (None, buckets, s)
      else
        let bucket_i = get_cache_bucket uid n_bits;
            n_buckets = HASH_CACHE_BUCKET_ARRAY_SIZE_FROM_HASH_BITS n_bits
        in add_loop cleanup uid object n_buckets [bucket_i ..< bucket_i + get_bucket_look_forward n_bits] buckets s)"

text \<open>
  The tries on one bucket: \<open>Some\<close> the bucket with its reference taken, \<open>None\<close> on a break or
  when the tries run out. Run by one thread, both loads of the count see the same bucket.
\<close>

function get_tries :: "u128 \<Rightarrow> nat \<Rightarrow> 'p bucket \<Rightarrow> 'p bucket option" where
  "get_tries uid n bucket =
     (if n < LOW_CONTENTION_SPIN_LOCK_MAX_TRIES then
        let update_count_before = b_update_count bucket in
        if update_count_before mod 2 \<noteq> 0 then get_tries uid (n + 1) bucket
        else if uid \<noteq> b_uid bucket then None
        else let bucket1 = bucket\<lparr>b_refcount := b_refcount bucket + 1\<rparr> in
          if update_count_before \<noteq> b_update_count bucket1
          then get_tries uid (n + 1) (bucket1\<lparr>b_refcount := b_refcount bucket1 + -1\<rparr>)
          else Some bucket1
      else None)"
  by pat_completeness auto
termination
  by (relation "measure (\<lambda>(uid, n, bucket). LOW_CONTENTION_SPIN_LOCK_MAX_TRIES - n)") auto

declare get_tries.simps [simp del]

fun get_loop :: "u128 \<Rightarrow> nat \<Rightarrow> nat list \<Rightarrow> 'p bucket list \<Rightarrow> nat option \<times> 'p bucket list" where
  "get_loop uid n_buckets [] buckets = (None, buckets)"
| "get_loop uid n_buckets (i # rest) buckets =
     (let j = i mod n_buckets in
      case get_tries uid 0 (buckets ! j) of
        Some b \<Rightarrow> (Some j, buckets[j := b])
      | None \<Rightarrow> get_loop uid n_buckets rest buckets)"

definition get_hash_cache_entry :: "'p bucket list \<Rightarrow> nat \<Rightarrow> u128 \<Rightarrow> nat option \<times> 'p bucket list" where
  "get_hash_cache_entry buckets n_bits uid =
     (if uid = 0 then (None, buckets)
      else
        let bucket_i = get_cache_bucket uid n_bits;
            n_buckets = HASH_CACHE_BUCKET_ARRAY_SIZE_FROM_HASH_BITS n_bits
        in get_loop uid n_buckets [bucket_i ..< bucket_i + get_bucket_look_forward n_bits] buckets)"

definition decrement_hash_cache_bucket_refcount :: "'p bucket list \<Rightarrow> nat \<Rightarrow> 'p bucket list" where
  "decrement_hash_cache_bucket_refcount buckets j =
     buckets[j := (buckets ! j)\<lparr>b_refcount := b_refcount (buckets ! j) + -1\<rparr>]"

section \<open>The probe window\<close>

text \<open>The buckets an operation on \<open>uid\<close> looks at, in order.\<close>

definition window :: "nat \<Rightarrow> u128 \<Rightarrow> nat list" where
  "window n_bits uid = map (\<lambda>i. i mod 2 ^ n_bits)
     [get_cache_bucket uid n_bits ..< get_cache_bucket uid n_bits + get_bucket_look_forward n_bits]"

lemma n_buckets: "n_bits < 64 \<Longrightarrow> HASH_CACHE_BUCKET_ARRAY_SIZE_FROM_HASH_BITS n_bits = 2 ^ n_bits"
  unfolding HASH_CACHE_BUCKET_ARRAY_SIZE_FROM_HASH_BITS_def
  by (simp only: unsigned_push_bit_eq) (simp add: push_bit_of_1 take_bit_nat_eq_self)

lemma look_forward_le: "get_bucket_look_forward n_bits \<le> 2 ^ n_bits"
proof (induction n_bits rule: less_induct)
  case (less n)
  have "n \<le> 3 \<or> 4 \<le> n" by linarith
  then show ?case
  proof
    assume "n \<le> 3"
    then have "n \<in> {0, 1, 2, 3}" by auto
    then show ?thesis by (auto simp: get_bucket_look_forward_def)
  next
    assume big: "4 \<le> n"
    with less.IH [of "n - 1"] have "(n - 1) * 3 div 2 \<le> 2 ^ (n - 1)" by (simp add: get_bucket_look_forward_def)
    moreover have "(2::nat) ^ n = 2 * 2 ^ (n - 1)" using big by (cases n) auto
    moreover have "n * 3 div 2 \<le> 2 * ((n - 1) * 3 div 2)" using big by linarith
    ultimately show ?thesis by (simp add: get_bucket_look_forward_def)
  qed
qed

lemma cache_bucket_less:
  assumes "n_bits < 64"
  shows "get_cache_bucket uid n_bits < 2 ^ n_bits"
proof -
  have p: "unat (push_bit n_bits 1 :: u128) = 2 ^ n_bits"
    using assms by (simp only: unsigned_push_bit_eq) (simp add: push_bit_of_1 take_bit_nat_eq_self)
  have "unat (uid mod push_bit n_bits 1) = unat uid mod 2 ^ n_bits"
    by (simp only: unat_mod_distrib p)
  moreover have "unat uid mod 2 ^ n_bits < 2 ^ n_bits" by simp
  moreover have "(2::nat) ^ n_bits \<le> 2 ^ 64" using assms by (intro power_increasing) auto
  ultimately have "unat (uid mod push_bit n_bits 1) < 2 ^ n_bits" "unat (uid mod push_bit n_bits 1) < 2 ^ 64"
    by (simp_all only: order_less_le_trans)
  then show ?thesis
    by (simp add: get_cache_bucket_def unsigned_ucast_eq take_bit_nat_eq_self)
qed

lemma window_less: "j \<in> set (window n_bits uid) \<Longrightarrow> j < 2 ^ n_bits"
  by (auto simp: window_def)

lemma mod_inj_near:
  assumes "(a::nat) mod m = b mod m" "a \<le> b" "b < a + m"
  shows "a = b"
proof -
  have "m dvd b - a" using assms(1,2) by (metis mod_eq_dvd_iff_nat)
  moreover have "b - a < m" using assms by linarith
  ultimately have "b - a = 0" using nat_dvd_not_less by (cases "b - a = 0") auto
  with assms(2) show ?thesis by simp
qed

lemma window_distinct: "distinct (window n_bits uid)"
proof -
  have "inj_on (\<lambda>i. i mod 2 ^ n_bits) {c ..< c + get_bucket_look_forward n_bits}" for c
  proof (rule inj_onI)
    fix x y
    assume xy: "x \<in> {c ..< c + get_bucket_look_forward n_bits}" "y \<in> {c ..< c + get_bucket_look_forward n_bits}"
      "x mod 2 ^ n_bits = y mod 2 ^ n_bits"
    then have "y < x + 2 ^ n_bits" "x < y + 2 ^ n_bits" using look_forward_le [of n_bits] by auto
    with xy(3) mod_inj_near [of x "2 ^ n_bits" y] mod_inj_near [of y "2 ^ n_bits" x] show "x = y"
      by (cases "x \<le> y") auto
  qed
  then show ?thesis by (simp add: window_def distinct_map)
qed

section \<open>Lookup and insertion\<close>

text \<open>
  Between operations no thread is inside a bucket: every sequence count is even and the array has
  the size the hash bits say.
\<close>

definition quiescent :: "nat \<Rightarrow> 'p bucket list \<Rightarrow> bool" where
  "quiescent n_bits buckets \<longleftrightarrow>
     n_bits < 64 \<and> length buckets = 2 ^ n_bits \<and> (\<forall>b \<in> set buckets. even (b_update_count b))"

lemma quiescent_nth: "quiescent n_bits buckets \<Longrightarrow> j < 2 ^ n_bits \<Longrightarrow> even (b_update_count (buckets ! j))"
  by (simp add: quiescent_def)

lemma quiescent_update:
  "quiescent n_bits buckets \<Longrightarrow> even (b_update_count b) \<Longrightarrow> quiescent n_bits (buckets[j := b])"
  by (auto simp: quiescent_def dest!: set_update_subset_insert [THEN subsetD])

lemma get_tries_quiet:
  "even (b_update_count b) \<Longrightarrow>
     get_tries uid 0 b = (if uid = b_uid b then Some (b\<lparr>b_refcount := b_refcount b + 1\<rparr>) else None)"
  by (simp add: get_tries.simps LOW_CONTENTION_SPIN_LOCK_MAX_TRIES_def even_iff_mod_2_eq_zero)

lemma get_loop_quiet:
  "quiescent n_bits buckets \<Longrightarrow>
     get_loop uid (2 ^ n_bits) is buckets =
       (case find (\<lambda>j. b_uid (buckets ! j) = uid) (map (\<lambda>i. i mod 2 ^ n_bits) is) of
          None \<Rightarrow> (None, buckets)
        | Some j \<Rightarrow> (Some j, buckets[j := (buckets ! j)\<lparr>b_refcount := b_refcount (buckets ! j) + 1\<rparr>]))"
  by (induction "is") (auto simp: get_tries_quiet quiescent_nth Let_def)

lemma add_loop_find:
  "add_loop cleanup uid object m is buckets s =
     (case find (\<lambda>j. b_refcount (buckets ! j) = 0) (map (\<lambda>i. i mod m) is) of
        None \<Rightarrow> (None, buckets, s)
      | Some j \<Rightarrow> (let (b, s') = replace_entry cleanup uid object (buckets ! j) s in (Some j, buckets[j := b], s')))"
  by (induction "is") (auto simp: Let_def)

lemma get_entry_find:
  assumes "quiescent n_bits buckets" "uid \<noteq> 0"
  shows "get_hash_cache_entry buckets n_bits uid =
    (case find (\<lambda>j. b_uid (buckets ! j) = uid) (window n_bits uid) of
       None \<Rightarrow> (None, buckets)
     | Some j \<Rightarrow> (Some j, buckets[j := (buckets ! j)\<lparr>b_refcount := b_refcount (buckets ! j) + 1\<rparr>]))"
  using assms
  by (simp add: get_hash_cache_entry_def Let_def n_buckets quiescent_def window_def get_loop_quiet [unfolded quiescent_def])

lemma add_find:
  assumes "n_bits < 64" "uid \<noteq> 0"
  shows "add_to_hash_cache buckets n_bits uid object cleanup s =
    (case find (\<lambda>j. b_refcount (buckets ! j) = 0) (window n_bits uid) of
       None \<Rightarrow> (None, buckets, s)
     | Some j \<Rightarrow> (let (b, s') = replace_entry cleanup uid object (buckets ! j) s in (Some j, buckets[j := b], s')))"
  using assms by (simp add: add_to_hash_cache_def Let_def n_buckets window_def add_loop_find)

text \<open>A cleanup callback may free what the payload points to but leaves the counters and the UID alone.\<close>

definition cleanup_ok :: "('p bucket \<Rightarrow> 's \<Rightarrow> 'p bucket \<times> 's) option \<Rightarrow> bool" where
  "cleanup_ok cleanup \<longleftrightarrow> (\<forall>f b s b' s'. cleanup = Some f \<longrightarrow> f b s = (b', s') \<longrightarrow>
     b_refcount b' = b_refcount b \<and> b_update_count b' = b_update_count b)"

lemma replace_entry_fields:
  assumes "cleanup_ok cleanup" "replace_entry cleanup uid object b s = (b', s')"
  shows "b_uid b' = uid" "b_payload b' = object" "b_refcount b' = 1"
    "b_update_count b' = b_update_count b + 1 + 1"
    "s' = (case cleanup of Some f \<Rightarrow> if b_uid b = 0 then s
             else snd (f (b\<lparr>b_refcount := 1, b_update_count := b_update_count b + 1\<rparr>) s)
           | None \<Rightarrow> s)"
  using assms
  by (auto simp: replace_entry_def cleanup_ok_def Let_def split: prod.splits if_splits option.splits) force+

lemma find_None_all: "find P xs = None \<longleftrightarrow> (\<forall>x \<in> set xs. \<not> P x)"
  by (auto simp: find_None_iff)

lemma find_SomeD: "find P xs = Some x \<Longrightarrow> x \<in> set xs \<and> P x"
  by (auto simp: find_Some_iff)

section \<open>The contract of a reference-counted cache\<close>

text \<open>
  A client's calls: \<open>Add\<close> and \<open>Get\<close> hand out a reference to an entry when they succeed,
  \<open>Release\<close> gives one back. \<open>cache_exec\<close> runs a sequence of calls and counts, per entry, the
  references handed out and not given back; a \<open>Release\<close> without a reference is not a legal call.
\<close>

datatype ('k, 'v) cache_op = Add 'k 'v | Get 'k | Release nat

fun cache_exec ::
  "('c \<Rightarrow> 'k \<Rightarrow> 'v \<Rightarrow> nat option \<times> 'c) \<Rightarrow> ('c \<Rightarrow> 'k \<Rightarrow> nat option \<times> 'c) \<Rightarrow> ('c \<Rightarrow> nat \<Rightarrow> 'c)
     \<Rightarrow> ('k, 'v) cache_op list \<Rightarrow> 'c \<Rightarrow> (nat \<Rightarrow> nat) \<Rightarrow> ('c \<times> (nat \<Rightarrow> nat)) option" where
  "cache_exec add get release [] c held = Some (c, held)"
| "cache_exec add get release (Add k v # ops) c held =
     (case add c k v of
        (None, c') \<Rightarrow> cache_exec add get release ops c' held
      | (Some j, c') \<Rightarrow> cache_exec add get release ops c' (held(j := held j + 1)))"
| "cache_exec add get release (Get k # ops) c held =
     (case get c k of
        (None, c') \<Rightarrow> cache_exec add get release ops c' held
      | (Some j, c') \<Rightarrow> cache_exec add get release ops c' (held(j := held j + 1)))"
| "cache_exec add get release (Release j # ops) c held =
     (if held j = 0 then None else cache_exec add get release ops (release c j) (held(j := held j - 1)))"

text \<open>The payloads the calls of a run stored, in order.\<close>

fun cache_stored ::
  "('c \<Rightarrow> 'k \<Rightarrow> 'v \<Rightarrow> nat option \<times> 'c) \<Rightarrow> ('c \<Rightarrow> 'k \<Rightarrow> nat option \<times> 'c) \<Rightarrow> ('c \<Rightarrow> nat \<Rightarrow> 'c)
     \<Rightarrow> ('k, 'v) cache_op list \<Rightarrow> 'c \<Rightarrow> 'v list" where
  "cache_stored add get release [] c = []"
| "cache_stored add get release (Add k v # ops) c =
     (case add c k v of
        (None, c') \<Rightarrow> cache_stored add get release ops c'
      | (Some j, c') \<Rightarrow> v # cache_stored add get release ops c')"
| "cache_stored add get release (Get k # ops) c = cache_stored add get release ops (snd (get c k))"
| "cache_stored add get release (Release j # ops) c = cache_stored add get release ops (release c j)"

text \<open>The resources the payloads of an entry table own: \<open>res\<close> gives the resource of a payload.\<close>

definition live :: "('v \<Rightarrow> 'r) \<Rightarrow> (nat \<Rightarrow> ('k \<times> 'v) option) \<Rightarrow> 'r multiset" where
  "live res f = image_mset (\<lambda>j. res (snd (the (f j)))) (mset_set (dom f))"

definition old_value :: "('v \<Rightarrow> 'r) \<Rightarrow> ('k \<times> 'v) option \<Rightarrow> 'r list" where
  "old_value res e = (case e of Some (k, v) \<Rightarrow> [res v] | None \<Rightarrow> [])"

lemma live_update:
  assumes "finite (dom f)"
  shows "live res (f(j := Some (k, v))) + mset (old_value res (f j)) = live res f + {#res v#}"
proof -
  let ?g = "\<lambda>i. res (snd (the (f i)))" and ?D = "dom f - {j}"
  have eq: "image_mset (\<lambda>i. res (snd (the ((f(j := Some (k, v))) i)))) (mset_set ?D) = image_mset ?g (mset_set ?D)"
    using assms by (intro image_mset_cong) auto
  have new: "live res (f(j := Some (k, v))) = add_mset (res v) (image_mset ?g (mset_set ?D))"
  proof -
    have "dom (f(j := Some (k, v))) = insert j ?D" by auto
    moreover have "mset_set (insert j ?D) = add_mset j (mset_set ?D)"
      by (rule mset_set.insert) (use assms in auto)
    ultimately show ?thesis using eq by (simp add: live_def)
  qed
  show ?thesis
  proof (cases "f j")
    case None
    then show ?thesis using new by (simp add: live_def old_value_def domIff)
  next
    case (Some e)
    then have "mset_set (dom f) = add_mset j (mset_set ?D)"
      using assms by (simp add: mset_set.remove domIff)
    then have "live res f = add_mset (res (snd e)) (image_mset ?g (mset_set ?D))"
      using Some by (simp add: live_def)
    with new Some show ?thesis by (cases e) (simp add: old_value_def)
  qed
qed

locale ref_cache =
  fixes inv :: "'c \<Rightarrow> bool"
    and pins :: "'c \<Rightarrow> nat \<Rightarrow> u32"
    and entry :: "'c \<Rightarrow> nat \<Rightarrow> ('k \<times> 'v) option"
    and res :: "'v \<Rightarrow> 'r"
    and freed :: "'c \<Rightarrow> 'r list"
    and add :: "'c \<Rightarrow> 'k \<Rightarrow> 'v \<Rightarrow> nat option \<times> 'c"
    and get :: "'c \<Rightarrow> 'k \<Rightarrow> nat option \<times> 'c"
    and release :: "'c \<Rightarrow> nat \<Rightarrow> 'c"
  assumes add_None: "inv c \<Longrightarrow> add c k v = (None, c') \<Longrightarrow> c' = c"
    and add_Some: "inv c \<Longrightarrow> add c k v = (Some j, c') \<Longrightarrow>
      inv c' \<and> pins c j = 0 \<and> pins c' = (pins c)(j := 1) \<and> entry c' = (entry c)(j := Some (k, v)) \<and>
      freed c' = freed c @ old_value res (entry c j)"
    and finite_entries: "inv c \<Longrightarrow> finite (dom (entry c))"
    and get_None: "inv c \<Longrightarrow> get c k = (None, c') \<Longrightarrow> c' = c"
    and get_Some: "inv c \<Longrightarrow> get c k = (Some j, c') \<Longrightarrow>
      inv c' \<and> (\<exists>v. entry c j = Some (k, v)) \<and> pins c' = (pins c)(j := pins c j + 1) \<and>
      entry c' = entry c \<and> freed c' = freed c"
    and release_law: "inv c \<Longrightarrow> entry c j \<noteq> None \<Longrightarrow>
      inv (release c j) \<and> pins (release c j) = (pins c)(j := pins c j - 1) \<and>
      entry (release c j) = entry c \<and> freed (release c j) = freed c"
begin

text \<open>The reference counts are those of the references handed out, and only entries are referenced.\<close>

definition counted :: "'c \<Rightarrow> (nat \<Rightarrow> nat) \<Rightarrow> bool" where
  "counted c held \<longleftrightarrow> inv c \<and> (\<forall>j. pins c j = of_nat (held j)) \<and> (\<forall>j. 0 < held j \<longrightarrow> entry c j \<noteq> None)"

lemma counted_add:
  assumes "counted c held" "add c k v = (Some j, c')" "held j < 2 ^ 32"
  shows "held j = 0" "counted c' (held(j := held j + 1))" "entry c' = (entry c)(j := Some (k, v))"
    "mset (freed c') + live res (entry c') = mset (freed c) + live res (entry c) + {#res v#}"
proof -
  have inv: "inv c" using assms(1) by (simp add: counted_def)
  note a = add_Some [OF inv assms(2)]
  have "of_nat (held j) = (0 :: u32)" using assms(1) a by (simp add: counted_def)
  then show 0: "held j = 0" using assms(3) by (rule of_nat_u32_zero)
  from assms(1) a 0 show "counted c' (held(j := held j + 1))" by (auto simp: counted_def)
  from a show "entry c' = (entry c)(j := Some (k, v))" by simp
  have "mset (freed c') + live res (entry c') = mset (freed c) + (live res (entry c') + mset (old_value res (entry c j)))"
    using a by (simp add: ac_simps)
  also have "\<dots> = mset (freed c) + live res (entry c) + {#res v#}"
    using a live_update [OF finite_entries [OF inv], of res j k v] by (simp add: ac_simps)
  finally show "mset (freed c') + live res (entry c') = mset (freed c) + live res (entry c) + {#res v#}" .
qed

lemma counted_get:
  assumes "counted c held" "get c k = (Some j, c')"
  shows "counted c' (held(j := held j + 1))" "entry c' = entry c" "freed c' = freed c"
  using assms get_Some [of c k j c'] by (auto simp: counted_def add.commute)

lemma counted_release:
  assumes "counted c held" "held j \<noteq> 0"
  shows "counted (release c j) (held(j := held j - 1))" "entry (release c j) = entry c" "freed (release c j) = freed c"
  using assms release_law [of c j] by (auto simp: counted_def of_nat_diff)

text \<open>What one call does to the accounts: the bundle the proofs on whole runs rest on.\<close>

definition call_ok :: "('k, 'v) cache_op \<Rightarrow> 'c \<Rightarrow> (nat \<Rightarrow> nat) \<Rightarrow> 'c \<Rightarrow> (nat \<Rightarrow> nat) \<Rightarrow> 'v list \<Rightarrow> bool" where
  "call_ok x c held c1 held1 vs \<longleftrightarrow> counted c1 held1 \<and> (\<forall>j. held1 j \<le> held j + 1) \<and>
     (\<forall>j. 0 < held j \<longrightarrow> x \<noteq> Release j \<longrightarrow> 0 < held1 j) \<and> (\<forall>j. 0 < held j \<longrightarrow> entry c1 j = entry c j) \<and>
     mset (freed c1) + live res (entry c1) = mset (freed c) + live res (entry c) + mset (map res vs)"

lemma exec_call:
  assumes exec: "cache_exec add get release (x # ops) c held = Some (c', held')"
    and "counted c held" "\<And>j. held j < 2 ^ 32"
  obtains c1 held1 vs where "cache_exec add get release ops c1 held1 = Some (c', held')"
    "call_ok x c held c1 held1 vs"
    "cache_stored add get release (x # ops) c = vs @ cache_stored add get release ops c1"
proof -
  have inv: "inv c" using assms(2) by (simp add: counted_def)
  show thesis
  proof (cases x)
    case (Add k v)
    obtain r c1 where add: "add c k v = (r, c1)" by (cases "add c k v")
    show ?thesis
    proof (cases r)
      case None
      with add_None [OF inv] add have "c1 = c" by simp
      with None add Add exec assms(2) that [of c1 held "[]"] show ?thesis by (simp add: call_ok_def)
    next
      case (Some j)
      with counted_add [OF assms(2) _ assms(3), of k v j c1] add
      have "call_ok x c held c1 (held(j := held j + 1)) [v]" using Add by (auto simp: call_ok_def)
      with Some add Add exec that show ?thesis by simp
    qed
  next
    case (Get k)
    obtain r c1 where get: "get c k = (r, c1)" by (cases "get c k")
    show ?thesis
    proof (cases r)
      case None
      with get_None [OF inv] get have "c1 = c" by simp
      with None get Get exec assms(2) that [of c1 held "[]"] show ?thesis by (simp add: call_ok_def)
    next
      case (Some j)
      with counted_get [OF assms(2), of k j c1] get
      have "call_ok x c held c1 (held(j := held j + 1)) []" using Get by (auto simp: call_ok_def)
      with Some get Get exec that show ?thesis by simp
    qed
  next
    case (Release j)
    with exec have pos: "held j \<noteq> 0" by (auto split: if_splits)
    from counted_release [OF assms(2) this]
    have "call_ok x c held (release c j) (held(j := held j - 1)) []" using Release by (auto simp: call_ok_def)
    with pos Release exec that show ?thesis by simp
  qed
qed

lemma exec_run:
  assumes "cache_exec add get release ops c held = Some (c', held')" "counted c held"
    and "\<And>j. held j + length ops < 2 ^ 32"
  shows "counted c' held' \<and> (\<forall>j. held' j \<le> held j + length ops) \<and>
    (\<forall>j. 0 < held j \<longrightarrow> Release j \<notin> set ops \<longrightarrow> entry c' j = entry c j) \<and>
    mset (freed c') + live res (entry c') = mset (freed c) + live res (entry c) + mset (map res (cache_stored add get release ops c))"
  using assms
proof (induction ops arbitrary: c held)
  case (Cons x ops)
  have lt: "held j < 2 ^ 32" for j using Cons.prems(3) [of j] by simp
  obtain c1 held1 vs where one: "cache_exec add get release ops c1 held1 = Some (c', held')"
    "call_ok x c held c1 held1 vs"
    "cache_stored add get release (x # ops) c = vs @ cache_stored add get release ops c1"
    using exec_call [OF Cons.prems(1,2) lt] by blast
  have "held1 j + length ops < 2 ^ 32" for j
  proof -
    have "held1 j \<le> held j + 1" using one(2) by (simp add: call_ok_def)
    with Cons.prems(3) [of j] show ?thesis by simp
  qed
  then have "counted c' held' \<and> (\<forall>j. held' j \<le> held1 j + length ops) \<and>
    (\<forall>j. 0 < held1 j \<longrightarrow> Release j \<notin> set ops \<longrightarrow> entry c' j = entry c1 j) \<and>
    mset (freed c') + live res (entry c') = mset (freed c1) + live res (entry c1) + mset (map res (cache_stored add get release ops c1))"
    using one(2) by (intro Cons.IH [OF one(1)]) (auto simp: call_ok_def)
  moreover have "held1 j + length ops \<le> held j + length (x # ops)" for j
    using one(2) by (simp add: call_ok_def)
  ultimately show ?case using one(2,3) by (auto simp: call_ok_def ac_simps intro: order_trans)
qed simp

text \<open>
  Two runs one after the other: an entry referenced after the first one and not given back in the
  second one stays, and when no resource was stored twice, none is freed twice and no referenced
  entry's resource is freed.
\<close>

lemma exec_safe:
  assumes "counted c held" "\<And>j. held j = 0" "entry c = (\<lambda>_. None)" "freed c = []"
    and first: "cache_exec add get release ops c held = Some (c1, held1)"
    and second: "cache_exec add get release ops' c1 held1 = Some (c2, held2)"
    and "length ops + length ops' < 2 ^ 32" "0 < held1 j" "Release j \<notin> set ops'"
    and fresh: "distinct (map res (cache_stored add get release ops c) @ map res (cache_stored add get release ops' c1))"
  shows "entry c1 j \<noteq> None" "entry c2 j = entry c1 j" "distinct (freed c2)"
    "res (snd (the (entry c2 j))) \<notin> set (freed c2)"
proof -
  have "held i + length ops < 2 ^ 32" for i using assms(2,7) by simp
  note r1 = exec_run [OF first assms(1) this]
  have "held1 i + length ops' < 2 ^ 32" for i
  proof -
    have "held1 i \<le> held i + length ops" using r1 by blast
    with assms(2) [of i] assms(7) show ?thesis by linarith
  qed
  note r2 = exec_run [OF second conjunct1 [OF r1] this]
  show e1: "entry c1 j \<noteq> None" using r1 assms(8) by (auto simp: counted_def)
  show e2: "entry c2 j = entry c1 j" using r2 assms(8,9) by auto
  have "live res (entry c) = {#}" using assms(3) by (simp add: live_def)
  then have ledger: "mset (freed c2) + live res (entry c2) =
      mset (map res (cache_stored add get release ops c) @ map res (cache_stored add get release ops' c1))"
    using r1 r2 assms(4) by simp
  have "finite (dom (entry c2))" using r2 finite_entries by (auto simp: counted_def)
  with e1 e2 have in_live: "res (snd (the (entry c2 j))) \<in># live res (entry c2)"
    by (auto simp: live_def dom_def intro!: rev_image_eqI [of j])
  have one: "count (mset (freed c2) + live res (entry c2)) x \<le> 1" for x
    unfolding ledger using fresh by (simp add: distinct_count_atmost_1)
  then have "count (mset (freed c2)) x \<le> 1" for x
    using le_trans [OF le_add1] by (metis count_union)
  then show "distinct (freed c2)"
    by (metis (no_types) count_mset_0_iff distinct_count_atmost_1 le_Suc_eq One_nat_def le_zero_eq)
  have "1 \<le> count (live res (entry c2)) (res (snd (the (entry c2 j))))" using in_live by (simp add: Suc_leI)
  with one [of "res (snd (the (entry c2 j)))"] have "count (mset (freed c2)) (res (snd (the (entry c2 j)))) = 0"
    unfolding count_union by linarith
  then show "res (snd (the (entry c2 j))) \<notin> set (freed c2)" by (simp add: count_mset_0_iff)
qed

end

section \<open>Properties of the cache run by one thread\<close>

lemma get_entry_quiescent:
  assumes "quiescent n_bits buckets" "get_hash_cache_entry buckets n_bits uid = (r, buckets')"
  shows "quiescent n_bits buckets'"
proof (cases "uid = 0")
  case True
  with assms show ?thesis by (simp add: get_hash_cache_entry_def)
next
  case False
  show ?thesis
  proof (cases "find (\<lambda>j. b_uid (buckets ! j) = uid) (window n_bits uid)")
    case None
    with assms False show ?thesis by (simp add: get_entry_find)
  next
    case (Some j)
    then have "j < 2 ^ n_bits" by (auto dest: find_SomeD window_less)
    with Some assms False show ?thesis
      by (auto simp: get_entry_find quiescent_nth intro!: quiescent_update)
  qed
qed

lemma add_cases:
  assumes "n_bits < 64" "add_to_hash_cache buckets n_bits uid object cleanup s = (r, buckets', s')"
  obtains (full) "r = None" "buckets' = buckets" "s' = s"
      "uid = 0 \<or> (\<forall>j \<in> set (window n_bits uid). b_refcount (buckets ! j) \<noteq> 0)"
  | (stored) j b where "r = Some j" "uid \<noteq> 0" "j \<in> set (window n_bits uid)" "j < 2 ^ n_bits"
      "b_refcount (buckets ! j) = 0"
      "replace_entry cleanup uid object (buckets ! j) s = (b, s')" "buckets' = buckets[j := b]"
proof (cases "uid = 0")
  case True
  with assms full show ?thesis by (simp add: add_to_hash_cache_def)
next
  case False
  note eq = assms(2) [unfolded add_find [OF assms(1) False]]
  show ?thesis
  proof (cases "find (\<lambda>j. b_refcount (buckets ! j) = 0) (window n_bits uid)")
    case None
    with eq full show ?thesis by (auto simp: find_None_all)
  next
    case (Some j)
    obtain b s1 where b: "replace_entry cleanup uid object (buckets ! j) s = (b, s1)" by fastforce
    show ?thesis
      by (rule stored [of j b]) (use find_SomeD [OF Some] window_less [of j n_bits uid] eq Some b False in auto)
  qed
qed

lemma add_quiescent:
  assumes "quiescent n_bits buckets" "cleanup_ok cleanup"
    and "add_to_hash_cache buckets n_bits uid object cleanup s = (r, buckets', s')"
  shows "quiescent n_bits buckets'"
proof -
  have n: "n_bits < 64" using assms(1) by (simp add: quiescent_def)
  from n assms(3) show ?thesis
  proof (cases rule: add_cases)
    case (stored j b)
    with assms(1) quiescent_nth [OF assms(1), of j] replace_entry_fields(4) [OF assms(2) stored(6)]
    show ?thesis by (auto intro!: quiescent_update)
  qed (use assms in simp)
qed

text \<open>
  C29: \<open>get_hash_cache_entry_\<close> between operations finds an entry exactly when one of the buckets of
  the probe window holds the UID: it answers the first of them, takes one reference on it and
  changes nothing else; otherwise it answers nothing and changes nothing.
\<close>

theorem cache_lookup_correct:
  assumes "quiescent n_bits buckets" "uid \<noteq> 0"
  shows "case get_hash_cache_entry buckets n_bits uid of
      (None, buckets') \<Rightarrow> buckets' = buckets \<and> (\<forall>j \<in> set (window n_bits uid). b_uid (buckets ! j) \<noteq> uid)
    | (Some j, buckets') \<Rightarrow> j < length buckets \<and> b_uid (buckets ! j) = uid \<and>
        buckets' = buckets[j := (buckets ! j)\<lparr>b_refcount := b_refcount (buckets ! j) + 1\<rparr>] \<and>
        quiescent n_bits buckets' \<and> (\<exists>us vs. window n_bits uid = us @ j # vs \<and> (\<forall>i \<in> set us. b_uid (buckets ! i) \<noteq> uid))"
proof (cases "find (\<lambda>j. b_uid (buckets ! j) = uid) (window n_bits uid)")
  case None
  then have "get_hash_cache_entry buckets n_bits uid = (None, buckets)"
    using assms by (simp add: get_entry_find)
  with None show ?thesis by (simp add: find_None_all)
next
  case (Some j)
  then obtain i where i: "i < length (window n_bits uid)" "j = window n_bits uid ! i" "b_uid (buckets ! j) = uid"
    "\<forall>i' < i. b_uid (buckets ! (window n_bits uid ! i')) \<noteq> uid"
    by (auto simp: find_Some_iff)
  have "window n_bits uid = take i (window n_bits uid) @ j # drop (Suc i) (window n_bits uid)"
    using i id_take_nth_drop by metis
  moreover have "\<forall>i' \<in> set (take i (window n_bits uid)). b_uid (buckets ! i') \<noteq> uid"
    using i(1,4) by (fastforce simp: in_set_conv_nth)
  moreover have "j < length buckets"
    using i assms(1) window_less [of j n_bits uid] by (auto simp: quiescent_def)
  moreover have "get_hash_cache_entry buckets n_bits uid =
      (Some j, buckets[j := (buckets ! j)\<lparr>b_refcount := b_refcount (buckets ! j) + 1\<rparr>])"
    using Some assms by (simp add: get_entry_find)
  ultimately show ?thesis
    using i(3) get_entry_quiescent [OF assms(1)] by auto
qed

definition empty_bucket :: "'p \<Rightarrow> 'p bucket" where
  "empty_bucket p = \<lparr>b_uid = 0, b_refcount = 0, b_update_count = 0, b_payload = p\<rparr>"

lemma quiescent_empty: "n_bits < 64 \<Longrightarrow> quiescent n_bits (replicate (2 ^ n_bits) (empty_bucket p))"
  by (auto simp: quiescent_def empty_bucket_def)

lemma cache_lookup_correct_witness:
  "case get_hash_cache_entry ((replicate 4 (empty_bucket (0::nat)))[1 := \<lparr>b_uid = 5, b_refcount = 0, b_update_count = 2, b_payload = 7\<rparr>]) 2 5 of
      (None, buckets') \<Rightarrow> False
    | (Some j, buckets') \<Rightarrow> j = 1 \<and> b_refcount (buckets' ! 1) = 1"
proof -
  let ?bs = "(replicate 4 (empty_bucket (0::nat)))[1 := \<lparr>b_uid = 5, b_refcount = 0, b_update_count = 2, b_payload = 7\<rparr>]"
  have q: "quiescent 2 ?bs"
    by (rule quiescent_update) (use quiescent_empty [of 2 0] in \<open>simp_all\<close>)
  have "window 2 5 = [1, 2, 3]"
    by (simp add: window_def get_cache_bucket_def get_bucket_look_forward_def upt_rec push_bit_eq_mult)
  with cache_lookup_correct [OF q, of 5] show ?thesis
    by (auto simp: Cons_eq_append_conv split: prod.splits option.splits)
qed

lemma lookup_after_insert:
  assumes "quiescent n_bits buckets'" "uid \<noteq> 0" "j \<in> set (window n_bits uid)" "b_uid (buckets' ! j) = uid"
  obtains j' buckets'' where "get_hash_cache_entry buckets' n_bits uid = (Some j', buckets'')"
    "b_uid (buckets' ! j') = uid" "j' \<in> set (window n_bits uid)"
proof (cases "find (\<lambda>i. b_uid (buckets' ! i) = uid) (window n_bits uid)")
  case None
  with assms(3,4) show ?thesis by (auto simp: find_None_all)
next
  case (Some i)
  with find_SomeD [OF Some] assms(1,2) that show ?thesis by (simp add: get_entry_find)
qed



end
