(* ===== verification/Function_Cache.thy ===== *)
theory Function_Cache
  imports Hash_Cache
begin

text \<open>
  The cache of compiled functions of \<open>main.c\<close>: the payload of a bucket is a pointer to
  bytecode and its size, evicting an entry frees the bytecode. The state is the bucket array and
  the arguments of the calls of \<open>free\<close> so far.
\<close>

section \<open>Definitions\<close>

record CachedFunction =
  bytecode :: "nat option"
  bytecode_size :: nat

definition CACHED_FUNCTIONS_HASH_BITS_RELEASE :: nat where
  "CACHED_FUNCTIONS_HASH_BITS_RELEASE = 10"

type_synonym function_cache = "CachedFunction bucket list \<times> nat option list"

definition cleanup_unused_hash_cache_bucket ::
  "CachedFunction bucket \<Rightarrow> nat option list \<Rightarrow> CachedFunction bucket \<times> nat option list" where
  "cleanup_unused_hash_cache_bucket b frees =
     (b\<lparr>b_payload := (b_payload b)\<lparr>bytecode := None\<rparr>\<rparr>, frees @ [bytecode (b_payload b)])"

definition add_cached_function ::
  "nat \<Rightarrow> function_cache \<Rightarrow> u128 \<Rightarrow> CachedFunction \<Rightarrow> nat option \<times> function_cache" where
  "add_cached_function n_bits c uid to_add =
     (case c of (buckets, frees) \<Rightarrow>
        add_to_hash_cache buckets n_bits uid to_add (Some cleanup_unused_hash_cache_bucket) frees)"

definition get_cached_function :: "nat \<Rightarrow> function_cache \<Rightarrow> u128 \<Rightarrow> nat option \<times> function_cache" where
  "get_cached_function n_bits c uid =
     (case c of (buckets, frees) \<Rightarrow>
        case get_hash_cache_entry buckets n_bits uid of (b, buckets') \<Rightarrow> (b, buckets', frees))"

definition release_cached_function :: "function_cache \<Rightarrow> nat \<Rightarrow> function_cache" where
  "release_cached_function c j = (case c of (buckets, frees) \<Rightarrow> (decrement_hash_cache_bucket_refcount buckets j, frees))"

section \<open>The cache keeps its contract\<close>

definition fc_entry :: "nat \<Rightarrow> function_cache \<Rightarrow> nat \<Rightarrow> (u128 \<times> CachedFunction) option" where
  "fc_entry n_bits c j =
     (if j < 2 ^ n_bits \<and> b_uid (fst c ! j) \<noteq> 0 then Some (b_uid (fst c ! j), b_payload (fst c ! j)) else None)"

definition fc_pins :: "nat \<Rightarrow> function_cache \<Rightarrow> nat \<Rightarrow> u32" where
  "fc_pins n_bits c j = (if j < 2 ^ n_bits then b_refcount (fst c ! j) else 0)"

definition fc_empty :: "nat \<Rightarrow> function_cache" where
  "fc_empty n_bits = (replicate (2 ^ n_bits) (empty_bucket \<lparr>bytecode = None, bytecode_size = 0\<rparr>), [])"

lemma cleanup_unused_ok: "cleanup_ok (Some cleanup_unused_hash_cache_bucket)"
  by (auto simp: cleanup_ok_def cleanup_unused_hash_cache_bucket_def)

lemma add_cached_Some:
  assumes q: "quiescent n_bits (fst c)" and "add_cached_function n_bits c k v = (Some j, c')"
  shows "quiescent n_bits (fst c') \<and> fc_pins n_bits c j = 0 \<and> fc_pins n_bits c' = (fc_pins n_bits c)(j := 1) \<and>
    fc_entry n_bits c' = (fc_entry n_bits c)(j := Some (k, v)) \<and>
    snd c' = snd c @ old_value bytecode (fc_entry n_bits c j)"
proof -
  obtain bs fr where c: "c = (bs, fr)" by (cases c)
  obtain bs' fr' where add: "add_to_hash_cache bs n_bits k v (Some cleanup_unused_hash_cache_bucket) fr = (Some j, bs', fr')"
    and c': "c' = (bs', fr')"
    using assms(2) by (cases c') (auto simp: c add_cached_function_def)
  have n: "n_bits < 64" "length bs = 2 ^ n_bits" using q by (auto simp: c quiescent_def)
  have q': "quiescent n_bits bs'" using add_quiescent [OF _ cleanup_unused_ok add] q c by simp
  from n(1) add obtain b where st: "k \<noteq> 0" "j < 2 ^ n_bits" "b_refcount (bs ! j) = 0" "bs' = bs[j := b]"
    "replace_entry (Some cleanup_unused_hash_cache_bucket) k v (bs ! j) fr = (b, fr')"
    by (cases rule: add_cases) auto
  note f = replace_entry_fields [OF cleanup_unused_ok st(5)]
  have "fr' = fr @ old_value bytecode (fc_entry n_bits c j)"
    using f(5) st(2) by (auto simp: c fc_entry_def old_value_def cleanup_unused_hash_cache_bucket_def)
  moreover have "fc_pins n_bits c' = (fc_pins n_bits c)(j := 1)" "fc_entry n_bits c' = (fc_entry n_bits c)(j := Some (k, v))"
    using st f n by (auto simp: c c' fc_pins_def fc_entry_def fun_eq_iff nth_list_update)
  ultimately show ?thesis using q' st by (simp add: c c' fc_pins_def)
qed

lemma get_cached_Some:
  assumes q: "quiescent n_bits (fst c)" and "get_cached_function n_bits c k = (Some j, c')"
  shows "quiescent n_bits (fst c') \<and> (\<exists>v. fc_entry n_bits c j = Some (k, v)) \<and>
    fc_pins n_bits c' = (fc_pins n_bits c)(j := fc_pins n_bits c j + 1) \<and>
    fc_entry n_bits c' = fc_entry n_bits c \<and> snd c' = snd c"
proof -
  obtain bs fr where c: "c = (bs, fr)" by (cases c)
  obtain bs' where get: "get_hash_cache_entry bs n_bits k = (Some j, bs')" and c': "c' = (bs', fr)"
    using assms(2) by (auto simp: c get_cached_function_def split: prod.splits)
  have k: "k \<noteq> 0" using get by (auto simp: get_hash_cache_entry_def)
  have n: "length bs = 2 ^ n_bits" using q by (auto simp: c quiescent_def)
  have "find (\<lambda>j. b_uid (bs ! j) = k) (window n_bits k) = Some j"
    using get get_entry_find [of n_bits bs k] q k by (auto simp: c split: option.splits)
  from find_SomeD [OF this] window_less have j: "j < 2 ^ n_bits" "b_uid (bs ! j) = k" by auto
  have "bs' = bs[j := (bs ! j)\<lparr>b_refcount := b_refcount (bs ! j) + 1\<rparr>]"
    using get get_entry_find [of n_bits bs k] q k by (auto simp: c split: option.splits)
  with j n k get_entry_quiescent [OF _ get] q show ?thesis
    by (auto simp: c c' fc_pins_def fc_entry_def fun_eq_iff nth_list_update)
qed

lemma release_cached:
  assumes "quiescent n_bits (fst c)" "fc_entry n_bits c j \<noteq> None"
  shows "quiescent n_bits (fst (release_cached_function c j)) \<and>
    fc_pins n_bits (release_cached_function c j) = (fc_pins n_bits c)(j := fc_pins n_bits c j - 1) \<and>
    fc_entry n_bits (release_cached_function c j) = fc_entry n_bits c \<and> snd (release_cached_function c j) = snd c"
proof -
  obtain bs fr where c: "c = (bs, fr)" by (cases c)
  have j: "j < 2 ^ n_bits" "length bs = 2 ^ n_bits"
    using assms by (auto simp: c fc_entry_def quiescent_def split: if_splits)
  with assms(1) show ?thesis
    by (auto simp: c release_cached_function_def decrement_hash_cache_bucket_refcount_def fc_pins_def fc_entry_def
        fun_eq_iff nth_list_update quiescent_nth intro!: quiescent_update)
qed

lemma cached_None:
  "quiescent n_bits (fst c) \<Longrightarrow> add_cached_function n_bits c k v = (None, c') \<Longrightarrow> c' = c"
  "quiescent n_bits (fst c) \<Longrightarrow> get_cached_function n_bits c k = (None, c') \<Longrightarrow> c' = c"
proof -
  assume q: "quiescent n_bits (fst c)"
  show "add_cached_function n_bits c k v = (None, c') \<Longrightarrow> c' = c"
    using q by (cases c; cases c') (auto simp: add_cached_function_def quiescent_def elim: add_cases)
  show "get_cached_function n_bits c k = (None, c') \<Longrightarrow> c' = c"
    using q get_entry_find [of n_bits "fst c" k]
    by (cases "k = 0") (auto simp: get_cached_function_def get_hash_cache_entry_def split: prod.splits option.splits)
qed

lemma finite_entries: "finite (dom (fc_entry n_bits c))"
  by (rule finite_subset [of _ "{..< 2 ^ n_bits}"]) (auto simp: fc_entry_def split: if_splits)

interpretation fc: ref_cache "\<lambda>c. quiescent n_bits (fst c)" "fc_pins n_bits" "fc_entry n_bits" bytecode snd
  "add_cached_function n_bits" "get_cached_function n_bits" release_cached_function for n_bits
  by unfold_locales
     (erule (1) cached_None(1), erule (1) add_cached_Some, rule finite_entries, erule (1) cached_None(2),
      erule (1) get_cached_Some, erule (1) release_cached)

text \<open>A bucket that was never used owns no bytecode.\<close>

definition fc_clean :: "nat \<Rightarrow> function_cache \<Rightarrow> bool" where
  "fc_clean n_bits c \<longleftrightarrow> (\<forall>j < 2 ^ n_bits. b_uid (fst c ! j) = 0 \<longrightarrow> bytecode (b_payload (fst c ! j)) = None)"

lemma fc_clean_empty: "fc_clean n_bits (fc_empty n_bits)"
  by (simp add: fc_clean_def fc_empty_def empty_bucket_def)

lemma fc_clean_recount: "fc_clean n_bits (bs, fr) \<Longrightarrow> fc_clean n_bits (bs[j := (bs ! j)\<lparr>b_refcount := r\<rparr>], fr')"
proof -
  assume clean: "fc_clean n_bits (bs, fr)"
  let ?b = "(bs ! j)\<lparr>b_refcount := r\<rparr>"
  have "b_uid (bs[j := ?b] ! i) = b_uid (bs ! i) \<and> b_payload (bs[j := ?b] ! i) = b_payload (bs ! i)" for i
    by (cases "j < length bs"; cases "i = j") (simp_all add: list_update_beyond)
  with clean show ?thesis by (simp add: fc_clean_def)
qed

lemma fc_clean_release: "fc_clean n_bits c \<Longrightarrow> fc_clean n_bits (release_cached_function c j)"
  by (cases c) (simp add: release_cached_function_def decrement_hash_cache_bucket_refcount_def fc_clean_recount)

lemma fc_clean_get:
  assumes "quiescent n_bits (fst c)" "fc_clean n_bits c" "get_cached_function n_bits c k = (r, c')"
  shows "fc_clean n_bits c'"
proof (cases "k = 0")
  case True
  with assms show ?thesis by (auto simp: get_cached_function_def get_hash_cache_entry_def fc_clean_def split: prod.splits)
next
  case False
  with assms get_entry_find [of n_bits "fst c" k] show ?thesis
    by (cases c) (auto simp: get_cached_function_def fc_clean_recount split: option.splits)
qed

lemma fc_clean_add:
  assumes "quiescent n_bits (fst c)" "fc_clean n_bits c" "add_cached_function n_bits c k v = (r, c')"
  shows "fc_clean n_bits c'"
proof -
  have add: "add_to_hash_cache (fst c) n_bits k v (Some cleanup_unused_hash_cache_bucket) (snd c) = (r, fst c', snd c')"
    using assms(3) by (cases c; cases c') (simp add: add_cached_function_def)
  have n: "n_bits < 64" "length (fst c) = 2 ^ n_bits" using assms(1) by (auto simp: quiescent_def)
  from n(1) add show ?thesis
  proof (cases rule: add_cases)
    case full
    then show ?thesis using assms(2) by (simp add: fc_clean_def)
  next
    case (stored j b)
    from replace_entry_fields(1) [OF cleanup_unused_ok stored(6)] stored assms(2) n(2) show ?thesis
      by (auto simp: fc_clean_def nth_list_update)
  qed
qed

section \<open>Properties\<close>

text \<open>
  C15: The cache of compiled functions is memory safe when its operations do not overlap: in every
  legal sequence of fewer than \<open>2\<^sup>3\<^sup>2\<close> calls on an empty cache, an entry that is referenced after the
  first part of the sequence and not released in the second part keeps its UID and its bytecode
  pointer throughout; if no pointer was stored twice, none is passed to \<open>free\<close> twice, and the
  bytecode of a referenced entry is never freed.
\<close>

theorem function_cache_safe:
  assumes "n_bits < 64"
    and "cache_exec (add_cached_function n_bits) (get_cached_function n_bits) release_cached_function
      ops (fc_empty n_bits) (\<lambda>_. 0) = Some (c1, held1)"
    and "cache_exec (add_cached_function n_bits) (get_cached_function n_bits) release_cached_function
      ops' c1 held1 = Some (c2, held2)"
    and "length ops + length ops' < 2 ^ 32" "0 < held1 j" "Release j \<notin> set ops'"
    and "distinct
      (map bytecode (cache_stored (add_cached_function n_bits) (get_cached_function n_bits) release_cached_function
         ops (fc_empty n_bits)) @
       map bytecode (cache_stored (add_cached_function n_bits) (get_cached_function n_bits) release_cached_function
         ops' c1))"
  shows "fc_entry n_bits c1 j \<noteq> None \<and> fc_entry n_bits c2 j = fc_entry n_bits c1 j \<and> distinct (snd c2) \<and>
    bytecode (snd (the (fc_entry n_bits c2 j))) \<notin> set (snd c2)"
proof -
  have "fc_entry n_bits (fc_empty n_bits) = (\<lambda>_. None)" "snd (fc_empty n_bits) = []"
    by (auto simp: fc_entry_def fc_empty_def empty_bucket_def)
  moreover have "fc.counted n_bits (fc_empty n_bits) (\<lambda>_. 0)"
    using quiescent_empty [OF assms(1)] by (simp add: fc.counted_def fc_empty_def fc_pins_def empty_bucket_def)
  ultimately show ?thesis
    using fc.exec_safe [of n_bits "fc_empty n_bits" "\<lambda>_. 0" ops c1 held1 ops' c2 held2 j] assms(2-7) by simp
qed

definition sample_cache :: function_cache where
  "sample_cache =
     ((fst (fc_empty 2))[1 := \<lparr>b_uid = 5, b_refcount = 1, b_update_count = 2,
        b_payload = \<lparr>bytecode = Some 100, bytecode_size = 3\<rparr>\<rparr>], [])"

lemma sample_calls:
  "add_cached_function 2 (fc_empty 2) 5 \<lparr>bytecode = Some 100, bytecode_size = 3\<rparr> = (Some 1, sample_cache)"
  "fst (add_cached_function 2 sample_cache 9 \<lparr>bytecode = Some 200, bytecode_size = 4\<rparr>) = Some 2"
  by code_simp+

lemma function_cache_safe_witness:
  "\<exists>c2 held2. cache_exec (add_cached_function 2) (get_cached_function 2) release_cached_function
      [Add 9 \<lparr>bytecode = Some 200, bytecode_size = 4\<rparr>] sample_cache ((\<lambda>_. 0)(1 := 1)) = Some (c2, held2) \<and>
    fc_entry 2 c2 1 = fc_entry 2 sample_cache 1 \<and> Some 100 \<notin> set (snd c2)"
proof -
  let ?ops = "[Add 5 \<lparr>bytecode = Some 100, bytecode_size = 3\<rparr>]"
  let ?ops' = "[Add 9 \<lparr>bytecode = Some 200, bytecode_size = 4\<rparr>]"
  obtain c2 where c2: "add_cached_function 2 sample_cache 9 \<lparr>bytecode = Some 200, bytecode_size = 4\<rparr> = (Some 2, c2)"
    using sample_calls(2) by (metis prod.collapse)
  have first: "cache_exec (add_cached_function 2) (get_cached_function 2) release_cached_function ?ops (fc_empty 2) (\<lambda>_. 0) =
      Some (sample_cache, (\<lambda>_. 0)(1 := 1))"
    by (simp add: sample_calls)
  have second: "cache_exec (add_cached_function 2) (get_cached_function 2) release_cached_function ?ops'
      sample_cache ((\<lambda>_. 0)(1 := 1)) = Some (c2, (\<lambda>_. 0)(1 := 1, 2 := 1))"
    by (simp add: c2)
  have "fc_entry 2 sample_cache 1 \<noteq> None \<and> fc_entry 2 c2 1 = fc_entry 2 sample_cache 1 \<and> distinct (snd c2) \<and>
      bytecode (snd (the (fc_entry 2 c2 1))) \<notin> set (snd c2)"
    by (rule function_cache_safe [OF _ first second]) (simp_all add: sample_calls c2)
  moreover have "bytecode (snd (the (fc_entry 2 sample_cache 1))) = Some 100"
    by (simp add: fc_entry_def sample_cache_def fc_empty_def)
  ultimately show ?thesis using second by auto
qed

end
