(* ===== verification/Hash_Cache_Conc.thy ===== *)
theory Hash_Cache_Conc
  imports Hash_Cache
begin

text \<open>
  \<open>hash_cache.c\<close> run by several threads: every atomic access of \<open>add_to_hash_cache_\<close>,
  \<open>get_hash_cache_entry_\<close> and \<open>decrement_hash_cache_bucket_refcount\<close> is one step, and the
  steps of the threads interleave in any order (sequentially consistent memory). A thread's
  program counter says which access comes next and carries its local variables; \<open>is\<close> are the
  values of the loop index still to try.
\<close>

section \<open>Definitions\<close>

datatype 'p pc =
    Idle
  | AddCas u128 'p "nat list"
  | AddOdd u128 'p nat
  | AddClean u128 'p nat
  | AddCopy u128 'p nat
  | AddStore u128 nat
  | AddEven nat
  | GetLoad u128 "nat list" nat
  | GetUid u128 nat "nat list" nat u32
  | GetInc u128 nat "nat list" nat u32
  | GetCheck u128 nat "nat list" nat u32
  | GetDec u128 nat "nat list" nat
  | Hold nat

definition upd :: "'p bucket list \<Rightarrow> nat \<Rightarrow> ('p bucket \<Rightarrow> 'p bucket) \<Rightarrow> 'p bucket list" where
  "upd bs j f = bs[j := f (bs ! j)]"

text \<open>
  One atomic access of the thread at a program counter. \<open>GetUid\<close>, \<open>GetInc\<close>, \<open>GetCheck\<close> and
  \<open>GetDec\<close> are at loop index \<open>i\<close>, in try \<open>n\<close>, having loaded the count \<open>ub\<close>; \<open>Hold j\<close> has the
  reference to bucket \<open>j\<close> the call returned and gives it back in its next step.
\<close>

fun thread_step :: "nat \<Rightarrow> ('p \<Rightarrow> 'p) \<Rightarrow> 'p pc \<Rightarrow> 'p bucket list \<Rightarrow> 'p pc \<times> 'p bucket list" where
  "thread_step N cl Idle bs = (Idle, bs)"
| "thread_step N cl (AddCas uid ob []) bs = (Idle, bs)"
| "thread_step N cl (AddCas uid ob (i # is)) bs =
     (if b_refcount (bs ! (i mod N)) = 0
      then (AddOdd uid ob (i mod N), upd bs (i mod N) (\<lambda>b. b\<lparr>b_refcount := 1\<rparr>))
      else (AddCas uid ob is, bs))"
| "thread_step N cl (AddOdd uid ob j) bs =
     (AddClean uid ob j, upd bs j (\<lambda>b. b\<lparr>b_update_count := b_update_count b + 1\<rparr>))"
| "thread_step N cl (AddClean uid ob j) bs =
     (AddCopy uid ob j,
      if b_uid (bs ! j) \<noteq> 0 then upd bs j (\<lambda>b. b\<lparr>b_payload := cl (b_payload b)\<rparr>) else bs)"
| "thread_step N cl (AddCopy uid ob j) bs = (AddStore uid j, upd bs j (\<lambda>b. b\<lparr>b_payload := ob\<rparr>))"
| "thread_step N cl (AddStore uid j) bs = (AddEven j, upd bs j (\<lambda>b. b\<lparr>b_uid := uid\<rparr>))"
| "thread_step N cl (AddEven j) bs = (Hold j, upd bs j (\<lambda>b. b\<lparr>b_update_count := b_update_count b + 1\<rparr>))"
| "thread_step N cl (GetLoad uid [] n) bs = (Idle, bs)"
| "thread_step N cl (GetLoad uid (i # is) n) bs =
     (if n < LOW_CONTENTION_SPIN_LOCK_MAX_TRIES then
        if b_update_count (bs ! (i mod N)) mod 2 \<noteq> 0 then (GetLoad uid (i # is) (n + 1), bs)
        else (GetUid uid i is n (b_update_count (bs ! (i mod N))), bs)
      else (GetLoad uid is 0, bs))"
| "thread_step N cl (GetUid uid i is n ub) bs =
     (if uid \<noteq> b_uid (bs ! (i mod N)) then (GetLoad uid is 0, bs) else (GetInc uid i is n ub, bs))"
| "thread_step N cl (GetInc uid i is n ub) bs =
     (GetCheck uid i is n ub, upd bs (i mod N) (\<lambda>b. b\<lparr>b_refcount := b_refcount b + 1\<rparr>))"
| "thread_step N cl (GetCheck uid i is n ub) bs =
     (if ub \<noteq> b_update_count (bs ! (i mod N)) then (GetDec uid i is n, bs) else (Hold (i mod N), bs))"
| "thread_step N cl (GetDec uid i is n) bs =
     (GetLoad uid (i # is) (n + 1), upd bs (i mod N) (\<lambda>b. b\<lparr>b_refcount := b_refcount b + -1\<rparr>))"
| "thread_step N cl (Hold j) bs = (Idle, upd bs j (\<lambda>b. b\<lparr>b_refcount := b_refcount b + -1\<rparr>))"

text \<open>What the scheduler does: let a thread with nothing to do enter a call, or let one go on.\<close>

datatype 'p action = Call_add nat u128 'p | Call_get nat u128 | Run nat

type_synonym 'p cstate = "'p pc list \<times> 'p bucket list"

definition probe :: "nat \<Rightarrow> u128 \<Rightarrow> nat list" where
  "probe n_bits uid = [get_cache_bucket uid n_bits ..< get_cache_bucket uid n_bits + get_bucket_look_forward n_bits]"

fun act :: "nat \<Rightarrow> ('p \<Rightarrow> 'p) \<Rightarrow> 'p action \<Rightarrow> 'p cstate \<Rightarrow> 'p cstate option" where
  "act n_bits cl (Call_add t uid ob) (pcs, bs) =
     (case (t < length pcs, if t < length pcs then pcs ! t else Hold 0) of
        (True, Idle) \<Rightarrow> Some (pcs[t := if uid = 0 then Idle else AddCas uid ob (probe n_bits uid)], bs)
      | _ \<Rightarrow> None)"
| "act n_bits cl (Call_get t uid) (pcs, bs) =
     (case (t < length pcs, if t < length pcs then pcs ! t else Hold 0) of
        (True, Idle) \<Rightarrow> Some (pcs[t := if uid = 0 then Idle else GetLoad uid (probe n_bits uid) 0], bs)
      | _ \<Rightarrow> None)"
| "act n_bits cl (Run t) (pcs, bs) =
     (if t < length pcs
      then (let (p, bs') = thread_step (2 ^ n_bits) cl (pcs ! t) bs in Some (pcs[t := p], bs'))
      else None)"

inductive cstep :: "nat \<Rightarrow> ('p \<Rightarrow> 'p) \<Rightarrow> 'p cstate \<Rightarrow> 'p cstate \<Rightarrow> bool" for n_bits cl where
  cstep: "act n_bits cl a s = Some s' \<Longrightarrow> cstep n_bits cl s s'"

inductive creach :: "nat \<Rightarrow> ('p \<Rightarrow> 'p) \<Rightarrow> nat \<Rightarrow> 'p \<Rightarrow> 'p cstate \<Rightarrow> bool" for n_bits cl T p0 where
  creach_init: "creach n_bits cl T p0 (replicate T Idle, replicate (2 ^ n_bits) (empty_bucket p0))"
| creach_step: "creach n_bits cl T p0 s \<Longrightarrow> cstep n_bits cl s s' \<Longrightarrow> creach n_bits cl T p0 s'"

inductive_cases cstepE: "cstep n_bits cl s s'"

fun schedule :: "nat \<Rightarrow> ('p \<Rightarrow> 'p) \<Rightarrow> 'p action list \<Rightarrow> 'p cstate \<Rightarrow> 'p cstate option" where
  "schedule n_bits cl [] s = Some s"
| "schedule n_bits cl (a # as) s = (case act n_bits cl a s of None \<Rightarrow> None | Some s' \<Rightarrow> schedule n_bits cl as s')"

section \<open>Who refers to a bucket\<close>

text \<open>A writer is between its compare-and-exchange and its second increment of the count; it is
  inside the update once it has made the count odd.\<close>

fun writer :: "'p pc \<Rightarrow> nat \<Rightarrow> bool" where
  "writer (AddOdd uid ob k) j \<longleftrightarrow> k = j"
| "writer (AddClean uid ob k) j \<longleftrightarrow> k = j"
| "writer (AddCopy uid ob k) j \<longleftrightarrow> k = j"
| "writer (AddStore uid k) j \<longleftrightarrow> k = j"
| "writer (AddEven k) j \<longleftrightarrow> k = j"
| "writer _ j \<longleftrightarrow> False"

fun updating :: "'p pc \<Rightarrow> nat \<Rightarrow> bool" where
  "updating (AddOdd uid ob k) j \<longleftrightarrow> False"
| "updating p j \<longleftrightarrow> writer p j"

text \<open>The program counters that own one count of a bucket's reference count.\<close>

fun refers :: "nat \<Rightarrow> 'p pc \<Rightarrow> nat \<Rightarrow> bool" where
  "refers N (GetCheck uid i is n ub) j \<longleftrightarrow> i mod N = j"
| "refers N (GetDec uid i is n) j \<longleftrightarrow> i mod N = j"
| "refers N (Hold k) j \<longleftrightarrow> k = j"
| "refers N p j \<longleftrightarrow> writer p j"

fun slots_ok :: "nat \<Rightarrow> 'p pc \<Rightarrow> bool" where
  "slots_ok N (AddOdd uid ob k) \<longleftrightarrow> k < N"
| "slots_ok N (AddClean uid ob k) \<longleftrightarrow> k < N"
| "slots_ok N (AddCopy uid ob k) \<longleftrightarrow> k < N"
| "slots_ok N (AddStore uid k) \<longleftrightarrow> k < N"
| "slots_ok N (AddEven k) \<longleftrightarrow> k < N"
| "slots_ok N (Hold k) \<longleftrightarrow> k < N"
| "slots_ok N p \<longleftrightarrow> True"

lemma how_many_update_word:
  assumes "t < length pcs"
  shows "(of_nat (how_many P (pcs[t := p])) :: u32) = of_nat (how_many P pcs) - bit01 (P (pcs ! t)) + bit01 (P p)"
proof -
  have "(of_nat (how_many P (pcs[t := p]) + bit01 (P (pcs ! t))) :: u32) = of_nat (how_many P pcs + bit01 (P p))"
    by (simp only: how_many_update [OF assms])
  then show ?thesis by (auto simp: algebra_simps)
qed

lemma writer_refers: "writer p j \<Longrightarrow> refers N p j"
  by (cases p) auto

lemma updating_writer: "updating p j \<Longrightarrow> writer p j"
  by (cases p) auto

section \<open>What one access does\<close>

lemma upd_nth: "k < length bs \<Longrightarrow> upd bs j f ! k = (if k = j then f (bs ! k) else bs ! k)"
  by (simp add: upd_def nth_list_update)

lemma upd_length [simp]: "length (upd bs j f) = length bs"
  by (simp add: upd_def)

text \<open>
  The footprint of one access, for every bucket: the reference count follows the references the
  thread owns, the sequence count its being inside an update, a thread becomes a writer only on an
  unreferenced bucket, and only a writer changes a UID or a payload.
\<close>

lemma step_footprint:
  assumes "thread_step N cl p bs = (p', bs')" "length bs = N" "0 < N" "slots_ok N p" "j < N"
  shows "length bs' = N" "slots_ok N p'"
    and "b_refcount (bs' ! j) = b_refcount (bs ! j) - bit01 (refers N p j) + bit01 (refers N p' j)"
    and "even (b_update_count (bs' ! j) + bit01 (updating p' j)) = even (b_update_count (bs ! j) + bit01 (updating p j))"
    and "writer p' j \<Longrightarrow> writer p j \<or> b_refcount (bs ! j) = 0"
    and "writer p j \<or> b_uid (bs' ! j) = b_uid (bs ! j) \<and> b_payload (bs' ! j) = b_payload (bs ! j)"
proof -
  have "length bs' = N \<and> slots_ok N p' \<and>
    b_refcount (bs' ! j) = b_refcount (bs ! j) - bit01 (refers N p j) + bit01 (refers N p' j) \<and>
    even (b_update_count (bs' ! j) + bit01 (updating p' j)) = even (b_update_count (bs ! j) + bit01 (updating p j)) \<and>
    (writer p' j \<longrightarrow> writer p j \<or> b_refcount (bs ! j) = 0) \<and>
    (writer p j \<or> b_uid (bs' ! j) = b_uid (bs ! j) \<and> b_payload (bs' ! j) = b_payload (bs ! j))"
    using assms
    by (cases "(N, cl, p, bs)" rule: thread_step.cases)
       (auto simp: upd_nth split: if_splits intro!: mod_less_divisor)
  then show "length bs' = N" "slots_ok N p'"
    "b_refcount (bs' ! j) = b_refcount (bs ! j) - bit01 (refers N p j) + bit01 (refers N p' j)"
    "even (b_update_count (bs' ! j) + bit01 (updating p' j)) = even (b_update_count (bs ! j) + bit01 (updating p j))"
    "writer p' j \<Longrightarrow> writer p j \<or> b_refcount (bs ! j) = 0"
    "writer p j \<or> b_uid (bs' ! j) = b_uid (bs ! j) \<and> b_payload (bs' ! j) = b_payload (bs ! j)"
    by blast+
qed

section \<open>The invariant\<close>

definition cinv :: "nat \<Rightarrow> nat \<Rightarrow> 'p cstate \<Rightarrow> bool" where
  "cinv n_bits T s = (case s of (pcs, bs) \<Rightarrow>
     length pcs = T \<and> length bs = 2 ^ n_bits \<and> (\<forall>p \<in> set pcs. slots_ok (2 ^ n_bits) p) \<and>
     (\<forall>j < 2 ^ n_bits. b_refcount (bs ! j) = of_nat (how_many (\<lambda>p. refers (2 ^ n_bits) p j) pcs) \<and>
        how_many (\<lambda>p. writer p j) pcs \<le> 1 \<and>
        even (b_update_count (bs ! j) + of_nat (how_many (\<lambda>p. updating p j) pcs))))"

text \<open>Replacing an idle thread's program counter by one that refers to nothing changes no count.\<close>

lemma cinv_call:
  assumes "cinv n_bits T (pcs, bs)" "t < length pcs" "pcs ! t = Idle"
    and "\<And>j. \<not> refers (2 ^ n_bits) p j" "slots_ok (2 ^ n_bits) p"
  shows "cinv n_bits T (pcs[t := p], bs)"
proof -
  have w: "\<not> writer p j" "\<not> updating p j" for j
    using assms(4) writer_refers updating_writer by blast+
  have "how_many P (pcs[t := p]) = how_many P pcs" if "\<not> P p" "\<not> P Idle" for P
    using how_many_update [OF assms(2), of P p] that assms(3) by simp
  then have "how_many (\<lambda>p. refers (2 ^ n_bits) p j) (pcs[t := p]) = how_many (\<lambda>p. refers (2 ^ n_bits) p j) pcs"
    "how_many (\<lambda>p. writer p j) (pcs[t := p]) = how_many (\<lambda>p. writer p j) pcs"
    "how_many (\<lambda>p. updating p j) (pcs[t := p]) = how_many (\<lambda>p. updating p j) pcs" for j
    using assms(4) w by simp_all
  then show ?thesis
    using assms(1,5) by (auto simp: cinv_def dest!: set_update_subset_insert [THEN subsetD])
qed

lemma refcount_zero:
  assumes "cinv n_bits T (pcs, bs)" "T < 2 ^ 32" "j < 2 ^ n_bits" "b_refcount (bs ! j) = 0"
  shows "p \<in> set pcs \<Longrightarrow> \<not> refers (2 ^ n_bits) p j" "how_many (\<lambda>p. writer p j) pcs = 0"
proof -
  let ?m = "how_many (\<lambda>p. refers (2 ^ n_bits) p j) pcs"
  have "(of_nat ?m :: u32) = 0" "?m < 2 ^ 32"
    using assms how_many_le_length [of "\<lambda>p. refers (2 ^ n_bits) p j" pcs] by (auto simp: cinv_def)
  then have m: "?m = 0" by (rule of_nat_u32_zero)
  then show "p \<in> set pcs \<Longrightarrow> \<not> refers (2 ^ n_bits) p j" by (simp add: how_many_0)
  show "how_many (\<lambda>p. writer p j) pcs = 0"
    using how_many_mono [of "\<lambda>p. writer p j" "\<lambda>p. refers (2 ^ n_bits) p j" pcs] writer_refers m by fastforce
qed

lemma even_exchange: "even (a + bit01 x :: u32) = even (b + bit01 y) \<Longrightarrow> even (b + n) \<Longrightarrow> even (a + (n - bit01 y + bit01 x))"
  by (auto split: if_splits)

lemma cinv_run:
  assumes inv: "cinv n_bits T (pcs, bs)" and T: "T < 2 ^ 32" and t: "t < length pcs"
    and step: "thread_step (2 ^ n_bits) cl (pcs ! t) bs = (p', bs')"
  shows "cinv n_bits T (pcs[t := p'], bs')"
proof -
  let ?N = "2 ^ n_bits :: nat"
  have sl: "slots_ok ?N (pcs ! t)" "length bs = ?N" using inv t by (auto simp: cinv_def)
  note F = step_footprint [OF step sl(2) _ sl(1)]
  have len: "length bs' = ?N" "slots_ok ?N p'" using F(1,2) [of 0] by auto
  have "b_refcount (bs' ! j) = of_nat (how_many (\<lambda>p. refers ?N p j) (pcs[t := p'])) \<and>
      how_many (\<lambda>p. writer p j) (pcs[t := p']) \<le> 1 \<and>
      even (b_update_count (bs' ! j) + of_nat (how_many (\<lambda>p. updating p j) (pcs[t := p'])))"
    if j: "j < ?N" for j
  proof (intro conjI)
    have I: "b_refcount (bs ! j) = of_nat (how_many (\<lambda>p. refers ?N p j) pcs)"
      "how_many (\<lambda>p. writer p j) pcs \<le> 1"
      "even (b_update_count (bs ! j) + of_nat (how_many (\<lambda>p. updating p j) pcs))"
      using inv j by (auto simp: cinv_def)
    show "b_refcount (bs' ! j) = of_nat (how_many (\<lambda>p. refers ?N p j) (pcs[t := p']))"
      using F(3) [OF _ j] I(1) how_many_update_word [OF t, of "\<lambda>p. refers ?N p j" p'] by simp
    show "how_many (\<lambda>p. writer p j) (pcs[t := p']) \<le> 1"
    proof (cases "writer p' j \<and> \<not> writer (pcs ! t) j")
      case True
      with F(5) [OF _ j] have "b_refcount (bs ! j) = 0" by simp
      from refcount_zero(2) [OF inv T j this] how_many_update [OF t, of "\<lambda>p. writer p j" p'] True
      show ?thesis by simp
    next
      case False
      then show ?thesis using how_many_keeps [OF t, of "\<lambda>p. writer p j" p'] I(2) by auto
    qed
    show "even (b_update_count (bs' ! j) + of_nat (how_many (\<lambda>p. updating p j) (pcs[t := p'])))"
      unfolding how_many_update_word [OF t, of "\<lambda>p. updating p j" p']
      by (rule even_exchange [OF F(4) [OF _ j] I(3)]) simp
  qed
  with inv len show ?thesis
    by (auto simp: cinv_def dest!: set_update_subset_insert [THEN subsetD])
qed

lemma cinv_step:
  assumes "cinv n_bits T s" "T < 2 ^ 32" "cstep n_bits cl s s'"
  shows "cinv n_bits T s'"
proof -
  obtain a where a: "act n_bits cl a s = Some s'" using assms(3) by (auto elim: cstepE)
  obtain pcs bs where s: "s = (pcs, bs)" by (cases s)
  show ?thesis
  proof (cases a)
    case (Call_add t uid ob)
    then have "t < length pcs" "pcs ! t = Idle"
      "s' = (pcs[t := if uid = 0 then Idle else AddCas uid ob (probe n_bits uid)], bs)"
      using a s by (auto split: if_splits pc.splits)
    with assms(1) s show ?thesis by (auto intro!: cinv_call)
  next
    case (Call_get t uid)
    then have "t < length pcs" "pcs ! t = Idle"
      "s' = (pcs[t := if uid = 0 then Idle else GetLoad uid (probe n_bits uid) 0], bs)"
      using a s by (auto split: if_splits pc.splits)
    with assms(1) s show ?thesis by (auto intro!: cinv_call)
  next
    case (Run t)
    with a s cinv_run [of n_bits T pcs bs t cl] assms(1,2) show ?thesis
      by (auto split: if_splits prod.splits)
  qed
qed

lemma cinv_init: "cinv n_bits T (replicate T Idle, replicate (2 ^ n_bits) (empty_bucket p0))"
  by (auto simp: cinv_def how_many_def empty_bucket_def filter_replicate)

lemma creach_cinv: "creach n_bits cl T p0 s \<Longrightarrow> T < 2 ^ 32 \<Longrightarrow> cinv n_bits T s"
  by (induction rule: creach.induct) (auto intro: cinv_init cinv_step)

section \<open>A thread that runs alone\<close>

text \<open>The steps of one thread without interleaving, and that the scheduler can let it run so.\<close>

inductive alone :: "nat \<Rightarrow> ('p \<Rightarrow> 'p) \<Rightarrow> 'p pc \<times> 'p bucket list \<Rightarrow> 'p pc \<times> 'p bucket list \<Rightarrow> bool" for N cl where
  alone_refl: "alone N cl x x"
| alone_step: "alone N cl (thread_step N cl p bs) x \<Longrightarrow> alone N cl (p, bs) x"

lemma alone_trans: "alone N cl x y \<Longrightarrow> alone N cl y z \<Longrightarrow> alone N cl x z"
  by (induction rule: alone.induct) (auto intro: alone_step)

lemma alone_schedule:
  assumes "alone (2 ^ n_bits) cl x y" "t < length pcs"
  shows "\<exists>k. schedule n_bits cl (replicate k (Run t)) (pcs[t := fst x], snd x) = Some (pcs[t := fst y], snd y)"
  using assms
proof (induction rule: alone.induct)
  case (alone_refl x)
  have "schedule n_bits cl (replicate 0 (Run t)) (pcs[t := fst x], snd x) = Some (pcs[t := fst x], snd x)" by simp
  then show ?case by blast
next
  case (alone_step p bs x)
  then obtain k where k: "schedule n_bits cl (replicate k (Run t))
      (pcs[t := fst (thread_step (2 ^ n_bits) cl p bs)], snd (thread_step (2 ^ n_bits) cl p bs)) =
      Some (pcs[t := fst x], snd x)" by blast
  then have "schedule n_bits cl (replicate (Suc k) (Run t)) (pcs[t := fst (p, bs)], snd (p, bs)) =
      Some (pcs[t := fst x], snd x)"
    using alone_step.prems by (cases "thread_step (2 ^ n_bits) cl p bs") simp
  then show ?case by blast
qed

definition outcome :: "nat option \<Rightarrow> 'p pc" where
  "outcome r = (case r of Some j \<Rightarrow> Hold j | None \<Rightarrow> Idle)"

definition payload_cleanup :: "('p \<Rightarrow> 'p) \<Rightarrow> 'p bucket \<Rightarrow> unit \<Rightarrow> 'p bucket \<times> unit" where
  "payload_cleanup cl b s = (b\<lparr>b_payload := cl (b_payload b)\<rparr>, s)"

lemma alone_write:
  assumes "j < length bs" "b_refcount (bs ! j) = 0"
  shows "alone N cl (AddOdd uid ob j, bs[j := (bs ! j)\<lparr>b_refcount := 1\<rparr>])
    (Hold j, bs[j := fst (replace_entry (Some (payload_cleanup cl)) uid ob (bs ! j) s)])"
proof -
  have "fst (replace_entry (Some (payload_cleanup cl)) uid ob (bs ! j) s) =
      (bs ! j)\<lparr>b_uid := uid, b_refcount := 1, b_update_count := b_update_count (bs ! j) + 1 + 1, b_payload := ob\<rparr>"
    by (cases "bs ! j") (simp add: replace_entry_def payload_cleanup_def Let_def split: prod.splits)
  then show ?thesis
    using assms(1)
    by (cases "bs ! j") (auto simp: upd_def nth_list_update intro!: alone_step alone_refl)
qed

lemma alone_add:
  assumes "length bs = N" "0 < N"
  shows "alone N cl (AddCas uid ob is, bs)
    (case add_loop (Some (payload_cleanup cl)) uid ob N is bs () of (r, bs', s') \<Rightarrow> (outcome r, bs'))"
proof (induction "is")
  case Nil
  show ?case by (auto simp: outcome_def intro!: alone_step alone_refl)
next
  case (Cons i "is")
  show ?case
  proof (cases "b_refcount (bs ! (i mod N)) = 0")
    case True
    have "i mod N < length bs" using assms by simp
    from alone_step [of N cl "AddCas uid ob (i # is)" bs] alone_write [OF this True, of N cl uid ob "()"] True
    show ?thesis by (auto simp: outcome_def upd_def Let_def split: prod.splits)
  next
    case False
    with Cons alone_step [of N cl "AddCas uid ob (i # is)" bs] show ?thesis by (simp add: Let_def)
  qed
qed

lemma alone_get:
  assumes q: "quiescent n_bits bs"
  shows "alone (2 ^ n_bits) cl (GetLoad uid is 0, bs)
    (case get_loop uid (2 ^ n_bits) is bs of (r, bs') \<Rightarrow> (outcome r, bs'))"
proof (induction "is")
  case Nil
  show ?case by (auto simp: outcome_def intro!: alone_step alone_refl)
next
  case (Cons i "is")
  have j: "i mod 2 ^ n_bits < length bs" "even (b_update_count (bs ! (i mod 2 ^ n_bits)))"
    using q quiescent_nth [OF q, of "i mod 2 ^ n_bits"] by (auto simp: quiescent_def)
  note tries = get_tries_quiet [OF j(2), of uid]
  have 1: "alone (2 ^ n_bits) cl (GetLoad uid (i # is) 0, bs)
      (GetUid uid i is 0 (b_update_count (bs ! (i mod 2 ^ n_bits))), bs)"
    using j(2)
    by (intro alone_step) (simp add: LOW_CONTENTION_SPIN_LOCK_MAX_TRIES_def even_iff_mod_2_eq_zero alone_refl)
  show ?case
  proof (cases "uid = b_uid (bs ! (i mod 2 ^ n_bits))")
    case True
    have "alone (2 ^ n_bits) cl (GetUid uid i is 0 (b_update_count (bs ! (i mod 2 ^ n_bits))), bs)
        (Hold (i mod 2 ^ n_bits), upd bs (i mod 2 ^ n_bits) (\<lambda>b. b\<lparr>b_refcount := b_refcount b + 1\<rparr>))"
      using True j(1) by (auto simp: upd_nth intro!: alone_step alone_refl)
    with 1 True tries show ?thesis
      by (auto simp: outcome_def upd_def Let_def intro: alone_trans)
  next
    case False
    have "alone (2 ^ n_bits) cl (GetUid uid i is 0 (b_update_count (bs ! (i mod 2 ^ n_bits))), bs) (GetLoad uid is 0, bs)"
      using False by (auto intro!: alone_step alone_refl)
    with 1 Cons False tries show ?thesis by (auto simp: Let_def intro: alone_trans)
  qed
qed

section \<open>Properties of the concurrent cache\<close>

text \<open>
  C14: In every state fewer than \<open>2\<^sup>3\<^sup>2\<close> threads can reach, however their steps interleave, each
  bucket's reference count is the number of threads that own a reference to it, at most one thread
  is writing to it, and its sequence count is odd exactly while a thread is inside an update of it.
\<close>

theorem cache_counts_exact:
  assumes "creach n_bits cl T p0 (pcs, bs)" "T < 2 ^ 32" "j < 2 ^ n_bits"
  shows "b_refcount (bs ! j) = of_nat (length (filter (\<lambda>p. refers (2 ^ n_bits) p j) pcs)) \<and>
    length (filter (\<lambda>p. writer p j) pcs) \<le> 1 \<and>
    (odd (b_update_count (bs ! j)) \<longleftrightarrow> (\<exists>p \<in> set pcs. updating p j))"
proof -
  have I: "b_refcount (bs ! j) = of_nat (how_many (\<lambda>p. refers (2 ^ n_bits) p j) pcs)"
    "how_many (\<lambda>p. writer p j) pcs \<le> 1"
    "even (b_update_count (bs ! j) + of_nat (how_many (\<lambda>p. updating p j) pcs))"
    using creach_cinv [OF assms(1,2)] assms(3) by (auto simp: cinv_def)
  have "how_many (\<lambda>p. updating p j) pcs \<le> 1"
    using how_many_mono [of "\<lambda>p. updating p j" "\<lambda>p. writer p j" pcs] updating_writer I(2) by fastforce
  then consider "how_many (\<lambda>p. updating p j) pcs = 0" | "how_many (\<lambda>p. updating p j) pcs = 1" by linarith
  then have "odd (b_update_count (bs ! j)) \<longleftrightarrow> how_many (\<lambda>p. updating p j) pcs \<noteq> 0"
    using I(3) by cases auto
  with I show ?thesis by (auto simp: how_many_0) (auto simp: how_many_def)
qed

text \<open>A thread that holds a reference to a bucket nobody writes to, across one step of the system.\<close>

lemma pinned_step:
  assumes inv: "cinv n_bits T (pcs, bs)" and T: "T < 2 ^ 32" and j: "j < 2 ^ n_bits"
    and held: "t < length pcs" "pcs ! t = Hold j" "\<And>p. p \<in> set pcs \<Longrightarrow> \<not> writer p j"
    and step: "cstep n_bits cl (pcs, bs) (pcs', bs')" and still: "pcs' ! t = Hold j"
  shows "(\<forall>p \<in> set pcs'. \<not> writer p j) \<and> b_uid (bs' ! j) = b_uid (bs ! j) \<and> b_payload (bs' ! j) = b_payload (bs ! j)"
proof -
  have pinned: "b_refcount (bs ! j) \<noteq> 0"
    using refcount_zero(1) [OF inv T j, of "Hold j"] held(1,2) nth_mem by fastforce
  obtain a where a: "act n_bits cl a (pcs, bs) = Some (pcs', bs')" using step by (auto elim: cstepE)
  show ?thesis
  proof (cases a)
    case (Run u)
    then obtain p where p: "u < length pcs" "thread_step (2 ^ n_bits) cl (pcs ! u) bs = (p, bs')" "pcs' = pcs[u := p]"
      using a by (auto split: if_splits prod.splits)
    have sl: "slots_ok (2 ^ n_bits) (pcs ! u)" "length bs = 2 ^ n_bits" using inv p(1) by (auto simp: cinv_def)
    have "\<not> writer (pcs ! u) j" using held(3) p(1) by simp
    with step_footprint(5,6) [OF p(2) sl(2) _ sl(1) j] pinned
    have "\<not> writer p j" "b_uid (bs' ! j) = b_uid (bs ! j) \<and> b_payload (bs' ! j) = b_payload (bs ! j)" by auto
    with held(3) p(3) show ?thesis by (auto dest!: set_update_subset_insert [THEN subsetD])
  qed (use a held(3) in \<open>auto split: if_splits pc.splits dest!: set_update_subset_insert [THEN subsetD]\<close>)
qed

text \<open>
  C13: An entry is safe from eviction while it is held: from any reachable state in which a thread
  holds a reference to a bucket that no thread is writing to, as long as that thread keeps its
  reference, no other thread starts to write to the bucket and its UID and payload stay what they
  are, whatever steps the threads take.
\<close>

theorem pinned_entry_stable:
  assumes "creach n_bits cl T p0 (pcs, bs)" "T < 2 ^ 32" "j < 2 ^ n_bits" "t < T" "pcs ! t = Hold j"
    and "\<forall>p \<in> set pcs. \<not> writer p j"
    and "(\<lambda>s s'. cstep n_bits cl s s' \<and> fst s' ! t = Hold j)\<^sup>*\<^sup>* (pcs, bs) (pcs', bs')"
  shows "(\<forall>p \<in> set pcs'. \<not> writer p j) \<and> b_uid (bs' ! j) = b_uid (bs ! j) \<and> b_payload (bs' ! j) = b_payload (bs ! j)"
proof -
  have "cinv n_bits T (pcs', bs') \<and> pcs' ! t = Hold j \<and> (\<forall>p \<in> set pcs'. \<not> writer p j) \<and>
      b_uid (bs' ! j) = b_uid (bs ! j) \<and> b_payload (bs' ! j) = b_payload (bs ! j)"
    using assms(7)
  proof (induction rule: rtranclp_induct2)
    case refl
    then show ?case using creach_cinv [OF assms(1,2)] assms(5,6) by simp
  next
    case (step pcs1 bs1 pcs2 bs2)
    have "t < length pcs1" using step.IH assms(4) by (simp add: cinv_def)
    with pinned_step [of n_bits T pcs1 bs1 j t cl pcs2 bs2] cinv_step [of n_bits T "(pcs1, bs1)" cl "(pcs2, bs2)"]
      step assms(2,3) show ?case by auto
  qed
  then show ?thesis by blast
qed

lemma schedule_creach:
  "schedule n_bits cl as s = Some s' \<Longrightarrow> creach n_bits cl T p0 s \<Longrightarrow> creach n_bits cl T p0 s'"
proof (induction as arbitrary: s)
  case (Cons a as)
  then obtain s1 where "act n_bits cl a s = Some s1" "schedule n_bits cl as s1 = Some s'"
    by (auto split: option.splits)
  with Cons show ?case by (blast intro: creach_step cstep)
qed simp

definition start_state :: "nat \<Rightarrow> nat \<Rightarrow> 'p \<Rightarrow> 'p cstate" where
  "start_state n_bits T p0 = (replicate T Idle, replicate (2 ^ n_bits) (empty_bucket p0))"

lemma start_creach: "creach n_bits cl T p0 (start_state n_bits T p0)"
  by (simp add: start_state_def creach_init)

text \<open>
  Two threads and two buckets; a payload is the address of bytecode, freed bytecode is 0. Thread 0
  stores function 1 at address 100, then lets go of it.
\<close>

definition stored_once :: "nat cstate" where
  "stored_once = ([Idle, Idle], [empty_bucket 0, \<lparr>b_uid = 1, b_refcount = 0, b_update_count = 2, b_payload = 100\<rparr>])"

definition held_once :: "nat cstate" where
  "held_once = ([Hold 1, Idle], [empty_bucket 0, \<lparr>b_uid = 1, b_refcount = 1, b_update_count = 2, b_payload = 100\<rparr>])"

lemma sample_schedules:
  "schedule 1 (\<lambda>_. 0) (Call_add 0 1 100 # replicate 6 (Run 0)) (start_state 1 2 0) = Some held_once"
  "schedule 1 (\<lambda>_. 0) [Run 0] held_once = Some stored_once"
  "schedule 1 (\<lambda>_. 0) [Call_add 1 3 200, Run 1, Run 1] held_once = Some held_once"
  by code_simp+

lemma cache_counts_exact_witness:
  "b_refcount (snd held_once ! 1) = 1 \<and> even (b_update_count (snd held_once ! 1))"
proof -
  have "creach 1 (\<lambda>_. 0) 2 0 (fst held_once, snd held_once)"
    using schedule_creach [OF sample_schedules(1) start_creach] by simp
  from cache_counts_exact [OF this, of 1] show ?thesis by (simp add: held_once_def)
qed

lemma pinned_entry_stable_witness:
  "\<exists>bs. schedule 1 (\<lambda>_. 0) [Call_add 1 3 200, Run 1] held_once = Some ([Hold 1, AddCas 3 200 []], bs) \<and>
     b_uid (bs ! 1) = 1 \<and> b_payload (bs ! 1) = 100"
proof -
  have r: "creach 1 (\<lambda>_. 0) 2 0 (fst held_once, snd held_once)"
    using schedule_creach [OF sample_schedules(1) start_creach] by simp
  have s1: "act 1 (\<lambda>_. 0) (Call_add 1 3 200) held_once = Some ([Hold 1, AddCas 3 200 [1]], snd held_once)"
    and s2: "act 1 (\<lambda>_. 0) (Run 1) ([Hold 1, AddCas 3 200 [1]], snd held_once) = Some ([Hold 1, AddCas 3 200 []], snd held_once)"
    by code_simp+
  let ?R = "\<lambda>s s'. cstep 1 (\<lambda>_. 0 :: nat) s s' \<and> fst s' ! 0 = Hold 1"
  have "?R held_once ([Hold 1, AddCas 3 200 [1]], snd held_once)" using cstep [OF s1] by simp
  moreover have "?R ([Hold 1, AddCas 3 200 [1]], snd held_once) ([Hold 1, AddCas 3 200 []], snd held_once)"
    using cstep [OF s2] by simp
  ultimately have "?R\<^sup>*\<^sup>* held_once ([Hold 1, AddCas 3 200 []], snd held_once)"
    by (rule converse_rtranclp_into_rtranclp [where r = ?R, OF _ r_into_rtranclp [where r = ?R]])
  then have "b_uid (snd held_once ! 1) = 1 \<and> b_payload (snd held_once ! 1) = 100"
    using pinned_entry_stable [OF r, of 1 0 "[Hold 1, AddCas 3 200 []]" "snd held_once"]
    by (simp add: held_once_def)
  with s1 s2 show ?thesis by simp
qed

text \<open>
  The window between the compare-and-exchange and the first increment of the sequence count is not
  covered: a reader that checks the count there returns a bucket that is about to be overwritten.
  Thread 0 looks up function 1 and has matched the UID; thread 1 claims the bucket for function 3;
  thread 0 takes its reference, finds the count unchanged and returns; thread 1 then frees the
  bytecode at 100 and stores 200. Thread 0 holds the entry of another function.
\<close>

lemma reader_race:
  "\<exists>as pcs bs. schedule 1 (\<lambda>_. 0) as stored_once = Some (pcs, bs) \<and> creach 1 (\<lambda>_. 0) 2 0 (pcs, bs) \<and>
     hd as = Call_get 0 1 \<and> pcs ! 0 = Hold 1 \<and> b_uid (bs ! 1) = 3 \<and> b_payload (bs ! 1) = 200"
proof -
  let ?as = "[Call_get 0 1, Run 0, Run 0, Call_add 1 3 200, Run 1, Run 0, Run 0] @ replicate 5 (Run 1)"
  have s: "schedule 1 (\<lambda>_. 0) ?as stored_once =
      Some ([Hold 1, Hold 1], [empty_bucket 0, \<lparr>b_uid = 3, b_refcount = 2, b_update_count = 4, b_payload = 200\<rparr>])"
    by code_simp
  have "creach 1 (\<lambda>_. 0) 2 0 stored_once"
    using schedule_creach [OF sample_schedules(2)] schedule_creach [OF sample_schedules(1) start_creach] by blast
  from schedule_creach [OF s this] s show ?thesis
    by (intro exI [of _ ?as] exI conjI) (assumption, assumption, simp_all)
qed

text \<open>
  C31: The step model and the sequential model are one program: from a quiescent state, a thread
  whose call is not interleaved with other steps reaches, after finitely many of its own steps,
  exactly the result and the buckets that the sequential \<open>add_to_hash_cache_\<close> or
  \<open>get_hash_cache_entry_\<close> computes.
\<close>

theorem alone_is_sequential:
  assumes "quiescent n_bits bs" "t < length pcs" "pcs ! t = Idle"
    and "add_to_hash_cache bs n_bits uid ob (Some (payload_cleanup cl)) () = (r, bs', s')"
    and "get_hash_cache_entry bs n_bits uid = (r2, bs2)"
  shows "(\<exists>k. schedule n_bits cl (Call_add t uid ob # replicate k (Run t)) (pcs, bs) = Some (pcs[t := outcome r], bs')) \<and>
    (\<exists>k. schedule n_bits cl (Call_get t uid # replicate k (Run t)) (pcs, bs) = Some (pcs[t := outcome r2], bs2))"
proof (rule conjI)
  have n: "n_bits < 64" "length bs = 2 ^ n_bits" using assms(1) by (auto simp: quiescent_def)
  show "\<exists>k. schedule n_bits cl (Call_add t uid ob # replicate k (Run t)) (pcs, bs) = Some (pcs[t := outcome r], bs')"
  proof (cases "uid = 0")
    case True
    with assms(2-4) show ?thesis
      by (intro exI [of _ 0]) (simp add: add_to_hash_cache_def outcome_def)
  next
    case False
    have "alone (2 ^ n_bits) cl (AddCas uid ob (probe n_bits uid), bs) (outcome r, bs')"
      using alone_add [of bs "2 ^ n_bits" cl uid ob "probe n_bits uid"] n assms(4) False
      by (simp add: add_to_hash_cache_def n_buckets probe_def Let_def)
    from alone_schedule [OF this assms(2)] False assms(2,3) show ?thesis by simp
  qed
  show "\<exists>k. schedule n_bits cl (Call_get t uid # replicate k (Run t)) (pcs, bs) = Some (pcs[t := outcome r2], bs2)"
  proof (cases "uid = 0")
    case True
    with assms(2,3,5) show ?thesis
      by (intro exI [of _ 0]) (simp add: get_hash_cache_entry_def outcome_def)
  next
    case False
    have "alone (2 ^ n_bits) cl (GetLoad uid (probe n_bits uid) 0, bs) (outcome r2, bs2)"
      using alone_get [OF assms(1), of cl uid "probe n_bits uid"] n assms(5) False
      by (simp add: get_hash_cache_entry_def n_buckets probe_def Let_def)
    from alone_schedule [OF this assms(2)] False assms(2,3) show ?thesis by simp
  qed
qed

lemma alone_is_sequential_witness:
  "\<exists>k. schedule 1 (\<lambda>_. 0) (Call_get 0 1 # replicate k (Run 0)) (fst stored_once, snd stored_once) =
     Some ((fst stored_once)[0 := outcome (Some 1)], snd held_once)"
proof -
  have q: "quiescent 1 (snd stored_once)"
    by (simp add: quiescent_def stored_once_def empty_bucket_def)
  have idle: "0 < length (fst stored_once)" "fst stored_once ! 0 = Idle"
    by (simp_all add: stored_once_def)
  have get: "get_hash_cache_entry (snd stored_once) 1 1 = (Some 1, snd held_once)"
    by code_simp
  obtain r bs' s' where add: "add_to_hash_cache (snd stored_once) 1 1 0 (Some (payload_cleanup (\<lambda>_. 0))) () = (r, bs', s')"
    by (rule prod_cases3)
  show ?thesis by (rule alone_is_sequential [OF q idle add get, THEN conjunct2])
qed

end
