(* ===== verification/Wait_Group.thy ===== *)
theory Wait_Group
  imports Utils "HOL-Library.Signed_Division"
begin

text \<open>
  \<open>wait_group.c\<close>: a counter that threads bring down and one thread waits on with a deadline. First
  the functions as one thread runs them, with the results of the pthread calls as parameters (all
  three branches of the wait); then the waiter and the incrementing threads as processes that
  interleave at every access to the counter, the mutex and the condition variable.
\<close>

section \<open>Definitions\<close>

definition WAIT_ETIMEDOUT :: int where
  "WAIT_ETIMEDOUT = 110"

text \<open>The results of the calls of \<open>wait_group_init\<close>, in order; the second component is the counter.\<close>

definition wait_group_init :: "int \<Rightarrow> int \<Rightarrow> int \<Rightarrow> int \<Rightarrow> int \<Rightarrow> int \<Rightarrow> int \<times> int option" where
  "wait_group_init attr_init setclock cond_init attr_destroy mutex_init n_waiting_for =
     (if attr_init \<noteq> 0 then (-1, None)
      else if setclock \<noteq> 0 then (-1, None)
      else if cond_init \<noteq> 0 then (-1, None)
      else if attr_destroy \<noteq> 0 then (-1, None)
      else (mutex_init, Some n_waiting_for))"

definition crosses_zero :: "int \<Rightarrow> int \<Rightarrow> bool" where
  "crosses_zero previous_value n \<longleftrightarrow> previous_value > 0 \<and> previous_value \<le> n"

text \<open>Result, counter after the call, and whether the condition was signalled.\<close>

definition wait_group_inc :: "int \<Rightarrow> int \<Rightarrow> int \<Rightarrow> int \<Rightarrow> int \<Rightarrow> int \<times> int \<times> bool" where
  "wait_group_inc lock_r signal_r unlock_r n_remaining n =
     (let previous_value = n_remaining; n_remaining' = n_remaining + - n in
      if crosses_zero previous_value n then
        if lock_r \<noteq> 0 then (lock_r, n_remaining', False)
        else if signal_r \<noteq> 0 then (signal_r, n_remaining', False)
        else (unlock_r, n_remaining', True)
      else (0, n_remaining', False))"

text \<open>The absolute deadline: nanoseconds normalised below a second.\<close>

definition wait_deadline :: "timespec \<Rightarrow> u64 \<Rightarrow> timespec" where
  "wait_deadline now timeout_ns =
     (let ns = tv_nsec now + timeout_ns
      in \<lparr>tv_sec = tv_sec now + word_of_int (sint ns sdiv 1000000000),
          tv_nsec = word_of_int (sint ns smod 1000000000)\<rparr>)"

definition wait_group_n_remaining :: "int \<Rightarrow> int" where
  "wait_group_n_remaining n_remaining = n_remaining"

text \<open>
  The waiting loop where there is a monotonic timed wait: each round is the result of
  \<open>pthread_cond_timedwait\<close> and the counter the next load sees; \<open>None\<close> is a loop that has not ended
  within the rounds given.
\<close>

fun wait_rounds :: "(int \<times> int) list \<Rightarrow> int \<Rightarrow> (int \<times> int) option" where
  "wait_rounds rounds n_remaining =
     (if n_remaining > 0 then
        (case rounds of
           [] \<Rightarrow> None
         | (r, n') # rest \<Rightarrow> if r \<noteq> 0 then Some (r, n') else wait_rounds rest n')
      else Some (0, n_remaining))"

text \<open>The loop compiled on macOS: relative waits, each half as long as the one before.\<close>

fun apple_rounds :: "u64 \<Rightarrow> (u64 \<Rightarrow> int \<times> int) list \<Rightarrow> int \<Rightarrow> (int \<times> int) option" where
  "apple_rounds slice_ns rounds n_remaining =
     (if n_remaining > 0 then
        (case rounds of
           [] \<Rightarrow> None
         | timedwait # rest \<Rightarrow>
             (case timedwait slice_ns of (r, n') \<Rightarrow>
              if r \<noteq> 0 then Some (r, n') else apple_rounds (slice_ns div 2) rest n'))
      else Some (0, n_remaining))"

text \<open>
  The loop compiled elsewhere: sleep, read the clock, give up when the timeout has passed. A round is
  the clock's answer and the counter after it; \<open>useconds_t\<close> has 32 bits. The boolean says whether the
  mutex is still held when the loop ends.
\<close>

fun poll_rounds :: "timespec \<Rightarrow> u64 \<Rightarrow> u32 \<Rightarrow> (timespec option \<times> int) list \<Rightarrow> int \<Rightarrow> (int \<times> bool) option" where
  "poll_rounds start_time timeout_ns waited rounds n_remaining =
     (if n_remaining > 0 then
        (case rounds of
           [] \<Rightarrow> None
         | (None, n') # rest \<Rightarrow> Some (-1, False)
         | (Some current_time, n') # rest \<Rightarrow>
             let to_wait = waited;
                 waited' = waited + max 1 to_wait;
                 sec = tv_sec current_time - tv_sec start_time;
                 nsec = tv_nsec current_time - tv_nsec start_time;
                 (elapsed_sec, elapsed_nsec) = (if nsec <s 0 then (sec - 1, nsec + 1000000000) else (sec, nsec))
             in if timeout_ns div 1000000000 < elapsed_sec \<or>
                   elapsed_sec = timeout_ns div 1000000000 \<and> timeout_ns mod 1000000000 \<le> elapsed_nsec
                then Some (-1, True)
                else poll_rounds start_time timeout_ns waited' rest n')
      else Some (0, True))"

text \<open>What the platform's branch needs: the rounds, and the first reading of the clock where there is one.\<close>

datatype wait_platform =
    Timedwait "timespec option" "timespec \<Rightarrow> (int \<times> int) list"
  | Timedwait_relative "(u64 \<Rightarrow> int \<times> int) list"
  | Usleep "timespec option" "(timespec option \<times> int) list"

text \<open>The result, and whether the mutex is still locked by the caller.\<close>

definition wait_group_timed_wait :: "wait_platform \<Rightarrow> u64 \<Rightarrow> int \<Rightarrow> int \<Rightarrow> int \<Rightarrow> (int \<times> bool) option" where
  "wait_group_timed_wait platform timeout_ns lock_r unlock_r n_remaining =
     (if lock_r \<noteq> 0 then Some (lock_r, False)
      else if n_remaining = 0 then Some (unlock_r, False)
      else
        let finish = (\<lambda>res. case res of None \<Rightarrow> None
              | Some (r, n) \<Rightarrow> if r \<noteq> 0 then Some (r, False) else Some (unlock_r, False))
        in case platform of
          Timedwait_relative rounds \<Rightarrow> finish (apple_rounds (min 1000000 timeout_ns) rounds n_remaining)
        | Timedwait None rounds \<Rightarrow> Some (-1, False)
        | Timedwait (Some now) rounds \<Rightarrow> finish (wait_rounds (rounds (wait_deadline now timeout_ns)) n_remaining)
        | Usleep None rounds \<Rightarrow> Some (-1, False)
        | Usleep (Some start_time) rounds \<Rightarrow>
            (case poll_rounds start_time timeout_ns 1 rounds n_remaining of
               None \<Rightarrow> None
             | Some (r, held) \<Rightarrow> if r \<noteq> 0 then Some (r, held) else Some (unlock_r, False)))"

definition wait_group_destroy :: "int \<Rightarrow> int \<Rightarrow> int" where
  "wait_group_destroy r1 r2 = (if r1 = 0 \<and> r2 = 0 then 0 else -1)"

subsection \<open>The processes\<close>

text \<open>Where an incrementing thread is in \<open>wait_group_inc\<close>, and the waiter in \<open>wait_group_timed_wait\<close>.\<close>

datatype inc_pc = I_dec | I_lock | I_signal | I_unlock | I_done

datatype wait_pc =
    W_lock | W_first | W_loop | W_enter | W_sleep | W_relock int | W_unlock int | W_ret int

datatype mutex = Free | By_waiter | By_inc nat

record wg_state =
  n_remaining :: int
  owner :: mutex
  wpc :: wait_pc
  ipcs :: "inc_pc list"

text \<open>
  One step. \<open>amounts\<close> are the second arguments of the calls of \<open>wait_group_inc\<close>. While asleep the
  waiter may be woken spuriously or time out; a woken waiter takes the mutex before it goes on.
\<close>

inductive wg_step :: "int list \<Rightarrow> wg_state \<Rightarrow> wg_state \<Rightarrow> bool" for amounts where
  inc_dec: "i < length (ipcs s) \<Longrightarrow> ipcs s ! i = I_dec \<Longrightarrow>
    wg_step amounts s (s\<lparr>n_remaining := n_remaining s - amounts ! i,
      ipcs := (ipcs s)[i := if crosses_zero (n_remaining s) (amounts ! i) then I_lock else I_done]\<rparr>)"
| inc_lock: "i < length (ipcs s) \<Longrightarrow> ipcs s ! i = I_lock \<Longrightarrow> owner s = Free \<Longrightarrow>
    wg_step amounts s (s\<lparr>owner := By_inc i, ipcs := (ipcs s)[i := I_signal]\<rparr>)"
| inc_signal: "i < length (ipcs s) \<Longrightarrow> ipcs s ! i = I_signal \<Longrightarrow>
    wg_step amounts s (s\<lparr>wpc := if wpc s = W_sleep then W_relock 0 else wpc s, ipcs := (ipcs s)[i := I_unlock]\<rparr>)"
| inc_unlock: "i < length (ipcs s) \<Longrightarrow> ipcs s ! i = I_unlock \<Longrightarrow>
    wg_step amounts s (s\<lparr>owner := Free, ipcs := (ipcs s)[i := I_done]\<rparr>)"
| wait_lock: "wpc s = W_lock \<Longrightarrow> owner s = Free \<Longrightarrow> wg_step amounts s (s\<lparr>owner := By_waiter, wpc := W_first\<rparr>)"
| wait_first: "wpc s = W_first \<Longrightarrow>
    wg_step amounts s (s\<lparr>wpc := if n_remaining s = 0 then W_unlock 0 else W_loop\<rparr>)"
| wait_load: "wpc s = W_loop \<Longrightarrow>
    wg_step amounts s (s\<lparr>wpc := if n_remaining s > 0 then W_enter else W_unlock 0\<rparr>)"
| wait_enter: "wpc s = W_enter \<Longrightarrow> wg_step amounts s (s\<lparr>owner := Free, wpc := W_sleep\<rparr>)"
| wait_wake: "wpc s = W_sleep \<Longrightarrow> r = 0 \<or> r = WAIT_ETIMEDOUT \<Longrightarrow> wg_step amounts s (s\<lparr>wpc := W_relock r\<rparr>)"
| wait_relock: "wpc s = W_relock r \<Longrightarrow> owner s = Free \<Longrightarrow>
    wg_step amounts s (s\<lparr>owner := By_waiter, wpc := if r \<noteq> 0 then W_unlock r else W_loop\<rparr>)"
| wait_unlock: "wpc s = W_unlock r \<Longrightarrow> wg_step amounts s (s\<lparr>owner := Free, wpc := W_ret r\<rparr>)"

definition wg_start :: "int list \<Rightarrow> wg_state" where
  "wg_start amounts = \<lparr>n_remaining = sum_list amounts, owner = Free, wpc = W_lock,
     ipcs = replicate (length amounts) I_dec\<rparr>"

inductive wg_reach :: "int list \<Rightarrow> wg_state \<Rightarrow> bool" for amounts where
  wg_reach_start: "wg_reach amounts (wg_start amounts)"
| wg_reach_step: "wg_reach amounts s \<Longrightarrow> wg_step amounts s s' \<Longrightarrow> wg_reach amounts s'"

section \<open>The functions run by one thread\<close>

text \<open>
  On macOS no wait is asked for more than a millisecond, whatever the timeout: the first wait that
  times out ends the call.
\<close>

lemma apple_wait_cut_short:
  "0 < n \<Longrightarrow> wait_group_timed_wait (Timedwait_relative ((\<lambda>slice. (if slice \<le> 1000000 then WAIT_ETIMEDOUT else 0, n)) # rest))
     10000000000 0 0 n = Some (WAIT_ETIMEDOUT, False)"
  by (simp add: wait_group_timed_wait_def WAIT_ETIMEDOUT_def)

text \<open>Where the loop sleeps instead, a timeout returns with the mutex locked.\<close>

lemma poll_timeout_keeps_mutex:
  "wait_group_timed_wait (Usleep (Some \<lparr>tv_sec = 0, tv_nsec = 0\<rparr>) [(Some \<lparr>tv_sec = 11, tv_nsec = 0\<rparr>, 1)])
     10000000000 0 0 1 = Some (-1, True)"
  by code_simp

lemma wait_deadline_correct:
  assumes "unat (tv_nsec now) + unat t < 2 ^ 63"
  shows "unat (tv_nsec (wait_deadline now t)) < 1000000000 \<and>
    tv_sec (wait_deadline now t) * 1000000000 + tv_nsec (wait_deadline now t) =
      tv_sec now * 1000000000 + tv_nsec now + t"
proof -
  define ns where "ns = tv_nsec now + t"
  have u: "uint ns < 2 ^ 63"
    using assms unfolding ns_def by (simp add: uint_nat unat_word_ariths flip: of_nat_add)
  moreover have "- (2 ^ 63) \<le> uint ns" by (rule order_trans [of _ 0]) simp_all
  ultimately have s: "sint ns = uint ns"
    unfolding sint_uint by (intro signed_take_bit_int_eq_self) simp_all
  then have nn: "0 \<le> sint ns" by simp
  then have m: "sint ns smod 1000000000 = sint ns mod 1000000000" "sint ns sdiv 1000000000 = sint ns div 1000000000"
    by (cases "sint ns = 0"; simp add: signed_modulo_int_def signed_divide_int_def sgn_if)+
  have "0 \<le> sint ns mod 1000000000" "sint ns mod 1000000000 < 1000000000" by simp_all
  then have "unat (word_of_int (sint ns mod 1000000000) :: u64) < 1000000000"
    by (simp add: unsigned_of_int take_bit_int_eq_self)
  moreover have "(word_of_int (sint ns sdiv 1000000000) :: u64) * 1000000000 + word_of_int (sint ns smod 1000000000) = ns"
  proof -
    have "(word_of_int (sint ns sdiv 1000000000 * 1000000000 + sint ns smod 1000000000) :: u64) = ns"
      by (simp only: sdiv_mult_smod_eq of_int_sint scast_id)
    then show ?thesis by simp
  qed
  ultimately show ?thesis
    by (simp add: wait_deadline_def Let_def m(1) ns_def [symmetric] distrib_right add.assoc)
qed

lemma wait_rounds_zero: "wait_rounds rounds n = Some (0, n') \<Longrightarrow> n' \<le> 0"
  by (induction rounds n rule: wait_rounds.induct) (auto split: if_splits list.splits)

section \<open>The invariant of the processes\<close>

definition dec_done :: "inc_pc \<Rightarrow> bool" where
  "dec_done p \<longleftrightarrow> p \<noteq> I_dec"

text \<open>The counter is what the threads that have not decremented yet still owe.\<close>

definition owed :: "int list \<Rightarrow> inc_pc list \<Rightarrow> int" where
  "owed amounts pcs = (\<Sum>i < length pcs. if pcs ! i = I_dec then amounts ! i else 0)"

lemma owed_update:
  assumes "i < length pcs"
  shows "owed amounts (pcs[i := p]) =
    owed amounts pcs - (if pcs ! i = I_dec then amounts ! i else 0) + (if p = I_dec then amounts ! i else 0)"
proof -
  let ?g = "\<lambda>qs k. if qs ! k = I_dec then amounts ! k else 0"
  have split: "owed amounts qs = ?g qs i + (\<Sum>k \<in> {..< length qs} - {i}. ?g qs k)" if "i < length qs" for qs
    unfolding owed_def by (rule sum.remove) (use that in auto)
  have "(\<Sum>k \<in> {..< length pcs} - {i}. ?g (pcs[i := p]) k) = (\<Sum>k \<in> {..< length pcs} - {i}. ?g pcs k)"
    by (rule sum.cong) auto
  with split [of pcs] split [of "pcs[i := p]"] assms show ?thesis by simp
qed

definition signal_coming :: "inc_pc list \<Rightarrow> bool" where
  "signal_coming pcs \<longleftrightarrow> (\<exists>i < length pcs. pcs ! i = I_lock \<or> pcs ! i = I_signal)"

definition wg_inv :: "int list \<Rightarrow> wg_state \<Rightarrow> bool" where
  "wg_inv amounts s \<longleftrightarrow>
     length (ipcs s) = length amounts \<and> n_remaining s = owed amounts (ipcs s) \<and>
     (owner s = By_waiter \<longleftrightarrow> wpc s = W_first \<or> wpc s = W_loop \<or> wpc s = W_enter \<or> (\<exists>r. wpc s = W_unlock r)) \<and>
     (\<forall>i < length (ipcs s). owner s = By_inc i \<longleftrightarrow> ipcs s ! i = I_signal \<or> ipcs s ! i = I_unlock) \<and>
     (n_remaining s \<le> 0 \<longrightarrow> wpc s = W_enter \<or> wpc s = W_sleep \<longrightarrow> signal_coming (ipcs s)) \<and>
     ((wpc s = W_unlock 0 \<or> wpc s = W_ret 0) \<longrightarrow> n_remaining s \<le> 0)"

lemma owed_replicate: "owed amounts (replicate (length amounts) I_dec) = sum_list amounts"
  by (simp add: owed_def sum_list_sum_nth atLeast0LessThan)

lemma wg_inv_start: "wg_inv amounts (wg_start amounts)"
  by (simp add: wg_inv_def wg_start_def owed_replicate)

lemma signal_coming_update:
  assumes "pcs ! i \<noteq> I_lock" "pcs ! i \<noteq> I_signal" "signal_coming pcs"
  shows "signal_coming (pcs[i := p])"
proof -
  obtain k where "k < length pcs" "pcs ! k = I_lock \<or> pcs ! k = I_signal"
    using assms(3) by (auto simp: signal_coming_def)
  moreover from this assms have "k \<noteq> i" by auto
  ultimately show ?thesis unfolding signal_coming_def by (intro exI [of _ k]) simp
qed

lemma signal_coming_new:
  "i < length pcs \<Longrightarrow> p = I_lock \<or> p = I_signal \<Longrightarrow> signal_coming (pcs[i := p])"
  unfolding signal_coming_def by (intro exI [of _ i]) simp

lemma wg_inv_step:
  assumes "wg_inv amounts s" "wg_step amounts s s'" "\<forall>a \<in> set amounts. 0 < a"
  shows "wg_inv amounts s'"
  using assms(2)
proof cases
  case (inc_dec i)
  have a: "0 < amounts ! i" using inc_dec assms(1,3) by (auto simp: wg_inv_def)
  let ?p = "if crosses_zero (n_remaining s) (amounts ! i) then I_lock else I_done"
  have coming: "signal_coming (ipcs s')" if "n_remaining s' \<le> 0" "wpc s' = W_enter \<or> wpc s' = W_sleep"
  proof (cases "n_remaining s \<le> 0")
    case True
    with that inc_dec assms(1) have "signal_coming (ipcs s)" by (auto simp: wg_inv_def)
    then show ?thesis
      using inc_dec signal_coming_update [of "ipcs s" i ?p] by simp
  next
    case False
    with that inc_dec have "crosses_zero (n_remaining s) (amounts ! i)" by (auto simp: crosses_zero_def)
    with inc_dec show ?thesis by (auto simp: signal_coming_def intro!: exI [of _ i])
  qed
  have "owed amounts (ipcs s') = owed amounts (ipcs s) - amounts ! i"
    using inc_dec owed_update [of i "ipcs s" amounts ?p] by auto
  with inc_dec assms(1) a coming show ?thesis
    by (auto simp: wg_inv_def nth_list_update)
next
  case (inc_lock i)
  then have "owed amounts (ipcs s') = owed amounts (ipcs s)" "signal_coming (ipcs s')"
    using owed_update [of i "ipcs s" amounts I_signal] signal_coming_new [of i "ipcs s" I_signal] by auto
  with inc_lock assms(1) show ?thesis by (auto simp: wg_inv_def nth_list_update)
next
  case (inc_signal i)
  then have "owed amounts (ipcs s') = owed amounts (ipcs s)"
    using owed_update [of i "ipcs s" amounts I_unlock] by auto
  moreover have "owner s = By_inc i" using inc_signal assms(1) by (simp add: wg_inv_def)
  ultimately show ?thesis
    using inc_signal assms(1) by (auto simp: wg_inv_def nth_list_update)
next
  case (inc_unlock i)
  then have "owed amounts (ipcs s') = owed amounts (ipcs s)"
    using owed_update [of i "ipcs s" amounts I_done] by auto
  moreover have "signal_coming (ipcs s')" if "signal_coming (ipcs s)"
    using inc_unlock that signal_coming_update [of "ipcs s" i I_done] by auto
  moreover have "owner s = By_inc i" using inc_unlock assms(1) by (simp add: wg_inv_def)
  ultimately show ?thesis
    using inc_unlock assms(1) by (auto simp: wg_inv_def nth_list_update)
next
  case wait_lock
  with assms(1) show ?thesis by (auto simp: wg_inv_def)
next
  case wait_first
  with assms(1) show ?thesis by (auto simp: wg_inv_def)
next
  case wait_load
  with assms(1) show ?thesis by (auto simp: wg_inv_def)
next
  case wait_enter
  with assms(1) show ?thesis by (auto simp: wg_inv_def)
next
  case (wait_wake r)
  with assms(1) show ?thesis by (auto simp: wg_inv_def)
next
  case (wait_relock r)
  with assms(1) show ?thesis by (auto simp: wg_inv_def)
next
  case (wait_unlock r)
  with assms(1) show ?thesis by (auto simp: wg_inv_def)
qed

lemma wg_reach_inv: "wg_reach amounts s \<Longrightarrow> \<forall>a \<in> set amounts. 0 < a \<Longrightarrow> wg_inv amounts s"
  by (induction rule: wg_reach.induct) (auto intro: wg_inv_start wg_inv_step)

lemma owed_le_zero:
  assumes "length pcs = length amounts" "\<forall>a \<in> set amounts. 0 < a" "owed amounts pcs \<le> 0"
  shows "I_dec \<notin> set pcs" "owed amounts pcs = 0"
proof -
  have nn: "0 \<le> (if pcs ! i = I_dec then amounts ! i else 0)" if "i \<in> {..< length pcs}" for i
  proof -
    have "amounts ! i \<in> set amounts" using that assms(1) by simp
    with assms(2) show ?thesis by (auto intro: less_imp_le)
  qed
  have "0 \<le> owed amounts pcs" unfolding owed_def by (rule sum_nonneg) (use nn in blast)
  with assms(3) show z: "owed amounts pcs = 0" by simp
  show "I_dec \<notin> set pcs"
  proof
    assume "I_dec \<in> set pcs"
    then obtain i where i: "i < length pcs" "pcs ! i = I_dec" by (auto simp: in_set_conv_nth)
    have "(if pcs ! i = I_dec then amounts ! i else 0) = 0"
      using z nn i(1) unfolding owed_def by (subst (asm) sum_nonneg_eq_0_iff) auto
    with i assms(1,2) show False by (metis less_irrefl nth_mem)
  qed
qed

section \<open>Properties\<close>

text \<open>
  C27: No wakeup is lost. Whatever the interleaving of the waiter with the threads that bring the
  counter down, and whatever spurious wakeups there are: when the counter has reached zero while the
  waiter sleeps, a thread is still about to signal it, so once every thread has left
  \<open>wait_group_inc\<close> with the counter at zero, the waiter is not asleep.
\<close>

theorem no_lost_wakeup:
  assumes "wg_reach amounts s" "\<forall>a \<in> set amounts. 0 < a" "n_remaining s \<le> 0" "wpc s = W_sleep"
  shows "\<exists>i < length (ipcs s). ipcs s ! i = I_lock \<or> ipcs s ! i = I_signal"
  using wg_reach_inv [OF assms(1,2)] assms(3,4) by (auto simp: wg_inv_def signal_coming_def)

definition wg_sleeping :: wg_state where
  "wg_sleeping = \<lparr>n_remaining = 0, owner = Free, wpc = W_sleep, ipcs = [I_lock]\<rparr>"

lemma wg_sleeping_reached: "wg_reach [1] wg_sleeping"
proof -
  let ?s = "wg_start [1]"
  let ?s1 = "?s\<lparr>owner := By_waiter, wpc := W_first\<rparr>"
  let ?s2 = "?s1\<lparr>wpc := W_loop\<rparr>" and ?s3 = "?s1\<lparr>wpc := W_enter\<rparr>"
  let ?s4 = "?s3\<lparr>owner := Free, wpc := W_sleep\<rparr>"
  note go = wg_reach_step
  have "wg_reach [1] ?s1" by (rule go [OF wg_reach_start wait_lock]) (simp_all add: wg_start_def)
  from go [OF this wait_first] have "wg_reach [1] ?s2" by (simp add: wg_start_def)
  from go [OF this wait_load] have "wg_reach [1] ?s3" by (simp add: wg_start_def)
  from go [OF this wait_enter] have "wg_reach [1] ?s4" by (simp add: wg_start_def)
  from go [OF this inc_dec [of 0]] show ?thesis
    by (simp add: wg_start_def wg_sleeping_def crosses_zero_def)
qed

lemma no_lost_wakeup_witness: "\<exists>i < length (ipcs wg_sleeping). ipcs wg_sleeping ! i = I_lock \<or> ipcs wg_sleeping ! i = I_signal"
  by (rule no_lost_wakeup [OF wg_sleeping_reached]) (simp_all add: wg_sleeping_def)

text \<open>
  C28: The waiter returns 0 only when every thread has reported: the calls add up to the initial
  count, so at that time all of them have decremented the counter, it is exactly zero, and the
  assertion at the end of \<open>wait_group_timed_wait\<close> holds.
\<close>

theorem wait_returns_zero_when_all_reported:
  assumes "wg_reach amounts s" "\<forall>a \<in> set amounts. 0 < a" "wpc s = W_ret 0"
  shows "n_remaining s = 0 \<and> (\<forall>i < length amounts. ipcs s ! i \<noteq> I_dec)"
proof -
  have I: "wg_inv amounts s" by (rule wg_reach_inv [OF assms(1,2)])
  then have l: "length (ipcs s) = length amounts" "n_remaining s = owed amounts (ipcs s)" "owed amounts (ipcs s) \<le> 0"
    using assms(3) by (auto simp: wg_inv_def)
  from owed_le_zero [OF l(1) assms(2) l(3)] l show ?thesis by (metis nth_mem)
qed

lemma wait_returns_zero_when_all_reported_witness:
  "\<exists>s. wg_reach [1] s \<and> wpc s = W_ret 0 \<and> n_remaining s = 0 \<and> ipcs s ! 0 \<noteq> I_dec"
proof -
  let ?s0 = "\<lparr>n_remaining = 0, owner = Free, wpc = W_lock, ipcs = [I_lock]\<rparr>"
  let ?s1 = "?s0\<lparr>owner := By_waiter, wpc := W_first\<rparr>"
  let ?s2 = "?s1\<lparr>wpc := W_unlock 0\<rparr>" and ?s3 = "?s0\<lparr>wpc := W_ret 0\<rparr>"
  note go = wg_reach_step
  from go [OF wg_reach_start [of "[1]"] inc_dec [of 0]] have "wg_reach [1] ?s0" by (simp add: wg_start_def crosses_zero_def)
  then have "wg_reach [1] ?s1" by (rule go [OF _ wait_lock]) simp_all
  from go [OF this wait_first] have "wg_reach [1] ?s2" by simp
  from go [OF this wait_unlock [of _ 0]] have r: "wg_reach [1] ?s3" by simp
  from wait_returns_zero_when_all_reported [OF this] r show ?thesis by (intro exI [of _ ?s3]) simp
qed

end
