(* ===== verification/Cmd_Args.thy ===== *)
theory Cmd_Args
  imports Hex
begin

text \<open>
  \<open>cmdargs.c\<close>: the command-line parser. \<open>argv\<close> is a list of strings; the loop over it is a
  recursion over the arguments that are left. A failing parse is \<open>Inl\<close> of the message passed to
  \<open>errlog\<close>, without its newline (\<open>None\<close> for the one failure without a message).
\<close>

section \<open>Definitions\<close>

datatype CompileOpts = COMPILE_OPTS_NONE | COMPILE_OPTS_STRIP_SOURCE | COMPILE_OPTS_STRIP_DEBUG

datatype eval_source = EVAL_INPUT_STDIN_SENTINEL | Eval_code string

record CmdArgs =
  es6_module_bytecode_file :: "string option"
  socket_path :: "string list"
  source_map_file :: "string option"
  socket_sep_char :: byte
  socket_sep_char_set :: bool
  version :: bool
  max_command_runtime_us :: nat
  max_idle_time_us :: nat
  max_idle_time_set :: bool
  key_file_prefix :: "string option"
  private_key_file :: "string option"
  mod_to_compile :: "string option"
  mod_output_file :: "string option"
  compile_opts :: CompileOpts
  eval :: bool
  eval_input :: "eval_source option"

definition MAX_THREADS :: nat where
  "MAX_THREADS = 256"

definition DEFAULT_MAX_COMMAND_RUNTIME_US :: nat where
  "DEFAULT_MAX_COMMAND_RUNTIME_US = 250000"

abbreviation n_sockets :: "CmdArgs \<Rightarrow> nat" where
  "n_sockets c \<equiv> length (socket_path c)"

abbreviation flag :: "bool \<Rightarrow> nat" where
  "flag b \<equiv> (if b then 1 else 0)"

definition n_flags_set :: "CmdArgs \<Rightarrow> nat" where
  "n_flags_set c =
     flag (es6_module_bytecode_file c \<noteq> None) + flag (source_map_file c \<noteq> None) + flag (n_sockets c \<noteq> 0) +
     flag (socket_sep_char_set c) + flag (version c) + flag (max_command_runtime_us c \<noteq> 0) +
     flag (max_idle_time_set c) + flag (key_file_prefix c \<noteq> None) + flag (private_key_file c \<noteq> None) +
     flag (mod_to_compile c \<noteq> None) + flag (compile_opts c \<noteq> COMPILE_OPTS_NONE) + flag (eval c)"

definition zeroed_args :: CmdArgs where
  "zeroed_args = \<lparr>es6_module_bytecode_file = None, socket_path = [], source_map_file = None,
     socket_sep_char = 10, socket_sep_char_set = False, version = False, max_command_runtime_us = 0,
     max_idle_time_us = 0, max_idle_time_set = False, key_file_prefix = None, private_key_file = None,
     mod_to_compile = None, mod_output_file = None, compile_opts = COMPILE_OPTS_NONE, eval = False,
     eval_input = None\<rparr>"

subsection \<open>\<open>strtoll\<close> in base ten\<close>

definition c_isspace :: "char \<Rightarrow> bool" where
  "c_isspace c \<longleftrightarrow> c = CHR '' '' \<or> (9 \<le> (of_char c :: nat) \<and> (of_char c :: nat) \<le> 13)"

definition c_isdigit :: "char \<Rightarrow> bool" where
  "c_isdigit c \<longleftrightarrow> 48 \<le> (of_char c :: nat) \<and> (of_char c :: nat) \<le> 57"

fun digits_value :: "nat \<Rightarrow> string \<Rightarrow> nat" where
  "digits_value acc [] = acc"
| "digits_value acc (c # cs) = digits_value (acc * 10 + (of_char c - 48)) cs"

text \<open>The value, the text from \<open>*endptr\<close> on, and whether \<open>errno\<close> became \<open>ERANGE\<close>.\<close>

definition strtoll :: "string \<Rightarrow> int \<times> string \<times> bool" where
  "strtoll s =
     (let s1 = dropWhile c_isspace s;
          neg = (s1 \<noteq> [] \<and> hd s1 = CHR ''-'');
          s2 = (if s1 \<noteq> [] \<and> (hd s1 = CHR ''-'' \<or> hd s1 = CHR ''+'') then tl s1 else s1);
          ds = takeWhile c_isdigit s2; rest = dropWhile c_isdigit s2
      in if ds = [] then (0, s, False)
         else let v = (if neg then - int (digits_value 0 ds) else int (digits_value 0 ds))
              in if v < - (2 ^ 63) then (- (2 ^ 63), rest, True)
                 else if v > 2 ^ 63 - 1 then (2 ^ 63 - 1, rest, True)
                 else (v, rest, False))"

subsection \<open>The parser\<close>

text \<open>The loop of \<open>-s\<close>: the arguments taken, how many there were, and those left.\<close>

fun socket_args :: "string list \<Rightarrow> bool \<Rightarrow> string list \<Rightarrow> nat \<Rightarrow> string list \<times> nat \<times> string list" where
  "socket_args [] after_double_dash paths n = (paths, n, [])"
| "socket_args (a # rest) after_double_dash paths n =
     (if a = ''--'' then socket_args rest True paths n
      else if \<not> after_double_dash \<and> a \<noteq> [] \<and> hd a = CHR ''-'' then (paths, n, a # rest)
      else socket_args rest after_double_dash (if length paths < MAX_THREADS then paths @ [a] else paths) (n + 1))"

lemma socket_args_length: "socket_args args d ps n = (ps', n', rest) \<Longrightarrow> length rest \<le> length args"
  by (induction args d ps n rule: socket_args.induct) (auto split: if_splits)

text \<open>One round of the loop: the argument \<open>argv[i]\<close> and those after it; what is left after it.\<close>

definition parse_option :: "string \<Rightarrow> string list \<Rightarrow> CmdArgs \<Rightarrow> string + string list \<times> CmdArgs" where
  "parse_option a args c =
    (if a = ''-v'' then Inr (args, c\<lparr>version := True\<rparr>)
     else if a = ''-m'' then
       (case args of [] \<Rightarrow> Inl ''Error: -m requires an argument (ES6 module bytecode file)''
        | v # rest \<Rightarrow>
            if es6_module_bytecode_file c \<noteq> None then Inl ''Error: -m can be specified at most once''
            else Inr (rest, c\<lparr>es6_module_bytecode_file := Some v\<rparr>))
     else if a = ''-t'' then
       (case args of [] \<Rightarrow> Inl ''Error: -t requires an argument (max command runtime in microseconds)''
        | v # rest \<Rightarrow>
            if max_command_runtime_us c \<noteq> 0 then Inl ''Error: -t can be specified at most once''
            else (case strtoll v of (n, endptr, erange) \<Rightarrow>
              if erange \<or> endptr \<noteq> [] \<or> n \<le> 0 then Inl ''Error: -t requires a valid integer argument > 0''
              else Inr (rest, c\<lparr>max_command_runtime_us := nat n\<rparr>)))
     else if a = ''-i'' then
       (case args of [] \<Rightarrow> Inl ''Error: -i requires an argument (max thread idle time in microseconds)''
        | v # rest \<Rightarrow>
            if max_idle_time_set c then Inl ''Error: -i can be specified at most once''
            else (case strtoll v of (n, endptr, erange) \<Rightarrow>
              if erange \<or> endptr \<noteq> [] \<or> n < 0 then Inl ''Error: -i requires a valid integer argument >= 0''
              else Inr (rest, c\<lparr>max_idle_time_us := nat n, max_idle_time_set := True\<rparr>)))
     else if a = ''-s'' then
       (case socket_args args False (socket_path c) 0 of (paths, n_sockets_added, rest) \<Rightarrow>
          if n_sockets_added = 0 then Inl ''Error: -s requires at least one argument (socket file)''
          else Inr (rest, c\<lparr>socket_path := paths\<rparr>))
     else if a = ''-sm'' then
       (case args of [] \<Rightarrow> Inl ''Error: -sm requires an argument (source map file, e.g. 'foo.js.map')''
        | v # rest \<Rightarrow>
            if source_map_file c \<noteq> None then Inl ''Error: -sm can be specified at most once''
            else Inr (rest, c\<lparr>source_map_file := Some v\<rparr>))
     else if a = ''-b'' then
       (if socket_sep_char_set c then Inl ''Error: -b can be specified at most once''
        else case args of [] \<Rightarrow> Inl ''Error: -b requires an argument (two hex digits giving separator byte)''
        | v # rest \<Rightarrow>
            if length v \<noteq> 2 \<or> hex_digit (of_char (v ! 0)) = -1 \<or> hex_digit (of_char (v ! 1)) = -1
            then Inl ''Error: -b requires an argument of exactly two hex digits (e.g. '0A')''
            else Inr (rest, c\<lparr>socket_sep_char := hd (fst (hex_decode [socket_sep_char c] 1 v)),
                                   socket_sep_char_set := True\<rparr>))
     else if a = ''-k'' then
       (if key_file_prefix c \<noteq> None then Inl ''Error: -k can be specified at most once''
        else case args of [] \<Rightarrow> Inl ''Error: -k requires an argument (key file)''
        | v # rest \<Rightarrow> Inr (rest, c\<lparr>key_file_prefix := Some v\<rparr>))
     else if a = ''-pk'' then
       (if private_key_file c \<noteq> None then Inl ''Error: -pk can be specified at most once''
        else case args of [] \<Rightarrow> Inl ''Error: -pk requires an argument (private key file)''
        | v # rest \<Rightarrow> Inr (rest, c\<lparr>private_key_file := Some v\<rparr>))
     else if a = ''-c'' then
       (if mod_to_compile c \<noteq> None then Inl ''Error: -c can be specified at most once''
        else case args of
          v # w # rest \<Rightarrow> Inr (rest, c\<lparr>mod_to_compile := Some v, mod_output_file := Some w\<rparr>)
        | _ \<Rightarrow> Inl ''Error: -c requires two arguments (ES6 module to compile and output file)'')
     else if a = ''-ss'' \<or> a = ''-sd'' then
       (if compile_opts c \<noteq> COMPILE_OPTS_NONE
        then Inl ''Error: -ss and -sd are mutually exclusive and can be specified at most once''
        else Inr (args,
          c\<lparr>compile_opts := if a = ''-ss'' then COMPILE_OPTS_STRIP_SOURCE else COMPILE_OPTS_STRIP_DEBUG\<rparr>))
     else if a = ''-e'' then
       (if eval c then Inl ''Error: -e can be specified at most once''
        else case args of [] \<Rightarrow> Inl ''Error: -e requires an argument (JavaScript code to evaluate, or '-' for stdin)''
        | v # rest \<Rightarrow>
            Inr (rest, c\<lparr>eval := True,
              eval_input := Some (if v = ''-'' then EVAL_INPUT_STDIN_SENTINEL else Eval_code v)\<rparr>))
     else if a \<noteq> [] \<and> hd a = CHR ''-'' then Inl (''Error: unrecognized option: '' @ a)
     else Inl (''Error: unknown argument '' @ [CHR 0x27] @ a @ [CHR 0x27]))"

lemma parse_option_length: "parse_option a args c = Inr (rest, c') \<Longrightarrow> length rest \<le> length args"
  unfolding parse_option_def by (auto split: if_splits list.splits prod.splits dest: socket_args_length)

function (sequential) parse_loop :: "string list \<Rightarrow> CmdArgs \<Rightarrow> string + CmdArgs" where
  "parse_loop [] c = Inr c"
| "parse_loop (a # args) c =
     (case parse_option a args c of Inl e \<Rightarrow> Inl e | Inr (rest, c') \<Rightarrow> parse_loop rest c')"
  by pat_completeness auto
termination
  by (relation "measure (\<lambda>(args, c). length args)") (auto simp: less_Suc_eq_le dest: parse_option_length)

text \<open>The checks after the loop, in order; the last one fills in the default.\<close>

definition check_args :: "CmdArgs \<Rightarrow> string + CmdArgs" where
  "check_args c =
     (let n_flags = n_flags_set c;
          expected_count = 1 + flag (source_map_file c \<noteq> None) + flag (es6_module_bytecode_file c \<noteq> None) in
      if version c \<and> n_flags > 1 then Inl ''Error: -v (version) cannot be used with other flags.''
      else if eval c \<and> n_flags \<noteq> expected_count
        then Inl ''Error: -e (eval) can only be used with -m and -sm options''
      else if eval c \<and> source_map_file c \<noteq> None \<and> es6_module_bytecode_file c = None
        then Inl ''Error: -e (eval) can only be used with -m and -sm options''
      else if key_file_prefix c \<noteq> None \<and> n_flags \<noteq> 1
        then Inl ''Error: -k (key file prefix) option must be used either alone (to generate a key pair)''
      else if private_key_file c \<noteq> None \<and> \<not> (n_flags = 2 \<and> mod_to_compile c \<noteq> None)
        then Inl ''Error: -pk (private key file) option must be used with the -c option.''
      else if compile_opts c \<noteq> COMPILE_OPTS_NONE \<and> mod_to_compile c = None
        then Inl ''Error: -ss or -sd flags must be used only with the -c option.''
      else if mod_to_compile c \<noteq> None \<and>
          1 < int n_flags - int (flag (private_key_file c \<noteq> None)) - int (flag (compile_opts c \<noteq> COMPILE_OPTS_NONE))
        then Inl ''Error: -c (compile module) must be used only with -pk (private key file) and -ss or -sd flags.''
      else if version c \<or> key_file_prefix c \<noteq> None \<or> mod_to_compile c \<noteq> None \<or> eval c then Inr c
      else if n_sockets c = 0 then Inl ''No sockets specified.''
      else if source_map_file c \<noteq> None \<and> es6_module_bytecode_file c = None
        then Inl ''Error: -sm (source map file) can only be used with -m (ES6 module bytecode file)''
      else Inr (if max_command_runtime_us c = 0
                then c\<lparr>max_command_runtime_us := DEFAULT_MAX_COMMAND_RUNTIME_US\<rparr> else c))"

definition parse_cmd_args_helper :: "string list \<Rightarrow> string option + CmdArgs" where
  "parse_cmd_args_helper argv =
     (case argv of
        [] \<Rightarrow> Inl None
      | _ # args \<Rightarrow>
          (case parse_loop args zeroed_args of
             Inl e \<Rightarrow> Inl (Some e)
           | Inr c \<Rightarrow> (case check_args c of Inl e \<Rightarrow> Inl (Some e) | Inr c' \<Rightarrow> Inr c')))"

text \<open>
  The messages given to \<open>errlog\<close> on a failure: the one of the helper and the usage text for the
  command name, which the C library's \<open>basename\<close> takes from \<open>argv[0]\<close>.
\<close>

definition parse_cmd_args :: "(string \<Rightarrow> string) \<Rightarrow> (string \<Rightarrow> string) \<Rightarrow> string list \<Rightarrow> string list + CmdArgs" where
  "parse_cmd_args basename usage argv =
     (case parse_cmd_args_helper argv of
        Inl e \<Rightarrow> Inl ((case e of Some m \<Rightarrow> [m] | None \<Rightarrow> []) @
                    [usage (case argv of [] \<Rightarrow> ''jsockd'' | a # _ \<Rightarrow> basename a)])
      | Inr c \<Rightarrow> Inr c)"

section \<open>What the loop keeps\<close>

text \<open>The loop never stores more sockets than there are slots, and sets the parts of an option together.\<close>

definition args_inv :: "CmdArgs \<Rightarrow> bool" where
  "args_inv c \<longleftrightarrow> n_sockets c \<le> MAX_THREADS \<and> (mod_to_compile c = None \<longleftrightarrow> mod_output_file c = None) \<and>
     (eval c \<longleftrightarrow> eval_input c \<noteq> None)"

lemma socket_args_bound:
  "socket_args args d ps n = (ps', n', rest) \<Longrightarrow> length ps \<le> MAX_THREADS \<Longrightarrow> length ps' \<le> MAX_THREADS"
  by (induction args d ps n rule: socket_args.induct) (auto split: if_splits)

lemma parse_option_inv: "parse_option a args c = Inr (rest, c') \<Longrightarrow> args_inv c \<Longrightarrow> args_inv c'"
  unfolding parse_option_def
  by (auto simp: args_inv_def split: if_splits list.splits prod.splits dest: socket_args_bound)

lemma parse_loop_inv: "parse_loop args c = Inr c' \<Longrightarrow> args_inv c \<Longrightarrow> args_inv c'"
  by (induction args c rule: parse_loop.induct) (auto split: sum.splits dest: parse_option_inv)

section \<open>Accepted command lines\<close>

text \<open>The options that are on, as a set: the sum \<open>n_flags_set\<close> is its size.\<close>

datatype opt = Opt_m | Opt_sm | Opt_s | Opt_b | Opt_v | Opt_t | Opt_i | Opt_k | Opt_pk | Opt_c | Opt_strip | Opt_e

definition opts_on :: "CmdArgs \<Rightarrow> opt set" where
  "opts_on c = {p. case p of
      Opt_m \<Rightarrow> es6_module_bytecode_file c \<noteq> None | Opt_sm \<Rightarrow> source_map_file c \<noteq> None
    | Opt_s \<Rightarrow> n_sockets c \<noteq> 0 | Opt_b \<Rightarrow> socket_sep_char_set c | Opt_v \<Rightarrow> version c
    | Opt_t \<Rightarrow> max_command_runtime_us c \<noteq> 0 | Opt_i \<Rightarrow> max_idle_time_set c
    | Opt_k \<Rightarrow> key_file_prefix c \<noteq> None | Opt_pk \<Rightarrow> private_key_file c \<noteq> None
    | Opt_c \<Rightarrow> mod_to_compile c \<noteq> None | Opt_strip \<Rightarrow> compile_opts c \<noteq> COMPILE_OPTS_NONE
    | Opt_e \<Rightarrow> eval c}"

lemma opt_UNIV: "(UNIV :: opt set) =
  {Opt_m, Opt_sm, Opt_s, Opt_b, Opt_v, Opt_t, Opt_i, Opt_k, Opt_pk, Opt_c, Opt_strip, Opt_e}"
  using opt.exhaust by blast

lemma finite_opts [simp]: "finite (A :: opt set)"
  by (rule finite_subset [OF subset_UNIV]) (simp add: opt_UNIV)

lemma n_flags_card: "n_flags_set c = card (opts_on c)"
proof -
  have "card (opts_on c) = (\<Sum>p \<in> UNIV. flag (p \<in> opts_on c))"
    by (simp add: sum.If_cases)
  then show ?thesis
    unfolding opt_UNIV n_flags_set_def by (simp add: opts_on_def)
qed

lemma opts_on_mem [simp]:
  "Opt_m \<in> opts_on c \<longleftrightarrow> es6_module_bytecode_file c \<noteq> None" "Opt_sm \<in> opts_on c \<longleftrightarrow> source_map_file c \<noteq> None"
  "Opt_s \<in> opts_on c \<longleftrightarrow> n_sockets c \<noteq> 0" "Opt_b \<in> opts_on c \<longleftrightarrow> socket_sep_char_set c"
  "Opt_v \<in> opts_on c \<longleftrightarrow> version c" "Opt_t \<in> opts_on c \<longleftrightarrow> max_command_runtime_us c \<noteq> 0"
  "Opt_i \<in> opts_on c \<longleftrightarrow> max_idle_time_set c" "Opt_k \<in> opts_on c \<longleftrightarrow> key_file_prefix c \<noteq> None"
  "Opt_pk \<in> opts_on c \<longleftrightarrow> private_key_file c \<noteq> None" "Opt_c \<in> opts_on c \<longleftrightarrow> mod_to_compile c \<noteq> None"
  "Opt_strip \<in> opts_on c \<longleftrightarrow> compile_opts c \<noteq> COMPILE_OPTS_NONE" "Opt_e \<in> opts_on c \<longleftrightarrow> eval c"
  by (simp_all add: opts_on_def)

text \<open>The five ways to run the program, by the options each allows.\<close>

definition args_mode_ok :: "CmdArgs \<Rightarrow> bool" where
  "args_mode_ok c \<longleftrightarrow>
     opts_on c = {Opt_v} \<or> opts_on c = {Opt_k} \<or>
     opts_on c = {Opt_c} \<or> opts_on c = {Opt_c, Opt_pk} \<or> opts_on c = {Opt_c, Opt_strip} \<or>
     opts_on c = {Opt_e} \<or> opts_on c = {Opt_e, Opt_m} \<or> opts_on c = {Opt_e, Opt_m, Opt_sm} \<or>
     ({Opt_s, Opt_t} \<subseteq> opts_on c \<and> opts_on c \<subseteq> {Opt_s, Opt_t, Opt_m, Opt_sm, Opt_b, Opt_i} \<and>
      (Opt_sm \<in> opts_on c \<longrightarrow> Opt_m \<in> opts_on c))"

lemma subset_card_eq: "A \<subseteq> (B :: opt set) \<Longrightarrow> card B = card A \<Longrightarrow> B = A"
  by (rule card_subset_eq [symmetric]) simp_all

lemma if_Inl_Inr: "(if b then Inl x else y) = Inr z \<longleftrightarrow> \<not> b \<and> y = Inr z"
  by simp

text \<open>The checks that an accepted command line has passed, over the set of options.\<close>

lemma check_args_passed:
  assumes "check_args c = Inr c'"
  shows "Opt_v \<in> opts_on c \<Longrightarrow> card (opts_on c) \<le> 1"
    and "Opt_e \<in> opts_on c \<Longrightarrow>
      card (opts_on c) = 1 + flag (Opt_sm \<in> opts_on c) + flag (Opt_m \<in> opts_on c) \<and>
      (Opt_sm \<in> opts_on c \<longrightarrow> Opt_m \<in> opts_on c)"
    and "Opt_k \<in> opts_on c \<Longrightarrow> card (opts_on c) = 1"
    and "Opt_pk \<in> opts_on c \<Longrightarrow> card (opts_on c) = 2 \<and> Opt_c \<in> opts_on c"
    and "Opt_strip \<in> opts_on c \<Longrightarrow> Opt_c \<in> opts_on c"
    and "Opt_c \<in> opts_on c \<Longrightarrow> card (opts_on c) \<le> 1 + flag (Opt_pk \<in> opts_on c) + flag (Opt_strip \<in> opts_on c)"
    and "if Opt_v \<in> opts_on c \<or> Opt_k \<in> opts_on c \<or> Opt_c \<in> opts_on c \<or> Opt_e \<in> opts_on c then c' = c
      else Opt_s \<in> opts_on c \<and> (Opt_sm \<in> opts_on c \<longrightarrow> Opt_m \<in> opts_on c) \<and>
        c' = (if max_command_runtime_us c = 0 then c\<lparr>max_command_runtime_us := DEFAULT_MAX_COMMAND_RUNTIME_US\<rparr> else c)"
proof -
  note chk = assms [unfolded check_args_def Let_def n_flags_card if_Inl_Inr]
  show "Opt_v \<in> opts_on c \<Longrightarrow> card (opts_on c) \<le> 1"
    using conjunct1 [OF chk] by simp
  show "Opt_e \<in> opts_on c \<Longrightarrow>
      card (opts_on c) = 1 + flag (Opt_sm \<in> opts_on c) + flag (Opt_m \<in> opts_on c) \<and>
      (Opt_sm \<in> opts_on c \<longrightarrow> Opt_m \<in> opts_on c)"
    unfolding opts_on_mem using conjunct1 [OF conjunct2 [OF chk]] conjunct1 [OF conjunct2 [OF conjunct2 [OF chk]]] by auto
  note r3 = conjunct2 [OF conjunct2 [OF conjunct2 [OF chk]]]
  show "Opt_k \<in> opts_on c \<Longrightarrow> card (opts_on c) = 1"
    unfolding opts_on_mem using conjunct1 [OF r3] by simp
  show "Opt_pk \<in> opts_on c \<Longrightarrow> card (opts_on c) = 2 \<and> Opt_c \<in> opts_on c"
    unfolding opts_on_mem using conjunct1 [OF conjunct2 [OF r3]] by simp
  note r5 = conjunct2 [OF conjunct2 [OF r3]]
  show "Opt_strip \<in> opts_on c \<Longrightarrow> Opt_c \<in> opts_on c"
    unfolding opts_on_mem using conjunct1 [OF r5] by simp
  show "Opt_c \<in> opts_on c \<Longrightarrow> card (opts_on c) \<le> 1 + flag (Opt_pk \<in> opts_on c) + flag (Opt_strip \<in> opts_on c)"
    unfolding opts_on_mem using conjunct1 [OF conjunct2 [OF r5]] by (simp split: if_splits)
  note r7 = conjunct2 [OF conjunct2 [OF r5]]
  show "if Opt_v \<in> opts_on c \<or> Opt_k \<in> opts_on c \<or> Opt_c \<in> opts_on c \<or> Opt_e \<in> opts_on c then c' = c
      else Opt_s \<in> opts_on c \<and> (Opt_sm \<in> opts_on c \<longrightarrow> Opt_m \<in> opts_on c) \<and>
        c' = (if max_command_runtime_us c = 0 then c\<lparr>max_command_runtime_us := DEFAULT_MAX_COMMAND_RUNTIME_US\<rparr> else c)"
  proof (cases "version c \<or> key_file_prefix c \<noteq> None \<or> mod_to_compile c \<noteq> None \<or> eval c")
    case True
    with r7 show ?thesis unfolding opts_on_mem by (simp only: if_True sum.inject)
  next
    case False
    with r7 show ?thesis unfolding opts_on_mem by (simp only: if_False if_Inl_Inr sum.inject) auto
  qed
qed

lemma mode_version:
  assumes "check_args c = Inr c'" "Opt_v \<in> opts_on c"
  shows "c' = c \<and> opts_on c = {Opt_v}"
proof -
  have "card (opts_on c) \<noteq> 0" using assms(2) by (auto simp del: opts_on_mem)
  with check_args_passed(1) [OF assms] have "card (opts_on c) = 1" by linarith
  with assms subset_card_eq [of "{Opt_v}" "opts_on c"] check_args_passed(7) [OF assms(1)] show ?thesis
    by (simp del: opts_on_mem)
qed

lemma mode_key:
  assumes "check_args c = Inr c'" "Opt_k \<in> opts_on c"
  shows "c' = c \<and> opts_on c = {Opt_k}"
  using assms check_args_passed(3) [OF assms] subset_card_eq [of "{Opt_k}" "opts_on c"] check_args_passed(7) [OF assms(1)]
  by (simp del: opts_on_mem)

lemma mode_eval:
  assumes "check_args c = Inr c'" "Opt_e \<in> opts_on c"
  shows "c' = c \<and> (opts_on c = {Opt_e} \<or> opts_on c = {Opt_e, Opt_m} \<or> opts_on c = {Opt_e, Opt_m, Opt_sm})"
proof -
  let ?O = "opts_on c"
  note chk = check_args_passed(2) [OF assms]
  have "c' = c" using check_args_passed(7) [OF assms(1)] assms(2) by (simp del: opts_on_mem)
  moreover have "?O = {Opt_e} \<or> ?O = {Opt_e, Opt_m} \<or> ?O = {Opt_e, Opt_m, Opt_sm}"
  proof (cases "Opt_m \<in> ?O")
    case True
    show ?thesis
      using True chk assms(2) subset_card_eq [of "{Opt_e, Opt_m}" ?O] subset_card_eq [of "{Opt_e, Opt_m, Opt_sm}" ?O]
      by (cases "Opt_sm \<in> ?O") (simp_all del: opts_on_mem)
  next
    case False
    with chk assms(2) subset_card_eq [of "{Opt_e}" ?O] show ?thesis by (simp del: opts_on_mem)
  qed
  ultimately show ?thesis by blast
qed

lemma mode_compile:
  assumes "check_args c = Inr c'" "Opt_c \<in> opts_on c"
  shows "c' = c \<and> (opts_on c = {Opt_c} \<or> opts_on c = {Opt_c, Opt_pk} \<or> opts_on c = {Opt_c, Opt_strip})"
proof -
  let ?O = "opts_on c"
  note chk = check_args_passed(4) [OF assms(1)] check_args_passed(6) [OF assms]
  have "c' = c" using check_args_passed(7) [OF assms(1)] assms(2) by (simp del: opts_on_mem)
  moreover have "?O = {Opt_c} \<or> ?O = {Opt_c, Opt_pk} \<or> ?O = {Opt_c, Opt_strip}"
  proof (cases "Opt_pk \<in> ?O")
    case True
    with chk(1) assms(2) subset_card_eq [of "{Opt_c, Opt_pk}" ?O] show ?thesis by (simp del: opts_on_mem)
  next
    case pk: False
    show ?thesis
    proof (cases "Opt_strip \<in> ?O")
      case True
      then have "card {Opt_c, Opt_strip} \<le> card ?O" using assms(2) by (intro card_mono) (simp_all del: opts_on_mem)
      with True pk chk(2) assms(2) subset_card_eq [of "{Opt_c, Opt_strip}" ?O] show ?thesis by (simp del: opts_on_mem)
    next
      case False
      have "card {Opt_c} \<le> card ?O" using assms(2) by (intro card_mono) (simp_all del: opts_on_mem)
      with False pk chk(2) assms(2) subset_card_eq [of "{Opt_c}" ?O] show ?thesis by (simp del: opts_on_mem)
    qed
  qed
  ultimately show ?thesis by blast
qed

lemma mode_serve:
  assumes "check_args c = Inr c'" "Opt_v \<notin> opts_on c" "Opt_e \<notin> opts_on c" "Opt_k \<notin> opts_on c" "Opt_c \<notin> opts_on c"
  shows "opts_on c' = insert Opt_t (opts_on c) \<and> Opt_s \<in> opts_on c \<and> (Opt_sm \<in> opts_on c \<longrightarrow> Opt_m \<in> opts_on c) \<and>
    opts_on c \<subseteq> {Opt_s, Opt_t, Opt_m, Opt_sm, Opt_b, Opt_i} \<and>
    c' = (if max_command_runtime_us c = 0 then c\<lparr>max_command_runtime_us := DEFAULT_MAX_COMMAND_RUNTIME_US\<rparr> else c)"
proof -
  note chk = check_args_passed(4,5,7) [OF assms(1)]
  have p: "Opt_pk \<notin> opts_on c" "Opt_strip \<notin> opts_on c" using chk(1,2) assms(5) by blast+
  have c': "c' = (if max_command_runtime_us c = 0 then c\<lparr>max_command_runtime_us := DEFAULT_MAX_COMMAND_RUNTIME_US\<rparr> else c)"
    and s: "Opt_s \<in> opts_on c" "Opt_sm \<in> opts_on c \<longrightarrow> Opt_m \<in> opts_on c"
    using chk(3) assms(2-5) by (simp_all del: opts_on_mem)
  have "(p \<in> opts_on c') = (p \<in> insert Opt_t (opts_on c))" for p
    by (cases p) (simp_all add: c' DEFAULT_MAX_COMMAND_RUNTIME_US_def)
  moreover have "p \<in> {Opt_s, Opt_t, Opt_m, Opt_sm, Opt_b, Opt_i}" if "p \<in> opts_on c" for p
    using that assms(2-5) p by (cases p) (simp_all del: opts_on_mem)
  ultimately show ?thesis using c' s by blast
qed

lemma check_args_mode:
  assumes "check_args c = Inr c'"
  shows "args_mode_ok c'" "socket_path c' = socket_path c" "mod_output_file c' = mod_output_file c"
    "mod_to_compile c' = mod_to_compile c" "eval c' = eval c" "eval_input c' = eval_input c"
proof -
  have either: "c' = c \<or> c' = c\<lparr>max_command_runtime_us := DEFAULT_MAX_COMMAND_RUNTIME_US\<rparr>"
    using check_args_passed(7) [OF assms] by (simp del: opts_on_mem split: if_split_asm)
  then show "socket_path c' = socket_path c" "mod_output_file c' = mod_output_file c"
    "mod_to_compile c' = mod_to_compile c" "eval c' = eval c" "eval_input c' = eval_input c"
    by (elim disjE; simp)+
  show "args_mode_ok c'"
  proof (cases "Opt_v \<in> opts_on c \<or> Opt_e \<in> opts_on c \<or> Opt_k \<in> opts_on c \<or> Opt_c \<in> opts_on c")
    case True
    then show ?thesis
      using mode_version [OF assms] mode_eval [OF assms] mode_key [OF assms] mode_compile [OF assms]
      unfolding args_mode_ok_def by (elim disjE) argo+
  next
    case False
    then have "Opt_v \<notin> opts_on c" "Opt_e \<notin> opts_on c" "Opt_k \<notin> opts_on c" "Opt_c \<notin> opts_on c"
      by (simp_all del: opts_on_mem)
    from mode_serve [OF assms this] show ?thesis
      unfolding args_mode_ok_def by (intro disjI2) (auto simp: DEFAULT_MAX_COMMAND_RUNTIME_US_def)
  qed
qed



section \<open>Command lines for a server\<close>

text \<open>Decimal notation, and the command line that asks for a given server configuration.\<close>

fun show_nat :: "nat \<Rightarrow> string" where
  "show_nat n = (if n < 10 then [char_of (48 + n)] else show_nat (n div 10) @ [char_of (48 + n mod 10)])"

declare show_nat.simps [simp del]

definition opt_arg :: "string \<Rightarrow> string option \<Rightarrow> string list" where
  "opt_arg name v = (case v of None \<Rightarrow> [] | Some x \<Rightarrow> [name, x])"

definition server_argv :: "string \<Rightarrow> CmdArgs \<Rightarrow> string list" where
  "server_argv name c = name # opt_arg ''-m'' (es6_module_bytecode_file c) @ opt_arg ''-sm'' (source_map_file c) @
     [''-t'', show_nat (max_command_runtime_us c)] @
     (if max_idle_time_set c then [''-i'', show_nat (max_idle_time_us c)] else []) @
     (if socket_sep_char_set c then [''-b'', fprintf_02X (socket_sep_char c)] else []) @
     [''-s'', ''--''] @ socket_path c"

definition server_config :: "CmdArgs \<Rightarrow> bool" where
  "server_config c \<longleftrightarrow>
     0 < n_sockets c \<and> n_sockets c \<le> MAX_THREADS \<and> ''--'' \<notin> set (socket_path c) \<and>
     0 < max_command_runtime_us c \<and> max_command_runtime_us c < 2 ^ 63 \<and> max_idle_time_us c < 2 ^ 63 \<and>
     (\<not> max_idle_time_set c \<longrightarrow> max_idle_time_us c = 0) \<and> (\<not> socket_sep_char_set c \<longrightarrow> socket_sep_char c = 10) \<and>
     (source_map_file c \<noteq> None \<longrightarrow> es6_module_bytecode_file c \<noteq> None) \<and>
     \<not> version c \<and> key_file_prefix c = None \<and> private_key_file c = None \<and> mod_to_compile c = None \<and>
     mod_output_file c = None \<and> compile_opts c = COMPILE_OPTS_NONE \<and> \<not> eval c \<and> eval_input c = None"

lemma digit_char: "d < 10 \<Longrightarrow> c_isdigit (char_of (48 + d)) \<and> (of_char (char_of (48 + d) :: char) :: nat) = 48 + d"
  by (simp add: c_isdigit_def)

lemma digits_value_append: "digits_value acc (xs @ ys) = digits_value (digits_value acc xs) ys"
  by (induction xs arbitrary: acc) auto

lemma show_nat_digits: "digits_value 0 (show_nat n) = n \<and> list_all c_isdigit (show_nat n) \<and> show_nat n \<noteq> []"
proof (induction n rule: show_nat.induct)
  case (1 n)
  show ?case
  proof (cases "n < 10")
    case True
    then show ?thesis using digit_char [of n] by (simp add: show_nat.simps [of n])
  next
    case False
    then show ?thesis
      using 1 digit_char [of "n mod 10"] by (simp add: show_nat.simps [of n] digits_value_append)
  qed
qed

lemma digit_not_space: "c_isdigit c \<Longrightarrow> \<not> c_isspace c \<and> c \<noteq> CHR ''-'' \<and> c \<noteq> CHR ''+''"
  by (auto simp: c_isdigit_def c_isspace_def)

lemma strtoll_show_nat:
  assumes "n < 2 ^ 63"
  shows "strtoll (show_nat n) = (int n, [], False)"
proof -
  obtain c cs where c: "show_nat n = c # cs" "c_isdigit c" "list_all c_isdigit (show_nat n)"
    using show_nat_digits [of n] by (cases "show_nat n") auto
  have all: "takeWhile c_isdigit (show_nat n) = show_nat n" "dropWhile c_isdigit (show_nat n) = []"
    using c(3) by (auto simp: takeWhile_eq_all_conv dropWhile_eq_Nil_conv list_all_iff)
  have first: "dropWhile c_isspace (show_nat n) = show_nat n" "hd (show_nat n) \<noteq> CHR ''-''" "hd (show_nat n) \<noteq> CHR ''+''"
    using c digit_not_space [OF c(2)] by auto
  show ?thesis
    using show_nat_digits [of n] assms by (simp add: strtoll_def Let_def all first)
qed

lemma hex_sep:
  "length (fprintf_02X b) = 2" "hex_digit (of_char (fprintf_02X b ! 0)) \<noteq> -1" "hex_digit (of_char (fprintf_02X b ! 1)) \<noteq> -1"
  "hd (fst (hex_decode [x] 1 (fprintf_02X b))) = b"
proof -
  have q: "unat b div 16 < 16" using unat_byte_less [of b] by simp
  then show "length (fprintf_02X b) = 2" "hex_digit (of_char (fprintf_02X b ! 0)) \<noteq> -1"
    "hex_digit (of_char (fprintf_02X b ! 1)) \<noteq> -1"
    by (simp_all add: fprintf_02X_def)
  have "hex_pairs (fprintf_02X b) = [b]" "NUL \<notin> set (fprintf_02X b)"
    using hex_pairs_encode [of "[b]"] encode_no_NUL [of "[b]"] by simp_all
  then show "hd (fst (hex_decode [x] 1 (fprintf_02X b))) = b"
    by (simp add: hex_decode_eq cstr_no_NUL poke_def)
qed

lemma socket_args_all:
  "''--'' \<notin> set ss \<Longrightarrow> length ps + length ss \<le> MAX_THREADS \<Longrightarrow>
     socket_args ss True ps n = (ps @ ss, n + length ss, [])"
  by (induction ss arbitrary: ps n) auto

text \<open>What each option of a server command line does in the loop.\<close>

lemma parse_opt_arg_m:
  "es6_module_bytecode_file c = None \<Longrightarrow>
     parse_loop (opt_arg ''-m'' v @ rest) c = parse_loop rest (c\<lparr>es6_module_bytecode_file := v\<rparr>)"
  by (cases v; cases c) (simp_all add: opt_arg_def parse_option_def)

lemma parse_opt_arg_sm:
  "source_map_file c = None \<Longrightarrow>
     parse_loop (opt_arg ''-sm'' v @ rest) c = parse_loop rest (c\<lparr>source_map_file := v\<rparr>)"
  by (cases v; cases c) (simp_all add: opt_arg_def parse_option_def)

lemma parse_t:
  "0 < n \<Longrightarrow> n < 2 ^ 63 \<Longrightarrow> max_command_runtime_us c = 0 \<Longrightarrow>
     parse_loop (''-t'' # show_nat n # rest) c = parse_loop rest (c\<lparr>max_command_runtime_us := n\<rparr>)"
  by (simp add: parse_option_def strtoll_show_nat)

lemma parse_i:
  "n < 2 ^ 63 \<Longrightarrow> \<not> max_idle_time_set c \<Longrightarrow>
     parse_loop (''-i'' # show_nat n # rest) c = parse_loop rest (c\<lparr>max_idle_time_us := n, max_idle_time_set := True\<rparr>)"
  by (simp add: parse_option_def strtoll_show_nat)

lemma parse_b:
  "\<not> socket_sep_char_set c \<Longrightarrow>
     parse_loop (''-b'' # fprintf_02X b # rest) c = parse_loop rest (c\<lparr>socket_sep_char := b, socket_sep_char_set := True\<rparr>)"
  using hex_sep(1-3) [of b] hex_sep(4) [of "socket_sep_char c" b] by (simp add: parse_option_def)

lemma parse_s:
  "ss \<noteq> [] \<Longrightarrow> ''--'' \<notin> set ss \<Longrightarrow> length ss \<le> MAX_THREADS \<Longrightarrow> socket_path c = [] \<Longrightarrow>
     parse_loop (''-s'' # ''--'' # ss) c = Inr (c\<lparr>socket_path := ss\<rparr>)"
  using socket_args_all [of ss "[]" 0] by (simp add: parse_option_def)

text \<open>
  C35: Every server configuration can be asked for: for any module and source map, time limits,
  separator byte and sockets that the options can express, the parser accepts the command line
  written for it and recovers exactly that configuration, numbers and separator byte included.
\<close>

theorem server_argv_roundtrip:
  assumes "server_config c"
  shows "parse_cmd_args basename usage (server_argv name c) = Inr c"
proof -
  note cfg = assms [unfolded server_config_def]
  let ?c1 = "zeroed_args\<lparr>es6_module_bytecode_file := es6_module_bytecode_file c, source_map_file := source_map_file c,
      max_command_runtime_us := max_command_runtime_us c\<rparr>"
  let ?tail = "[''-s'', ''--''] @ socket_path c"
  have tail: "parse_loop ?tail (d\<lparr>socket_path := []\<rparr>) = Inr (d\<lparr>socket_path := socket_path c\<rparr>)" for d
    using parse_s [of "socket_path c" "d\<lparr>socket_path := []\<rparr>"] cfg by simp
  have "parse_loop (tl (server_argv name c)) zeroed_args =
      parse_loop ((if max_idle_time_set c then [''-i'', show_nat (max_idle_time_us c)] else []) @
        (if socket_sep_char_set c then [''-b'', fprintf_02X (socket_sep_char c)] else []) @ ?tail) ?c1"
    using cfg by (simp add: server_argv_def parse_opt_arg_m parse_opt_arg_sm parse_t zeroed_args_def del: parse_loop.simps)
  also have "\<dots> = Inr c"
    using cfg tail
    by (cases c; cases "max_idle_time_set c"; cases "socket_sep_char_set c")
       (simp_all add: parse_i parse_b parse_s zeroed_args_def del: parse_loop.simps)
  finally have loop: "parse_loop (tl (server_argv name c)) zeroed_args = Inr c" .
  have "check_args c = Inr c" using cfg by (auto simp: check_args_def Let_def)
  with loop show ?thesis
    by (simp add: parse_cmd_args_def parse_cmd_args_helper_def server_argv_def del: parse_loop.simps)
qed

definition sample_config :: CmdArgs where
  "sample_config = zeroed_args\<lparr>es6_module_bytecode_file := Some ''m.qjsb'', max_command_runtime_us := 1500,
     socket_sep_char := 0, socket_sep_char_set := True, socket_path := [''-odd'', ''/tmp/b'']\<rparr>"

lemma server_argv_roundtrip_witness:
  "parse_cmd_args (\<lambda>a. a) (\<lambda>a. a) (server_argv ''jsockd'' sample_config) = Inr sample_config"
  by (rule server_argv_roundtrip) (simp add: server_config_def sample_config_def zeroed_args_def MAX_THREADS_def)

text \<open>
  The usage text offers \<open>-c <module> <output> [-pk <key>] [-ss | -sd]\<close>, but a private key together
  with a stripping flag is refused: the test for \<open>-pk\<close> counts exactly two options.
\<close>

lemma signed_and_stripped_refused:
  "parse_cmd_args_helper [''jsockd'', ''-c'', ''m.mjs'', ''m.qjsb'', ''-pk'', ''key'', ''-ss''] =
     Inl (Some ''Error: -pk (private key file) option must be used with the -c option.'')"
  by (simp add: parse_cmd_args_helper_def parse_option_def check_args_def n_flags_set_def zeroed_args_def)

text \<open>An empty argument of \<open>-i\<close> is read as zero.\<close>

lemma empty_idle_time_accepted:
  "\<exists>c. parse_cmd_args_helper [''jsockd'', ''-i'', '''', ''-s'', ''x''] = Inr c \<and> max_idle_time_set c \<and> max_idle_time_us c = 0"
  by (simp add: parse_cmd_args_helper_def parse_option_def check_args_def n_flags_set_def zeroed_args_def
      strtoll_def MAX_THREADS_def)

end
