(* ===== verification/Log.thy ===== *)
theory Log
  imports Utils
begin

text \<open>
  \<open>log.c\<close> and \<open>console.c\<close>: log records on standard error, one prefix per line, the last line of a
  record marked. What is written is a string. The wall clock is a parameter: \<open>clock k\<close> is the time
  text of the \<open>k\<close>-th prefix printed. The formatted message (what \<open>vfprintf\<close> put into the memory
  stream) is an argument.
\<close>

section \<open>Definitions\<close>

definition LOG_DEBUG :: u32 where "LOG_DEBUG = 0"
definition LOG_INFO :: u32 where "LOG_INFO = 1"
definition LOG_WARN :: u32 where "LOG_WARN = 2"
definition LOG_ERROR :: u32 where "LOG_ERROR = 3"
definition LOG_INTERACTIVE :: u32 where "LOG_INTERACTIVE = 0xF00000"

definition ABSOLUTE_MAX_LOG_BUF_SIZE :: nat where
  "ABSOLUTE_MAX_LOG_BUF_SIZE = 1024 * 1024"

definition ISO8601_MAX_LEN :: nat where
  "ISO8601_MAX_LEN = 29"

text \<open>Six digits and more of a number, as \<open>%06ld\<close> prints it.\<close>

function pad_digits :: "nat \<Rightarrow> nat \<Rightarrow> string" where
  "pad_digits w n = (if w \<le> 1 \<and> n < 10 then [char_of (48 + n)]
     else pad_digits (w - 1) (n div 10) @ [char_of (48 + n mod 10)])"
  by pat_completeness auto
termination
proof (relation "measure (\<lambda>(w, n). w + n)")
  fix w n :: nat
  assume "\<not> (w \<le> 1 \<and> n < 10)"
  moreover have "n div 10 \<le> n" "10 \<le> n \<Longrightarrow> n div 10 < n" by simp_all
  ultimately show "((w - 1, n div 10), (w, n)) \<in> measure (\<lambda>(w, n). w + n)" by (cases "n < 10") auto
qed simp

declare pad_digits.simps [simp del]

text \<open>
  \<open>date secs\<close> is the date and time \<open>gmtime_r\<close> and \<open>strftime\<close> give, \<open>None\<close> when one of them fails.
\<close>

definition timespec_to_iso8601 :: "(u64 \<Rightarrow> string option) \<Rightarrow> timespec \<Rightarrow> nat \<Rightarrow> string" where
  "timespec_to_iso8601 date ts buflen =
     (case date (tv_sec ts) of
        None \<Rightarrow> ''''
      | Some s \<Rightarrow>
          if length s + 9 < buflen
          then s @ take (buflen - length s - 1) (''.'' @ pad_digits 6 (ns_to_us (unat (tv_nsec ts))) @ ''Z'')
          else s)"

text \<open>\<open>None\<close> is the failed assertion on a level that is none of the four.\<close>

definition log_level_name :: "u32 \<Rightarrow> string option" where
  "log_level_name l =
     (if l = LOG_DEBUG then Some ''DEBUG'' else if l = LOG_INFO then Some ''INFO''
      else if l = LOG_WARN then Some ''WARN'' else if l = LOG_ERROR then Some ''ERROR'' else None)"

definition print_log_prefix :: "bool \<Rightarrow> (nat \<Rightarrow> string) \<Rightarrow> u32 \<Rightarrow> nat \<Rightarrow> bool \<Rightarrow> string" where
  "print_log_prefix interactive clock level k last_line =
     (if interactive then ''''
      else (if last_line then ''$'' else ''*'') @ '' jsockd '' @ clock k @ '' ['' @
           (case log_level_name level of Some n \<Rightarrow> n | None \<Rightarrow> '''') @ ''] '')"

definition is_ws :: "char \<Rightarrow> bool" where
  "is_ws c \<longleftrightarrow> c = CHR '' '' \<or> c = CHR 0x09 \<or> c = NL \<or> c = CR"

fun remove_trailing_ws :: "char list \<Rightarrow> nat \<Rightarrow> nat" where
  "remove_trailing_ws buf 0 = 0"
| "remove_trailing_ws buf (Suc n) = (if \<not> is_ws (buf ! n) then Suc n else remove_trailing_ws buf n)"

function lw_loop :: "(nat \<Rightarrow> bool \<Rightarrow> string) \<Rightarrow> char list \<Rightarrow> nat \<Rightarrow> nat \<Rightarrow> nat \<Rightarrow> nat \<Rightarrow> string \<Rightarrow> string" where
  "lw_loop prefix buf len i start k out =
     (if i < len then
        if buf ! i = NL then
          lw_loop prefix buf len (i + 1) (i + 1) (k + 1)
            (out @ cells start (i + 1) buf @ prefix k (NL \<notin> set (cells (i + 1) len buf)))
        else lw_loop prefix buf len (i + 1) start k out
      else out @ cells start i buf)"
  by pat_completeness auto
termination
  by (relation "measure (\<lambda>(prefix, buf, len, i, start, k, out). len - i)") auto

declare lw_loop.simps [simp del]

definition log_with_prefix_for_subsequent_lines ::
  "bool \<Rightarrow> (nat \<Rightarrow> string) \<Rightarrow> u32 \<Rightarrow> nat \<Rightarrow> char list \<Rightarrow> nat \<Rightarrow> string" where
  "log_with_prefix_for_subsequent_lines interactive clock level k buf len =
     lw_loop (print_log_prefix interactive clock level) buf len 0 0 k ''''"

text \<open>
  One call of \<open>jsockd_logf\<close>: what it appends to standard error, \<open>None\<close> when it returns without
  writing. \<open>debug\<close> is whether this is a debug build, \<open>opened\<close> whether the memory stream could be
  opened, \<open>g_log_prefix\<close> the global prefix.
\<close>

definition jsockd_logf ::
  "bool \<Rightarrow> bool \<Rightarrow> bool \<Rightarrow> string option \<Rightarrow> (nat \<Rightarrow> string) \<Rightarrow> u32 \<Rightarrow> string \<Rightarrow> string option" where
  "jsockd_logf debug interactive opened g_log_prefix clock level msg =
     (if \<not> debug \<and> level AND 0xFF = LOG_DEBUG then None
      else if interactive \<and> level AND LOG_INTERACTIVE = 0 then None
      else if \<not> opened then None
      else
        let level' = level AND NOT LOG_INTERACTIVE;
            m0 = min (length msg) (ABSOLUTE_MAX_LOG_BUF_SIZE - 1);
            m = remove_trailing_ws msg m0
        in Some (print_log_prefix interactive clock level' 0 (NL \<notin> set (take m msg)) @
                 (case g_log_prefix of Some p \<Rightarrow> p | None \<Rightarrow> '''') @
                 log_with_prefix_for_subsequent_lines interactive clock level' 1 msg m @ [NL]))"

definition jsockd_log ::
  "bool \<Rightarrow> bool \<Rightarrow> bool \<Rightarrow> string option \<Rightarrow> (nat \<Rightarrow> string) \<Rightarrow> u32 \<Rightarrow> string \<Rightarrow> string option" where
  "jsockd_log debug interactive opened g_log_prefix clock level s =
     jsockd_logf debug interactive opened g_log_prefix clock level s"

subsection \<open>The console object\<close>

text \<open>
  An argument of \<open>console.log\<close>: a string (\<open>None\<close> when its bytes cannot be had), or another value,
  as the pieces in which \<open>JS_PrintValue\<close> hands it to the writer. The writer runs the same routine
  on each piece; \<open>k\<close> counts the prefixes printed so far.
\<close>

datatype console_arg = Js_string "string option" | Js_value "string list"

definition count_NL :: "string \<Rightarrow> nat" where
  "count_NL s = length (filter (\<lambda>c. c = NL) s)"

fun write_pieces :: "bool \<Rightarrow> (nat \<Rightarrow> string) \<Rightarrow> nat \<Rightarrow> string list \<Rightarrow> string \<times> nat" where
  "write_pieces interactive clock k [] = ([], k)"
| "write_pieces interactive clock k (b # bs) =
     (case write_pieces interactive clock (k + count_NL b) bs of
        (out, k') \<Rightarrow> (log_with_prefix_for_subsequent_lines interactive clock LOG_INFO k b (length b) @ out, k'))"

text \<open>The loop over the arguments; the flag is whether no exception occurred.\<close>

fun js_print_args :: "bool \<Rightarrow> (nat \<Rightarrow> string) \<Rightarrow> nat \<Rightarrow> nat \<Rightarrow> console_arg list \<Rightarrow> bool \<times> string" where
  "js_print_args interactive clock k i [] = (True, [NL])"
| "js_print_args interactive clock k i (a # rest) =
     (let sep = (if i \<noteq> 0 then '' '' else []) in
      case a of
        Js_string None \<Rightarrow> (False, sep)
      | Js_string (Some s) \<Rightarrow>
          (case js_print_args interactive clock (k + count_NL s) (i + 1) rest of (ok, out) \<Rightarrow>
             (ok, sep @ log_with_prefix_for_subsequent_lines interactive clock LOG_INFO k s (length s) @ out))
      | Js_value pieces \<Rightarrow>
          (case write_pieces interactive clock k pieces of (w, k') \<Rightarrow>
             (case js_print_args interactive clock k' (i + 1) rest of (ok, out) \<Rightarrow> (ok, sep @ w @ out))))"

definition js_print :: "bool \<Rightarrow> (nat \<Rightarrow> string) \<Rightarrow> string \<Rightarrow> console_arg list \<Rightarrow> bool \<times> string" where
  "js_print interactive clock prefix args =
     (case js_print_args interactive clock 1 0 args of
        (ok, out) \<Rightarrow> (ok, print_log_prefix interactive clock LOG_INFO 0 True @ prefix @ out))"

definition my_js_console :: "bool \<Rightarrow> (nat \<Rightarrow> string) \<Rightarrow> string \<Rightarrow> console_arg list \<Rightarrow> bool \<times> string" where
  "my_js_console interactive clock name args = js_print interactive clock (''<console.'' @ name @ ''>: '') args"

section \<open>Lines\<close>

text \<open>A text as its lines: one more than it has newlines.\<close>

fun lines_of :: "string \<Rightarrow> string list" where
  "lines_of [] = [[]]"
| "lines_of (c # cs) = (if c = NL then [] # lines_of cs else (c # hd (lines_of cs)) # tl (lines_of cs))"

lemma lines_of_not_Nil [simp]: "lines_of s \<noteq> []"
  by (cases s) auto

lemma lines_of_no_NL: "NL \<notin> set s \<Longrightarrow> lines_of s = [s]"
  by (induction s) auto

lemma lines_of_append_NL: "NL \<notin> set s \<Longrightarrow> lines_of (s @ NL # t) = s # lines_of t"
  by (induction s) auto

lemma lines_of_single: "length (lines_of s) = 1 \<longleftrightarrow> NL \<notin> set s"
proof (induction s)
  case (Cons c s)
  have "length (lines_of s) \<noteq> 0" by simp
  with Cons show ?case by (cases "lines_of s") auto
qed simp

lemma lines_of_NL_free: "l \<in> set (lines_of s) \<Longrightarrow> NL \<notin> set l"
proof (induction s arbitrary: l)
  case (Cons c s)
  then show ?case by (cases "lines_of s") (auto split: if_splits)
qed simp

text \<open>The lines of a record with a prefix before each but the first; \<open>k\<close> counts prefixes.\<close>

fun join_lines :: "(nat \<Rightarrow> bool \<Rightarrow> string) \<Rightarrow> nat \<Rightarrow> string list \<Rightarrow> string" where
  "join_lines prefix k [] = ''''"
| "join_lines prefix k [l] = l"
| "join_lines prefix k (l # ls) = l @ NL # prefix k (length ls = 1) @ join_lines prefix (k + 1) ls"

lemma lw_loop_lines:
  assumes "start \<le> i" "i \<le> len" "len \<le> length buf" "NL \<notin> set (cells start i buf)"
  shows "lw_loop prefix buf len i start k out = out @ join_lines prefix k (lines_of (cells start len buf))"
  using assms
proof (induction "len - i" arbitrary: i start k out)
  case 0
  then have "i = len" by simp
  with 0 show ?case by (simp add: lw_loop.simps lines_of_no_NL)
next
  case (Suc d)
  then have i: "i < len" "len - (i + 1) = d" by auto
  have split: "cells start len buf = cells start i buf @ buf ! i # cells (i + 1) len buf"
    using cells_append [of start i len buf] cells_Cons_nth [of i len buf] Suc.prems i by simp
  show ?case
  proof (cases "buf ! i = NL")
    case True
    have "lines_of (cells start len buf) = cells start i buf # lines_of (cells (i + 1) len buf)"
      using split True lines_of_append_NL [OF Suc.prems(4)] by simp
    moreover have "cells start (i + 1) buf = cells start i buf @ [NL]"
      using cells_Suc [of start i buf] True Suc.prems i by simp
    moreover have "lw_loop prefix buf len (i + 1) (i + 1) (k + 1) o' =
        o' @ join_lines prefix (k + 1) (lines_of (cells (i + 1) len buf))" for o'
      using Suc.hyps(1) [of "i + 1" "i + 1"] i Suc.prems by simp
    ultimately show ?thesis
      using True i lines_of_single [of "cells (i + 1) len buf"]
      by (subst lw_loop.simps, cases "lines_of (cells (i + 1) len buf)") auto
  next
    case False
    have "NL \<notin> set (cells start (i + 1) buf)"
      using cells_Suc [of start i buf] False Suc.prems i by simp
    with Suc.hyps(1) [of "i + 1" start] i Suc.prems False show ?thesis
      by (subst lw_loop.simps) simp
  qed
qed

lemma remove_trailing_ws_spec:
  "n \<le> length buf \<Longrightarrow>
     remove_trailing_ws buf n \<le> n \<and> (\<forall>i. remove_trailing_ws buf n \<le> i \<longrightarrow> i < n \<longrightarrow> is_ws (buf ! i)) \<and>
     (0 < remove_trailing_ws buf n \<longrightarrow> \<not> is_ws (buf ! (remove_trailing_ws buf n - 1)))"
proof (induction n)
  case (Suc n)
  then show ?case by (auto simp: less_Suc_eq)
qed simp

text \<open>A record: every line with its prefix and newline, the last line flagged.\<close>

fun log_record :: "(nat \<Rightarrow> bool \<Rightarrow> string) \<Rightarrow> nat \<Rightarrow> string list \<Rightarrow> string" where
  "log_record prefix k [] = []"
| "log_record prefix k (l # ls) = prefix k (ls = []) @ l @ NL # log_record prefix (k + 1) ls"

lemma join_record:
  "ls \<noteq> [] \<Longrightarrow> prefix k (length ls = 1) @ p @ join_lines prefix (k + 1) ls @ [NL] =
     log_record prefix k ((p @ hd ls) # tl ls)"
proof (induction ls arbitrary: k p)
  case (Cons l ls)
  show ?case
  proof (cases ls)
    case (Cons l' ls')
    then have "ls \<noteq> []" by simp
    from Cons.IH [OF this, of "k + 1" "[]"] Cons show ?thesis by simp
  qed simp
qed simp

lemma logf_record:
  assumes "m = remove_trailing_ws msg (min (length msg) (ABSOLUTE_MAX_LOG_BUF_SIZE - 1))"
    and "debug \<or> level AND 0xFF \<noteq> LOG_DEBUG"
  shows "jsockd_logf debug False True g_log_prefix clock level msg =
    (let ls = lines_of (take m msg); p = (case g_log_prefix of Some p \<Rightarrow> p | None \<Rightarrow> [])
     in Some (log_record (print_log_prefix False clock (level AND NOT LOG_INTERACTIVE)) 0 ((p @ hd ls) # tl ls)))"
proof -
  let ?pre = "print_log_prefix False clock (level AND NOT LOG_INTERACTIVE)"
  have m: "m \<le> length msg" using remove_trailing_ws_spec [of "min (length msg) (ABSOLUTE_MAX_LOG_BUF_SIZE - 1)" msg]
    assms(1) by auto
  have "log_with_prefix_for_subsequent_lines False clock (level AND NOT LOG_INTERACTIVE) 1 msg m =
      join_lines ?pre 1 (lines_of (take m msg))"
    using lw_loop_lines [of 0 0 m msg ?pre 1 "[]"] m by (simp add: log_with_prefix_for_subsequent_lines_def)
  then show ?thesis
    using assms join_record [of "lines_of (take m msg)" ?pre 0] lines_of_single [of "take m msg"]
    by (auto simp: jsockd_logf_def Let_def)
qed

lemma lines_of_record:
  assumes "\<And>k b. NL \<notin> set (prefix k b)" "\<forall>l \<in> set ls. NL \<notin> set l"
  shows "lines_of (log_record prefix k ls) =
    map (\<lambda>i. prefix (k + i) (i + 1 = length ls) @ ls ! i) [0 ..< length ls] @ [[]]"
  using assms(2)
proof (induction ls arbitrary: k)
  case (Cons l ls)
  have "lines_of (prefix k (ls = []) @ l @ NL # log_record prefix (k + 1) ls) =
      (prefix k (ls = []) @ l) # lines_of (log_record prefix (k + 1) ls)"
    using lines_of_append_NL [of "prefix k (ls = []) @ l"] assms(1) Cons.prems by simp
  also have "lines_of (log_record prefix (k + 1) ls) =
      map (\<lambda>i. prefix (k + 1 + i) (i + 1 = length ls) @ ls ! i) [0 ..< length ls] @ [[]]"
    using Cons by simp
  finally show ?case
    by (simp add: upt_conv_Cons map_Suc_upt [symmetric] comp_def del: upt_Suc map_Suc_upt)
qed simp

section \<open>Properties\<close>



text \<open>
  \<open>console.log\<close> prints its first prefix with the end mark whatever follows: a text of two lines
  shows two lines marked as the end of a record.
\<close>

lemma console_marks_every_first_line:
  "snd (my_js_console False (\<lambda>_. ''t'') ''log'' [Js_string (Some (''a'' @ [NL] @ ''b''))]) =
     ''$ jsockd t [INFO] <console.log>: a'' @ [NL] @ ''$ jsockd t [INFO] b'' @ [NL]"
  by code_simp

end
