(* ===== verification/Module_File.thy ===== *)
theory Module_File
  imports Hex
begin

text \<open>
  Signed bytecode files: \<open>modcompiler.c\<close> writes them and the key files, \<open>mmap_file.c\<close>,
  \<open>verify_bytecode.c\<close> and \<open>load_module_bytecode\<close> of \<open>main.c\<close> read and check them. QuickJS, the
  signature functions and the file system calls are parameters: what a call returns is an argument,
  \<open>None\<close> or \<open>False\<close> for a failure. Failures carry the text printed.
\<close>

section \<open>Definitions\<close>

definition VERSION_STRING_SIZE :: nat where "VERSION_STRING_SIZE = 128"
definition ED25519_SIGNATURE_SIZE :: nat where "ED25519_SIGNATURE_SIZE = 64"
definition ED25519_PUBLIC_KEY_SIZE :: nat where "ED25519_PUBLIC_KEY_SIZE = 32"
definition ED25519_PRIVATE_KEY_SIZE :: nat where "ED25519_PRIVATE_KEY_SIZE = 64"

definition PUBLIC_KEY_FILE_SUFFIX :: string where "PUBLIC_KEY_FILE_SUFFIX = ''.pubkey''"
definition PRIVATE_KEY_FILE_SUFFIX :: string where "PRIVATE_KEY_FILE_SUFFIX = ''.privkey''"

definition MAGIC_KEY_TO_ALLOW_INVALID_SIGNATURES :: string where
  "MAGIC_KEY_TO_ALLOW_INVALID_SIGNATURES = ''dangerously_allow_invalid_signatures''"

lemmas file_sizes = VERSION_STRING_SIZE_def ED25519_SIGNATURE_SIZE_def ED25519_PUBLIC_KEY_SIZE_def
  ED25519_PRIVATE_KEY_SIZE_def

text \<open>The version field of a module file: the string, then zeros up to its fixed size.\<close>

definition version_field :: "string \<Rightarrow> byte list" where
  "version_field version = poke (replicate VERSION_STRING_SIZE 0) 0 (map of_char version)"

text \<open>
  \<open>compile_module_file\<close>. \<open>source\<close> is the module file's text, \<open>compile\<close> the bytecode QuickJS makes of
  it, \<open>key_file\<close> nothing when no key is given, otherwise what opening and reading it gives. The
  result is the exit status, the messages and what was written to the output file.
\<close>

definition compile_module_file ::
  "bool \<Rightarrow> bool \<Rightarrow> byte list option \<Rightarrow> (byte list \<Rightarrow> byte list option) \<Rightarrow> (byte list \<Rightarrow> byte list)
     \<Rightarrow> (byte list \<Rightarrow> byte list \<Rightarrow> byte list \<Rightarrow> byte list) \<Rightarrow> string option option \<Rightarrow> bool \<Rightarrow> bool \<Rightarrow> bool \<Rightarrow> string
     \<Rightarrow> (string, byte list) sum" where
  "compile_module_file runtime_ok context_ok source compile extract_public_key ed25519_sign key_file
     create_ok write_ok write_sig_ok version =
     (if VERSION_STRING_SIZE \<le> length version then Inl ''VERSION string too long''
      else if \<not> runtime_ok then Inl ''Failed to create JS runtime when compiling module file''
      else if \<not> context_ok then Inl ''Failed to create JS context when compiling module file''
      else case source of None \<Rightarrow> Inl ''Could not load''
      | Some text \<Rightarrow>
     (case compile text of None \<Rightarrow> Inl ''Error compiling module''
      | Some bytecode \<Rightarrow>
        let out_buf = bytecode @ version_field version in
        (case (case key_file of
                 None \<Rightarrow> Inr (replicate (ED25519_PRIVATE_KEY_SIZE * 2) NUL)
               | Some None \<Rightarrow> Inl ''Error opening key file''
               | Some (Some key_text) \<Rightarrow>
                   if length key_text < ED25519_PRIVATE_KEY_SIZE * 2 then Inl ''Error reading private key from key file''
                   else Inr (take (ED25519_PRIVATE_KEY_SIZE * 2) key_text)) of
           Inl e \<Rightarrow> Inl e
         | Inr private_key_hex \<Rightarrow>
             let private_key = fst (hex_decode (replicate ED25519_PRIVATE_KEY_SIZE 0) ED25519_PRIVATE_KEY_SIZE private_key_hex);
                 public_key = extract_public_key private_key;
                 signature = (if key_file \<noteq> None then ed25519_sign out_buf public_key private_key
                              else replicate ED25519_SIGNATURE_SIZE 0)
             in if \<not> create_ok then Inl ''Error creating output file''
                else if \<not> write_ok then Inl ''Error writing bytecode to output file''
                else if \<not> write_sig_ok then Inl ''Error writing signature to output file''
                else Inr (out_buf @ signature))))"

subsection \<open>Key files\<close>

definition get_key_file_filenames :: "string \<Rightarrow> string \<times> string" where
  "get_key_file_filenames prefix = (prefix @ PUBLIC_KEY_FILE_SUFFIX, prefix @ PRIVATE_KEY_FILE_SUFFIX)"

text \<open>The files by name. \<open>fopen(name, "wx")\<close> makes a new empty file and fails when there is one.\<close>

type_synonym files = "string \<Rightarrow> string option"

definition fopen_wx :: "(string \<Rightarrow> bool) \<Rightarrow> string \<Rightarrow> files \<Rightarrow> bool \<times> files" where
  "fopen_wx can_create name fs =
     (if fs name = None \<and> can_create name then (True, fs(name \<mapsto> [])) else (False, fs))"

text \<open>
  \<open>output_key_file\<close>: exit status 0 or 1 and the files after it. \<open>pub_fails\<close> and \<open>priv_fails\<close> say
  which \<open>fprintf\<close> of the two encodings fail; \<open>keypair\<close> is what the seed gives.
\<close>

definition output_key_file ::
  "(string \<Rightarrow> bool) \<Rightarrow> byte list option \<Rightarrow> (byte list \<Rightarrow> byte list \<times> byte list) \<Rightarrow> (nat \<Rightarrow> bool) \<Rightarrow> (nat \<Rightarrow> bool)
     \<Rightarrow> string \<Rightarrow> files \<Rightarrow> int \<times> files" where
  "output_key_file can_create seed ed25519_create_keypair pub_fails priv_fails prefix fs =
     (case get_key_file_filenames prefix of (pubkey_filename, privkey_filename) \<Rightarrow>
      case fopen_wx can_create privkey_filename fs of (priv_ok, fs1) \<Rightarrow>
      case fopen_wx can_create pubkey_filename fs1 of (pub_ok, fs2) \<Rightarrow>
      if \<not> (priv_ok \<and> pub_ok) then (1, fs2)
      else case seed of None \<Rightarrow> (1, fs2)
      | Some s \<Rightarrow>
        (case ed25519_create_keypair s of (pubkey, privkey) \<Rightarrow>
         case hex_encode pub_fails pubkey ED25519_PUBLIC_KEY_SIZE [] of (r, pub_text) \<Rightarrow>
         if r \<noteq> 0 then (1, fs2(pubkey_filename \<mapsto> pub_text))
         else case hex_encode priv_fails privkey ED25519_PRIVATE_KEY_SIZE [] of (r2, priv_text) \<Rightarrow>
           (if r2 \<noteq> 0 then 1 else 0, fs2(pubkey_filename \<mapsto> pub_text, privkey_filename \<mapsto> priv_text))))"

subsection \<open>Reading a module\<close>

text \<open>On a 64-bit platform \<open>(off_t)SIZE_MAX\<close> is \<open>-1\<close>.\<close>

definition exceeds_size_max :: "int \<Rightarrow> bool" where
  "exceeds_size_max x = (let cmp = - 1 in cmp > 0 \<and> x > cmp)"

datatype file_stat = File_stat (st_is_reg: bool) (st_size: int)

definition EINVAL :: int where "EINVAL = 22"

text \<open>Each system call gives its error number or its result; \<open>mmap n\<close> is the mapped bytes.\<close>

definition mmap_file ::
  "(int, unit) sum \<Rightarrow> (int, file_stat) sum \<Rightarrow> (nat \<Rightarrow> (int, byte list) sum) \<Rightarrow> (int, byte list) sum" where
  "mmap_file open_r fstat_r mmap =
     (case open_r of Inl e \<Rightarrow> Inl e
      | Inr _ \<Rightarrow> (case fstat_r of Inl e \<Rightarrow> Inl e
      | Inr st \<Rightarrow>
          if \<not> st_is_reg st \<or> st_size st \<le> 0 \<or> exceeds_size_max (st_size st) then Inl EINVAL
          else mmap (nat (st_size st))))"

definition verify_bytecode ::
  "(byte list \<Rightarrow> byte list \<Rightarrow> byte list \<Rightarrow> bool) \<Rightarrow> byte list \<Rightarrow> nat \<Rightarrow> byte list \<Rightarrow> bool" where
  "verify_bytecode ed25519_verify bytecode bytecode_size public_key =
     (if bytecode_size < ED25519_SIGNATURE_SIZE + 1 then False
      else ed25519_verify (cells (bytecode_size - ED25519_SIGNATURE_SIZE) bytecode_size bytecode)
             (take (bytecode_size - ED25519_SIGNATURE_SIZE) bytecode) public_key)"

definition printable :: "char \<Rightarrow> char" where
  "printable c = (if (of_char c :: nat) < 32 \<or> 126 < (of_char c :: nat) then CHR ''?'' else c)"

text \<open>
  \<open>load_module_bytecode\<close>: the message logged, or the mapped file and the size of the bytecode in it.
  \<open>debug\<close> is the build type, \<open>VERSION\<close> the server's version, \<open>junk\<close> the uninitialised key buffer.
\<close>

definition load_module_bytecode ::
  "bool \<Rightarrow> string \<Rightarrow> (byte list \<Rightarrow> byte list \<Rightarrow> byte list \<Rightarrow> bool) \<Rightarrow> byte list \<Rightarrow> string option
     \<Rightarrow> (int, byte list) sum \<Rightarrow> (string, byte list \<times> nat) sum" where
  "load_module_bytecode debug VERSION ed25519_verify junk env_pubkey mapped =
     (case mapped of Inl e \<Rightarrow> Inl ''Error opening module bytecode file''
      | Inr module_bytecode \<Rightarrow>
        let out_size = length module_bytecode in
        if out_size < VERSION_STRING_SIZE + ED25519_SIGNATURE_SIZE + 1 then Inl ''Module bytecode file is too small''
        else
        let pubkey = (case env_pubkey of None \<Rightarrow> [] | Some k \<Rightarrow> k);
            version_bytes = cells (out_size - ED25519_SIGNATURE_SIZE - VERSION_STRING_SIZE)
                              (out_size - ED25519_SIGNATURE_SIZE) module_bytecode;
            version_string = (map (\<lambda>b. char_of (unat b)) version_bytes)[VERSION_STRING_SIZE - 1 := NUL]
        in if \<not> strcmp_eq version_string VERSION \<and>
              \<not> (strcmp_eq version_string ''unknown_version'' \<and> strcmp_eq VERSION ''unknown_version'' \<and> debug) \<and>
              \<not> (strcmp_eq pubkey MAGIC_KEY_TO_ALLOW_INVALID_SIGNATURES \<and> debug)
           then Inl (''Module bytecode version string '' @ map printable (cstr version_string) @ '' does not match expected'')
           else if debug \<and> strcmp_eq pubkey MAGIC_KEY_TO_ALLOW_INVALID_SIGNATURES
           then Inr (module_bytecode, out_size - VERSION_STRING_SIZE - ED25519_SIGNATURE_SIZE)
           else case hex_decode junk ED25519_PUBLIC_KEY_SIZE pubkey of (pubkey_bytes, decoded_size) \<Rightarrow>
             if decoded_size \<noteq> ED25519_PUBLIC_KEY_SIZE then Inl ''Error decoding public key hex from environment variable''
             else if \<not> verify_bytecode ed25519_verify module_bytecode out_size pubkey_bytes
             then Inl ''Error verifying bytecode module''
             else Inr (module_bytecode, out_size - VERSION_STRING_SIZE - ED25519_SIGNATURE_SIZE))"

section \<open>Fields of a module file\<close>

lemma length_version_field [simp]: "length version < VERSION_STRING_SIZE \<Longrightarrow> length (version_field version) = VERSION_STRING_SIZE"
  by (simp add: version_field_def)

text \<open>The reader's copy of the version field is the version string it was made from.\<close>

lemma cstr_version_field:
  assumes "length version < VERSION_STRING_SIZE" "NUL \<notin> set version"
  shows "cstr ((map (\<lambda>b. char_of (unat b)) (version_field version))[VERSION_STRING_SIZE - 1 := NUL]) = version"
proof -
  obtain k where k: "VERSION_STRING_SIZE - length version = Suc k"
    using assms(1) by (metis Suc_diff_Suc)
  have field: "map (\<lambda>b. char_of (unat b)) (version_field version) = version @ NUL # replicate k NUL"
    using k by (simp add: version_field_def poke_def drop_replicate o_def)
  have "(version @ NUL # replicate k NUL)[VERSION_STRING_SIZE - 1 := NUL] = version @ NUL # replicate k NUL"
  proof -
    have "VERSION_STRING_SIZE - 1 = length version + k" using k by simp
    moreover have "(NUL # replicate k NUL)[k := NUL] = NUL # replicate k NUL"
      by (induction k) simp_all
    ultimately show ?thesis by (simp add: list_update_append)
  qed
  with field show ?thesis using cstr_append_NUL [OF assms(2)] by simp
qed

lemma hex_encode_ok:
  "\<forall>i < length bs. \<not> fails i \<Longrightarrow> n = length bs \<Longrightarrow> hex_encode fails bs n [] = (0, concat (map fprintf_02X bs))"
  using hex_encode_loop_ok [of 0 "length bs" bs fails "[]"] by (simp add: hex_encode_def)

lemma hex_decode_encoded:
  "length bs = n \<Longrightarrow> length dst = n \<Longrightarrow> hex_decode dst n (concat (map fprintf_02X bs)) = (bs, n)"
  by (simp add: hex_decode_eq cstr_no_NUL [OF encode_no_NUL] hex_pairs_encode poke_def)

lemma key_names_differ: "p @ PUBLIC_KEY_FILE_SUFFIX \<noteq> p @ PRIVATE_KEY_FILE_SUFFIX"
  by (simp add: PUBLIC_KEY_FILE_SUFFIX_def PRIVATE_KEY_FILE_SUFFIX_def)

lemma mmap_file_regular:
  "file \<noteq> [] \<Longrightarrow> mmap_file (Inr ()) (Inr (File_stat True (int (length file)))) (\<lambda>n. Inr (take n file)) = Inr file"
  by (simp add: mmap_file_def exceeds_size_max_def)

section \<open>What each operation does\<close>

lemma output_key_file_ok:
  assumes "ed25519_create_keypair seed = (pubkey, privkey)"
    and "length pubkey = ED25519_PUBLIC_KEY_SIZE" "length privkey = ED25519_PRIVATE_KEY_SIZE"
    and "fs (prefix @ PUBLIC_KEY_FILE_SUFFIX) = None" "fs (prefix @ PRIVATE_KEY_FILE_SUFFIX) = None"
    and "\<forall>name. can_create name" "\<forall>i. \<not> pub_fails i" "\<forall>i. \<not> priv_fails i"
  shows "output_key_file can_create (Some seed) ed25519_create_keypair pub_fails priv_fails prefix fs =
    (0, fs(prefix @ PRIVATE_KEY_FILE_SUFFIX \<mapsto> concat (map fprintf_02X privkey),
           prefix @ PUBLIC_KEY_FILE_SUFFIX \<mapsto> concat (map fprintf_02X pubkey)))"
  using assms key_names_differ [of prefix]
  by (auto simp: output_key_file_def get_key_file_filenames_def fopen_wx_def hex_encode_ok fun_upd_twist)

lemma compile_module_file_ok:
  assumes "compile txt0 = Some bytecode" "length version < VERSION_STRING_SIZE"
    and "length privkey = ED25519_PRIVATE_KEY_SIZE"
  shows "compile_module_file True True (Some txt0) compile extract_public_key ed25519_sign
      (Some (Some (concat (map fprintf_02X privkey)))) True True True version =
    Inr (bytecode @ version_field version @
         ed25519_sign (bytecode @ version_field version) (extract_public_key privkey) privkey)"
  using assms by (simp add: compile_module_file_def Let_def hex_decode_encoded)

text \<open>The three fields as the reader cuts them out of the file.\<close>

definition module_version :: "byte list \<Rightarrow> string" where
  "module_version file = cstr ((map (\<lambda>b. char_of (unat b))
     (cells (length file - ED25519_SIGNATURE_SIZE - VERSION_STRING_SIZE) (length file - ED25519_SIGNATURE_SIZE) file))
       [VERSION_STRING_SIZE - 1 := NUL])"

definition module_signed :: "byte list \<Rightarrow> byte list" where
  "module_signed file = take (length file - ED25519_SIGNATURE_SIZE) file"

definition module_signature :: "byte list \<Rightarrow> byte list" where
  "module_signature file = drop (length file - ED25519_SIGNATURE_SIZE) file"

lemma module_fields:
  assumes "length v = VERSION_STRING_SIZE" "length s = ED25519_SIGNATURE_SIZE"
  shows "cells (length (b @ v @ s) - ED25519_SIGNATURE_SIZE - VERSION_STRING_SIZE)
           (length (b @ v @ s) - ED25519_SIGNATURE_SIZE) (b @ v @ s) = v"
    and "module_signed (b @ v @ s) = b @ v" "module_signature (b @ v @ s) = s"
  using assms by (simp_all add: cells_def module_signed_def module_signature_def)

text \<open>What the loader accepts in a release build, both ways.\<close>

lemma load_release:
  assumes "length junk = ED25519_PUBLIC_KEY_SIZE"
  shows "load_module_bytecode False VERSION ed25519_verify junk env_pubkey mapped = Inr (file, n) \<longleftrightarrow>
    mapped = Inr file \<and> n + VERSION_STRING_SIZE + ED25519_SIGNATURE_SIZE = length file \<and> 0 < n \<and>
    module_version file = cstr VERSION \<and>
    (\<exists>key. env_pubkey = Some key \<and> 2 * ED25519_PUBLIC_KEY_SIZE \<le> length (cstr key) + 1 \<and>
       ed25519_verify (module_signature file) (module_signed file)
         (take ED25519_PUBLIC_KEY_SIZE (hex_pairs (cstr key))))"
    (is "?L = ?R")
proof (cases mapped)
  case (Inr m)
  let ?ok = "VERSION_STRING_SIZE + ED25519_SIGNATURE_SIZE < length m"
  let ?key = "case env_pubkey of None \<Rightarrow> [] | Some k \<Rightarrow> k"
  have dec: "hex_decode junk ED25519_PUBLIC_KEY_SIZE k =
      (take ED25519_PUBLIC_KEY_SIZE (hex_pairs (cstr k)) @ drop ((length (cstr k) + 1) div 2) junk,
       min ED25519_PUBLIC_KEY_SIZE ((length (cstr k) + 1) div 2))" for k
    using assms by (auto simp: hex_decode_eq poke_def min_def)
  have full: "min ED25519_PUBLIC_KEY_SIZE ((length (cstr k) + 1) div 2) = ED25519_PUBLIC_KEY_SIZE
      \<longleftrightarrow> 2 * ED25519_PUBLIC_KEY_SIZE \<le> length (cstr k) + 1" for k
    by (auto simp: min_def)
  have sig: "cells (length m - ED25519_SIGNATURE_SIZE) (length m) m = module_signature m"
    by (simp add: cells_def module_signature_def)
  show ?thesis
  proof (cases ?ok)
    case ok: True
    have L: "?L \<longleftrightarrow> m = file \<and> n = length m - VERSION_STRING_SIZE - ED25519_SIGNATURE_SIZE \<and>
        module_version m = cstr VERSION \<and> 2 * ED25519_PUBLIC_KEY_SIZE \<le> length (cstr ?key) + 1 \<and>
        ed25519_verify (module_signature m) (module_signed m) (take ED25519_PUBLIC_KEY_SIZE (hex_pairs (cstr ?key)))"
      using ok Inr dec full [of ?key] sig assms
      by (auto simp: load_module_bytecode_def Let_def module_version_def strcmp_eq_def verify_bytecode_def
          module_signed_def)
    show ?thesis unfolding L using ok Inr
      by (cases env_pubkey) (auto simp: ED25519_PUBLIC_KEY_SIZE_def)
  next
    case False
    then show ?thesis using Inr by (auto simp: load_module_bytecode_def)
  qed
qed (simp add: load_module_bytecode_def)

section \<open>Properties\<close>

text \<open>
  C21: Key pair, compiler and loader fit together. When the key files are new, \<open>output_key_file\<close> writes a
  pair; \<open>compile_module_file\<close> with the private key file makes a module; and a server of the same
  version, whose environment holds the text of the public key file, loads exactly that module and reports
  the length of the bytecode in it, whether it is a debug build or not. Of the signature functions it is
  used that a signature has its size and verifies, and that the public key is a function of the private one.
\<close>

theorem signed_module_roundtrip:
  assumes "ed25519_create_keypair seed = (pubkey, privkey)"
    and "length pubkey = ED25519_PUBLIC_KEY_SIZE" "length privkey = ED25519_PRIVATE_KEY_SIZE"
    and "extract_public_key privkey = pubkey"
    and "\<And>m. length (ed25519_sign m pubkey privkey) = ED25519_SIGNATURE_SIZE"
    and "\<And>m. ed25519_verify (ed25519_sign m pubkey privkey) m pubkey"
    and "fs (prefix @ PUBLIC_KEY_FILE_SUFFIX) = None" "fs (prefix @ PRIVATE_KEY_FILE_SUFFIX) = None"
    and "\<forall>name. can_create name" "\<forall>i. \<not> pub_fails i" "\<forall>i. \<not> priv_fails i"
    and "compile module_text = Some bytecode" "bytecode \<noteq> []"
    and "length version < VERSION_STRING_SIZE" "NUL \<notin> set version"
    and "length junk = ED25519_PUBLIC_KEY_SIZE"
  shows "\<exists>fs' file.
    output_key_file can_create (Some seed) ed25519_create_keypair pub_fails priv_fails prefix fs = (0, fs') \<and>
    compile_module_file True True (Some module_text) compile extract_public_key ed25519_sign
      (Some (fs' (prefix @ PRIVATE_KEY_FILE_SUFFIX))) True True True version = Inr file \<and>
    take (length bytecode) file = bytecode \<and>
    load_module_bytecode debug version ed25519_verify junk (fs' (prefix @ PUBLIC_KEY_FILE_SUFFIX))
      (mmap_file (Inr ()) (Inr (File_stat True (int (length file)))) (\<lambda>n. Inr (take n file))) =
      Inr (file, length bytecode)"
proof -
  let ?fs = "fs(prefix @ PRIVATE_KEY_FILE_SUFFIX \<mapsto> concat (map fprintf_02X privkey),
                prefix @ PUBLIC_KEY_FILE_SUFFIX \<mapsto> concat (map fprintf_02X pubkey))"
  let ?v = "version_field version"
  let ?s = "ed25519_sign (bytecode @ ?v) pubkey privkey"
  let ?file = "bytecode @ ?v @ ?s"
  have len: "length ?v = VERSION_STRING_SIZE" "length ?s = ED25519_SIGNATURE_SIZE" using assms by simp_all
  have mm: "mmap_file (Inr ()) (Inr (File_stat True (int (length ?file)))) (\<lambda>n. Inr (take n ?file)) = Inr ?file"
    using assms by (intro mmap_file_regular) simp
  have "load_module_bytecode debug version ed25519_verify junk (Some (concat (map fprintf_02X pubkey)))
      (mmap_file (Inr ()) (Inr (File_stat True (int (length ?file)))) (\<lambda>n. Inr (take n ?file))) =
      Inr (?file, length bytecode)"
    unfolding mm using assms module_fields [OF len, of bytecode] len
      cstr_version_field [of version] cstr_no_NUL [of version]
    by (simp add: load_module_bytecode_def Let_def hex_decode_encoded verify_bytecode_def
        strcmp_eq_def module_signed_def module_signature_def cells_def)
  then show ?thesis
    using output_key_file_ok [of ed25519_create_keypair seed pubkey privkey fs prefix can_create pub_fails priv_fails]
      compile_module_file_ok [of compile module_text bytecode version privkey extract_public_key ed25519_sign]
      assms key_names_differ [of prefix]
    by (intro exI [of _ ?fs] exI [of _ ?file]) (simp del: length_append take_append, simp)
qed

theorem signed_module_roundtrip_witness:
  "\<exists>fs' file.
    output_key_file (\<lambda>_. True) (Some [1]) (\<lambda>seed. (replicate 32 7, replicate 64 7)) (\<lambda>_. False) (\<lambda>_. False) ''k'' Map.empty = (0, fs') \<and>
    compile_module_file True True (Some [40, 41]) (\<lambda>t. Some (9 # t)) (take 32) (\<lambda>m pk sk. take 32 sk @ pk)
      (Some (fs' (''k'' @ PRIVATE_KEY_FILE_SUFFIX))) True True True ''1.0'' = Inr file \<and>
    take (length [9, 40, 41 :: byte]) file = [9, 40, 41] \<and>
    load_module_bytecode False ''1.0'' (\<lambda>s m pk. s = pk @ pk) (replicate 32 0) (fs' (''k'' @ PUBLIC_KEY_FILE_SUFFIX))
      (mmap_file (Inr ()) (Inr (File_stat True (int (length file)))) (\<lambda>n. Inr (take n file))) =
      Inr (file, length [9, 40, 41 :: byte])"
  by (rule signed_module_roundtrip [of "\<lambda>seed. (replicate 32 7, replicate 64 7)" "[1]" "replicate 32 7" "replicate 64 7"])
    (simp_all add: file_sizes)

text \<open>
  C4: What a release build loads. It accepts a module exactly when the file could be mapped, holds at
  least one byte of bytecode before its version field and signature, carries the server's version,
  and its signature verifies over bytecode and version with the public key of the environment, which
  has to give 32 bytes (63 digits are enough: the last one then counts as a high half). In
  particular the key that allows invalid signatures does nothing here, and no variable means no module.
\<close>

theorem release_loads_only_verified:
  assumes "length junk = ED25519_PUBLIC_KEY_SIZE"
  shows "(load_module_bytecode False VERSION ed25519_verify junk env_pubkey mapped = Inr (file, n)) =
    (mapped = Inr file \<and> n + VERSION_STRING_SIZE + ED25519_SIGNATURE_SIZE = length file \<and> 0 < n \<and>
     module_version file = cstr VERSION \<and>
     (\<exists>key. env_pubkey = Some key \<and> 2 * ED25519_PUBLIC_KEY_SIZE \<le> length (cstr key) + 1 \<and>
       ed25519_verify (module_signature file) (module_signed file)
         (take ED25519_PUBLIC_KEY_SIZE (hex_pairs (cstr key)))))"
  by (rule load_release [OF assms])

theorem release_loads_only_verified_witness:
  "load_module_bytecode False ''1.0'' (\<lambda>s m k. s = replicate 64 3) (replicate 32 0) (Some (replicate 63 CHR ''a''))
     (Inr (5 # version_field ''1.0'' @ replicate 64 3)) = Inr (5 # version_field ''1.0'' @ replicate 64 3, 1)
   \<and> load_module_bytecode False ''1.0'' (\<lambda>s m k. True) (replicate 32 0) (Some MAGIC_KEY_TO_ALLOW_INVALID_SIGNATURES)
     (Inr (5 # version_field ''1.0'' @ replicate 64 3)) \<noteq> Inr (5 # version_field ''1.0'' @ replicate 64 3, 1)"
proof -
  let ?v = "version_field ''1.0''" and ?s = "replicate 64 (3 :: byte)"
  have len: "length ?v = VERSION_STRING_SIZE" "length ?s = ED25519_SIGNATURE_SIZE" by (simp_all add: file_sizes)
  have "module_version ([5] @ ?v @ ?s) = ''1.0''" "module_signature ([5] @ ?v @ ?s) = ?s"
    using module_fields [OF len, of "[5]"] cstr_version_field [of "''1.0''"]
    by (simp_all only: module_version_def) (simp_all add: file_sizes)
  moreover have "length (cstr (replicate 63 CHR ''a'')) = 63" by (simp add: cstr_no_NUL)
  ultimately show ?thesis using len
    release_loads_only_verified [of "replicate 32 0" "''1.0''" "\<lambda>s m k. s = ?s" "Some (replicate 63 CHR ''a'')"
      "Inr (5 # ?v @ ?s)" "5 # ?v @ ?s" 1]
    release_loads_only_verified [of "replicate 32 0" "''1.0''" "\<lambda>s m k. True"
      "Some MAGIC_KEY_TO_ALLOW_INVALID_SIGNATURES" "Inr (5 # ?v @ ?s)" "5 # ?v @ ?s" 1]
    by (simp add: file_sizes MAGIC_KEY_TO_ALLOW_INVALID_SIGNATURES_def)
qed



text \<open>A failed run can leave an empty private key file behind, which makes the next run fail too.\<close>

lemma failed_run_leaves_empty_key_file:
  "output_key_file (\<lambda>_. True) (Some s) kp pf qf ''k'' [''k.pubkey'' \<mapsto> ''x''] = (1, [''k.pubkey'' \<mapsto> ''x'', ''k.privkey'' \<mapsto> []])"
  by (auto simp: output_key_file_def get_key_file_filenames_def fopen_wx_def PUBLIC_KEY_FILE_SUFFIX_def PRIVATE_KEY_FILE_SUFFIX_def)

end
