(* ===== verification/Thread_State.thy ===== *)
theory Thread_State
  imports Cmd_Args Function_Cache Utils "HOL-Library.Monad_Syntax"
begin

text \<open>
  The state of a thread that runs a QuickJS VM (\<open>threadstate.c\<close>, \<open>threadstate.h\<close>), the world it acts on,
  the module loader (\<open>custom_module_loader.c\<close>) and backtraces (\<open>backtrace.c\<close>). QuickJS is a
  parameter: the record \<open>engine\<close> has one field per call the code makes, \<open>'j\<close> is the state of a
  runtime and its context, \<open>'v\<close> a value. What a run of JavaScript does to the server is a tree of
  calls of \<open>JSockD.sendMessage\<close>. The reference counts of QuickJS are not modelled.

  Functions return \<open>None\<close> when they do not return: a system call that was not answered, memory that
  may not be accessed, or, in a debug build, an \<open>assert\<close> that fails. Logging has no effect here (see
  the theory of the log).
\<close>

section \<open>Values and the engine\<close>

datatype 'v js = JS_UNDEFINED | JS_NULL | JS_EXCEPTION | Js 'v

datatype ('j, 'v) js_run =
    Js_done "'v js" 'j
  | Js_send "'v js list" 'j "'v js \<Rightarrow> 'j \<Rightarrow> ('j, 'v) js_run"

record ('j, 'v) engine =
  JS_NewRuntime :: "nat \<Rightarrow> 'j option"
  JS_NewContext :: "'j \<Rightarrow> 'j option"
  qjs_add_intrinsic_text_decoder :: "'j \<Rightarrow> int \<times> 'j"
  qjs_add_intrinsic_text_encoder :: "'j \<Rightarrow> int \<times> 'j"
  add_jsockd_calls :: "'j \<Rightarrow> int \<times> bool \<times> bool \<times> int \<times> 'j"
  JS_SetPropertyStr :: "string \<Rightarrow> 'j \<Rightarrow> int \<times> 'j"
  JS_ReadObject :: "byte list \<Rightarrow> 'j \<Rightarrow> 'v js \<times> 'j"
  is_module :: "'v js \<Rightarrow> bool"
  JS_ResolveModule :: "'v js \<Rightarrow> 'j \<Rightarrow> int \<times> 'j"
  js_module_set_import_meta :: "'v js \<Rightarrow> 'j \<Rightarrow> int \<times> 'j"
  eval_module :: "'v js \<Rightarrow> 'j \<Rightarrow> 'v js \<times> 'j"
  JS_GetModuleNamespace :: "'v js \<Rightarrow> 'j \<Rightarrow> 'v js \<times> 'j"
  compile_script :: "string \<Rightarrow> 'j \<Rightarrow> byte list option \<times> 'j"
  eval_function :: "'v js \<Rightarrow> 'j \<Rightarrow> ('j, 'v) js_run"
  is_object :: "'v js \<Rightarrow> bool"
  JS_GetPropertyStr :: "'v js \<Rightarrow> string \<Rightarrow> 'j \<Rightarrow> 'v js \<times> 'j"
  is_function :: "'v js \<Rightarrow> bool"
  JS_ParseJSON :: "string \<Rightarrow> 'j \<Rightarrow> 'v js \<times> 'j"
  JS_Call :: "'v js \<Rightarrow> 'v js list \<Rightarrow> 'j \<Rightarrow> ('j, 'v) js_run"
  call_backtrace :: "'v js \<Rightarrow> 'v js list \<Rightarrow> 'j \<Rightarrow> 'v js \<times> 'j"
  JS_JSONStringify :: "'v js \<Rightarrow> 'v js \<Rightarrow> 'v js \<Rightarrow> 'j \<Rightarrow> 'v js \<times> 'j"
  JS_NewStringLen :: "string \<Rightarrow> 'j \<Rightarrow> 'v js \<times> 'j"
  JS_ToCStringLen :: "'v js \<Rightarrow> 'j \<Rightarrow> string option \<times> 'j"
  print_exception :: "'j \<Rightarrow> string list \<times> 'j"
  JS_ComputeMemoryUsage :: "'j \<Rightarrow> int \<times> int"

section \<open>Configuration and world\<close>

definition INPUT_BUF_BYTES :: nat where "INPUT_BUF_BYTES = 1024 * 1024"
definition MESSAGE_UUID_MAX_BYTES :: nat where "MESSAGE_UUID_MAX_BYTES = 32"
definition ERROR_MSG_MAX_BYTES :: nat where "ERROR_MSG_MAX_BYTES = 1024 * 10"
definition MEMORY_CHECK_INTERVAL :: int where "MEMORY_CHECK_INTERVAL = 100"
definition MEMORY_INCREASE_MAX_COUNT :: int where "MEMORY_INCREASE_MAX_COUNT = 3"

text \<open>
  What is fixed while the server runs: the build type, the arguments, the size of the input buffers
  (\<open>INPUT_BUF_BYTES\<close>), the bits of the cache, the hash function, and the modules loaded.
\<close>

record config =
  debug :: bool
  g_cmd_args :: CmdArgs
  input_buf_bytes :: nat
  hash_bits :: nat
  xxh3 :: "string \<Rightarrow> u64 \<times> u64"
  g_shims_module_bytecode :: "byte list"
  g_backtrace_module_bytecode :: "byte list"
  g_module_bytecode :: "byte list option"
  g_source_map :: string
  g_n_threads :: nat

text \<open>
  One answered \<open>ppoll\<close> and, when it is ready, one \<open>read\<close>: the number of events, whether the server was
  interrupted at that moment, and the bytes or the error (with whether it is \<open>EINTR\<close>).
\<close>

datatype poll_answer = Poll_answer (pa_events: int) (pa_interrupted: bool) (pa_read: "string + bool")

text \<open>
  The world: answers of \<open>write\<close> and \<open>writev\<close> and what they wrote to the socket, the clock (one reading
  per tick, \<open>None\<close> for a failure), the polls of the message handler, what the next \<open>pthread_create\<close>,
  \<open>pthread_join\<close> and \<open>open_memstream\<close> return, the shared flags, the function cache, and the blocks of bytecode that were
  allocated (the block at index \<open>a\<close> has address \<open>a\<close>).
\<close>

record world =
  w_writes :: write_script
  w_sent :: string
  w_clock :: "nat \<Rightarrow> timespec option"
  w_tick :: nat
  w_polls :: "poll_answer list"
  w_pthread_create :: int
  w_pthread_join :: int
  w_memstream :: bool
  w_runtimes :: nat
  g_interrupted_or_error :: bool
  g_source_map_load_count :: int
  source_map_unmapped :: bool
  g_new_thread_state_count :: int
  w_cache :: function_cache
  w_mem :: "byte list list"

definition clock_gettime :: "world \<Rightarrow> timespec option \<times> world" where
  "clock_gettime w = (w_clock w (w_tick w), w\<lparr>w_tick := w_tick w + 1\<rparr>)"

section \<open>The thread state\<close>

datatype replacement_state =
    REPLACEMENT_THREAD_STATE_NONE
  | REPLACEMENT_THREAD_STATE_INIT
  | REPLACEMENT_THREAD_STATE_INIT_COMPLETE
  | REPLACEMENT_THREAD_STATE_CLEANUP
  | REPLACEMENT_THREAD_STATE_CLEANUP_COMPLETE

record SocketState =
  unix_socket_filename :: string
  sockfd :: int
  streamfd :: int
  stream_io_err :: int
  sun_path :: string

text \<open>
  A \<open>ThreadState\<close>. What its \<open>my_replacement\<close>, \<open>socket_state\<close> and \<open>input_buf\<close> point to is shared with other
  objects and is kept beside it (see the server). \<open>ts_ctx_freed\<close> marks a context that was freed
  but is still pointed to.
\<close>

record ('j, 'v) ThreadState =
  ts_thread_index :: nat
  ts_rt :: "'j option"
  ts_ctx_freed :: bool
  ts_exit_status :: int
  ts_line_n :: int
  ts_compiled_module :: "'v js"
  ts_compiled_query :: "'v js"
  ts_backtrace_module :: "'v js"
  ts_last_js_execution_start :: timespec
  ts_current_uuid :: "char list"
  ts_current_uuid_len :: nat
  ts_memory_check_count :: int
  ts_memory_increase_count :: int
  ts_last_memory_usage :: int
  ts_last_n_cached_functions :: int
  ts_truncated :: bool
  ts_sourcemap_str :: "'v js"
  ts_last_command_exec_time_ns :: u64
  ts_replacement_thread_state :: replacement_state
  ts_last_active_time :: timespec
  ts_dangling_bytecode :: "nat option"
  ts_cached_function_in_use :: "nat option"
  ts_manually_trigger_thread_state_reset :: bool

section \<open>Loading modules\<close>

definition load_binary_module :: "('j, 'v) engine \<Rightarrow> byte list \<Rightarrow> 'j \<Rightarrow> 'v js \<times> 'j" where
  "load_binary_module e buf j =
     (case JS_ReadObject e buf j of (obj, j1) \<Rightarrow>
      if obj = JS_EXCEPTION then (obj, j1)
      else if \<not> is_module e obj then (JS_EXCEPTION, j1)
      else case JS_ResolveModule e obj j1 of (r, j2) \<Rightarrow>
      if r < 0 then (JS_EXCEPTION, j2)
      else case js_module_set_import_meta e obj j2 of (r2, j3) \<Rightarrow>
      if r2 < 0 then (JS_EXCEPTION, j3)
      else case eval_module e obj j3 of (val, j4) \<Rightarrow>
      if val = JS_EXCEPTION then (val, j4)
      else JS_GetModuleNamespace e obj j4)"

definition allowed_modules :: "string list" where
  "allowed_modules = [''os'', ''std'']"

text \<open>The loader of imports: QuickJS's own for the allowed names, otherwise a reference error.\<close>

definition jsockd_js_module_loader :: "(string \<Rightarrow> 'm option) \<Rightarrow> string \<Rightarrow> string + 'm option" where
  "jsockd_js_module_loader js_module_loader module_name =
     (if list_ex (strcmp_eq module_name) allowed_modules then Inr (js_module_loader module_name)
      else Inl (''JSockD doesn't allow module imports other than 'os' and 'std'' @ [CHR 0x27]))"

section \<open>Contexts\<close>

text \<open>\<open>add_intrinsic_jsockd\<close>: the class, the prototype, the constructor, the global property.\<close>

definition add_intrinsic_jsockd :: "('j, 'v) engine \<Rightarrow> 'j \<Rightarrow> int \<times> 'j" where
  "add_intrinsic_jsockd e j =
     (case add_jsockd_calls e j of (new_class, proto_exc, ctor_exc, set_r, j') \<Rightarrow>
      if new_class < 0 then (-1, j')
      else if proto_exc then (-1, j')
      else if ctor_exc then (-1, j')
      else (set_r, j'))"

text \<open>The result, whether \<open>*out_ctx\<close> is set, how often the context was freed, and the runtime.\<close>

definition new_custom_context :: "('j, 'v) engine \<Rightarrow> 'j \<Rightarrow> int \<times> bool \<times> nat \<times> 'j" where
  "new_custom_context e rt =
     (case JS_NewContext e rt of
        None \<Rightarrow> (-1, False, 0, rt)
      | Some j \<Rightarrow>
          (case qjs_add_intrinsic_text_decoder e j of (r1, j1) \<Rightarrow>
           if r1 < 0 then (-1, True, 1, j1)
           else case qjs_add_intrinsic_text_encoder e j1 of (r2, j2) \<Rightarrow>
           if r2 < 0 then (-1, True, 1, j2)
           else case add_intrinsic_jsockd e j2 of (r3, j3) \<Rightarrow>
           if r3 \<noteq> 1 then (-1, True, 1, j3)
           else (0, True, 0, j3)))"

text \<open>Whether a context is returned, and how often it was freed.\<close>

definition new_custom_context_for_worker :: "('j, 'v) engine \<Rightarrow> 'j \<Rightarrow> bool \<times> nat \<times> 'j" where
  "new_custom_context_for_worker e rt =
     (case new_custom_context e rt of (r, ctx_set, frees, j) \<Rightarrow>
      if r \<noteq> 0 then (False, if ctx_set then frees + 1 else frees, j) else (True, frees, j))"

section \<open>Interrupts\<close>

text \<open>The time test that interrupts a command: \<open>int64_t\<close> difference, \<open>uint64_t\<close> limit.\<close>

definition runtime_exceeded :: "config \<Rightarrow> timespec \<Rightarrow> timespec \<Rightarrow> bool" where
  "runtime_exceeded cfg now start =
     (let delta_ns = ns_time_diff now start
      in 0 <s delta_ns \<and> of_nat (max_command_runtime_us (g_cmd_args cfg)) * 1000 < delta_ns)"

definition interrupt_handler :: "config \<Rightarrow> ('j, 'v) ThreadState \<Rightarrow> world \<Rightarrow> int \<times> world" where
  "interrupt_handler cfg state w =
     (let start = ts_last_js_execution_start state in
      if tv_sec start \<noteq> 0 then
        (case clock_gettime w of
           (None, w') \<Rightarrow> (1, w')
         | (Some now, w') \<Rightarrow>
             if runtime_exceeded cfg now start then (1, w')
             else (if g_interrupted_or_error w' then 1 else 0, w'))
      else (if g_interrupted_or_error w then 1 else 0, w))"

section \<open>Backtraces\<close>

datatype BacktraceFormat = BACKTRACE_JSON | BACKTRACE_PRETTY

text \<open>What the printer of an exception leaves in the bounded error buffer.\<close>

definition error_text :: "string list \<Rightarrow> string" where
  "error_text pieces =
     (let emb = foldl write_to_wbuf \<lparr>wb_buf = replicate ERROR_MSG_MAX_BYTES NUL, wb_index = 0, wb_length = ERROR_MSG_MAX_BYTES\<rparr> pieces
      in take (wb_index emb) (wb_buf emb))"

text \<open>
  The source map is read from its mapping the first time a thread state needs it. A string made of
  the mapping after it was unmapped dereferences a null pointer: then the call does not return.
\<close>

definition load_sourcemap ::
  "('j, 'v) engine \<Rightarrow> config \<Rightarrow> ('j, 'v) ThreadState \<Rightarrow> 'j \<Rightarrow> world \<Rightarrow> (('j, 'v) ThreadState \<times> 'j \<times> world) option" where
  "load_sourcemap e cfg ts j w =
     (if ts_sourcemap_str ts \<noteq> JS_UNDEFINED then Some (ts, j, w)
      else if g_source_map cfg \<noteq> [] \<and> source_map_unmapped w then None
      else case (if g_source_map cfg = [] then (JS_UNDEFINED, j) else JS_NewStringLen e (g_source_map cfg) j) of (s, j') \<Rightarrow>
        let c = g_source_map_load_count w;
            last_one = (c + 1 = int (g_n_threads cfg) \<and> g_source_map cfg \<noteq> [])
        in Some (ts\<lparr>ts_sourcemap_str := s\<rparr>, j',
                 w\<lparr>g_source_map_load_count := c + 1, source_map_unmapped := source_map_unmapped w \<or> last_one\<rparr>))"

definition get_backtrace ::
  "('j, 'v) engine \<Rightarrow> config \<Rightarrow> string \<Rightarrow> BacktraceFormat \<Rightarrow> ('j, 'v) ThreadState \<Rightarrow> 'j \<Rightarrow> world
     \<Rightarrow> (string option \<times> ('j, 'v) ThreadState \<times> 'j \<times> world) option" where
  "get_backtrace e cfg backtrace backtrace_format ts j w =
     (let bt_func_name = (if backtrace_format = BACKTRACE_JSON then ''parseBacktrace'' else ''formatBacktrace'')
      in case JS_GetPropertyStr e (ts_backtrace_module ts) bt_func_name j of (bt_func, j1) \<Rightarrow>
      if \<not> is_function e bt_func then Some (None, ts, j1, w)
      else do {
        (ts', j2, w') \<leftarrow> load_sourcemap e cfg ts j1 w;
        case JS_NewStringLen e backtrace j2 of (backtrace_str, j3) \<Rightarrow>
        case call_backtrace e bt_func [ts_sourcemap_str ts', backtrace_str] j3 of (parsed, j4) \<Rightarrow>
        if parsed = JS_EXCEPTION then Some (None, ts', j4, w')
        else case JS_ToCStringLen e parsed j4 of (bt_str, j5) \<Rightarrow> Some (bt_str, ts', j5, w')
      })"

section \<open>Setting up and tearing down\<close>

fun set_properties :: "('j, 'v) engine \<Rightarrow> string list \<Rightarrow> int \<Rightarrow> 'j \<Rightarrow> int \<times> 'j" where
  "set_properties e [] r j = (r, j)"
| "set_properties e (p # ps) r j = (case JS_SetPropertyStr e p j of (r', j') \<Rightarrow> set_properties e ps (r + r') j')"

definition console_properties :: "string list" where
  "console_properties = [''log'', ''warn'', ''info'', ''error'', ''debug'', ''trace'', ''console'']"

text \<open>The plain fields that \<open>init_thread_state\<close> assigns first.\<close>

definition reset_fields :: "nat \<Rightarrow> ('j, 'v) ThreadState \<Rightarrow> ('j, 'v) ThreadState" where
  "reset_fields thread_index ts = ts\<lparr>
     ts_thread_index := thread_index,
     ts_exit_status := 0,
     ts_line_n := 0,
     ts_compiled_query := JS_UNDEFINED,
     ts_last_js_execution_start := \<lparr>tv_sec = 0, tv_nsec = 0\<rparr>,
     ts_current_uuid := (ts_current_uuid ts)[0 := NUL],
     ts_current_uuid_len := 0,
     ts_memory_check_count := 0,
     ts_memory_increase_count := 0,
     ts_last_memory_usage := 0,
     ts_last_n_cached_functions := 1,
     ts_truncated := False,
     ts_last_command_exec_time_ns := 0,
     ts_dangling_bytecode := None,
     ts_cached_function_in_use := None,
     ts_sourcemap_str := JS_UNDEFINED,
     ts_replacement_thread_state := REPLACEMENT_THREAD_STATE_NONE\<rparr>"

text \<open>The part after the context exists: console, module loader, shims, backtrace module, the user's module.\<close>

definition load_modules ::
  "('j, 'v) engine \<Rightarrow> config \<Rightarrow> ('j, 'v) ThreadState \<Rightarrow> 'j \<Rightarrow> world \<Rightarrow> (int \<times> ('j, 'v) ThreadState \<times> world) option" where
  "load_modules e cfg ts j w =
     (case set_properties e console_properties 0 j of (r, j1) \<Rightarrow>
      if debug cfg \<and> r \<noteq> 7 then None
      else case load_binary_module e (g_shims_module_bytecode cfg) j1 of (shims_module, j2) \<Rightarrow>
      if debug cfg \<and> shims_module = JS_EXCEPTION then None
      else case load_binary_module e (g_backtrace_module_bytecode cfg) j2 of (backtrace_module, j3) \<Rightarrow>
      if debug cfg \<and> backtrace_module = JS_EXCEPTION then None
      else let ts1 = ts\<lparr>ts_backtrace_module := backtrace_module\<rparr> in
      case (case g_module_bytecode cfg of
              Some m \<Rightarrow> load_binary_module e m j3
            | None \<Rightarrow> (JS_UNDEFINED, j3)) of (compiled_module, j4) \<Rightarrow>
      let ts2 = ts1\<lparr>ts_compiled_module := compiled_module\<rparr> in
      if compiled_module = JS_EXCEPTION then
        (case print_exception e j4 of (pieces, j5) \<Rightarrow> do {
           (bt_str, ts3, j6, w') \<leftarrow> get_backtrace e cfg (error_text pieces) BACKTRACE_PRETTY ts2 j5 w;
           Some (-1, ts3\<lparr>ts_rt := Some j6\<rparr>, w')
         })
      else Some (0, ts2\<lparr>ts_rt := Some j4,
             ts_manually_trigger_thread_state_reset := (ts_manually_trigger_thread_state_reset ts \<and> \<not> debug cfg)\<rparr>, w))"

definition init_thread_state ::
  "('j, 'v) engine \<Rightarrow> config \<Rightarrow> nat \<Rightarrow> ('j, 'v) ThreadState \<Rightarrow> world \<Rightarrow> (int \<times> ('j, 'v) ThreadState \<times> world) option" where
  "init_thread_state e cfg thread_index ts w =
     (if \<not> thread_index < MAX_THREADS then None
      else let ts1 = reset_fields thread_index ts in
      case clock_gettime w of
        (None, w1) \<Rightarrow> Some (-1, ts1, w1)
      | (Some t, w1) \<Rightarrow>
          let ts2 = ts1\<lparr>ts_last_active_time := t\<rparr>;
              w2 = w1\<lparr>w_runtimes := w_runtimes w1 + 1\<rparr>
          in (case JS_NewRuntime e (w_runtimes w1) of
                None \<Rightarrow> Some (-1, ts2\<lparr>ts_rt := None\<rparr>, w2)
              | Some rt \<Rightarrow>
                  (case new_custom_context e rt of (r, ctx_set, frees, j) \<Rightarrow>
                   if r \<noteq> 0 then Some (-1, ts2\<lparr>ts_rt := Some j, ts_ctx_freed := ctx_set\<rparr>, w2)
                   else load_modules e cfg (ts2\<lparr>ts_ctx_freed := False\<rparr>) j w2)))"

text \<open>\<open>free\<close> of a block of bytecode; freeing a null pointer does nothing.\<close>

definition free_bytecode :: "nat option \<Rightarrow> world \<Rightarrow> world" where
  "free_bytecode p w =
     (case p of None \<Rightarrow> w | Some a \<Rightarrow> w\<lparr>w_cache := (fst (w_cache w), snd (w_cache w) @ [Some a])\<rparr>)"

definition cleanup_command_state :: "('j, 'v) ThreadState \<Rightarrow> world \<Rightarrow> ('j, 'v) ThreadState \<times> world" where
  "cleanup_command_state ts w =
     (let w1 = free_bytecode (ts_dangling_bytecode ts) w;
          ts1 = ts\<lparr>ts_dangling_bytecode := None, ts_compiled_query := JS_UNDEFINED\<rparr>
      in case ts_cached_function_in_use ts1 of
           None \<Rightarrow> (ts1, w1)
         | Some b \<Rightarrow> (ts1\<lparr>ts_cached_function_in_use := None\<rparr>, w1\<lparr>w_cache := release_cached_function (w_cache w1) b\<rparr>))"

definition cleanup_thread_state :: "('j, 'v) ThreadState \<Rightarrow> world \<Rightarrow> ('j, 'v) ThreadState \<times> world" where
  "cleanup_thread_state ts w =
     (if ts_rt ts = None then (ts, w)
      else case cleanup_command_state ts w of (ts', w') \<Rightarrow> (ts'\<lparr>ts_rt := None\<rparr>, w'))"

section \<open>What setting up guarantees\<close>

lemma error_text_prefix: "error_text pieces = take ERROR_MSG_MAX_BYTES (concat pieces)"
  using foldl_write_to_wbuf [of "\<lparr>wb_buf = replicate ERROR_MSG_MAX_BYTES NUL, wb_index = 0, wb_length = ERROR_MSG_MAX_BYTES\<rparr>" pieces]
  by (simp add: error_text_def Let_def wbuf_wf_def wbuf_text_def)

text \<open>The parts of the world a thread state shares with nobody else: output, cache, memory, flag.\<close>

definition same_shared :: "world \<Rightarrow> world \<Rightarrow> bool" where
  "same_shared w w' \<longleftrightarrow> w_sent w' = w_sent w \<and> w_writes w' = w_writes w \<and> w_polls w' = w_polls w \<and> w_cache w' = w_cache w \<and>
     w_mem w' = w_mem w \<and> g_interrupted_or_error w' = g_interrupted_or_error w"

lemma same_shared_refl [simp]: "same_shared w w"
  by (simp add: same_shared_def)

lemma clock_gettime_eq [simp]: "clock_gettime w = (w_clock w (w_tick w), w\<lparr>w_tick := w_tick w + 1\<rparr>)"
  by (rule clock_gettime_def)

text \<open>A thread state with no command in flight.\<close>

definition ts_idle :: "('j, 'v) ThreadState \<Rightarrow> bool" where
  "ts_idle ts \<longleftrightarrow> ts_line_n ts = 0 \<and> ts_compiled_query ts = JS_UNDEFINED \<and> ts_dangling_bytecode ts = None \<and>
     ts_cached_function_in_use ts = None"

lemma get_backtrace_keeps:
  assumes "get_backtrace e cfg txt fmt ts j w = Some (bt, ts', j', w')"
  shows "same_shared w w' \<and> (\<exists>s. ts' = ts\<lparr>ts_sourcemap_str := s\<rparr>)"
proof -
  have keep: "same_shared w w1 \<and> (\<exists>s. ts1 = ts\<lparr>ts_sourcemap_str := s\<rparr>)"
    if "load_sourcemap e cfg ts j0 w = Some (ts1, j1, w1)" for j0 ts1 j1 w1
  proof (cases "ts_sourcemap_str ts = JS_UNDEFINED")
    case True
    with that show ?thesis
      by (auto simp: load_sourcemap_def same_shared_def Let_def split: prod.splits if_splits)
  next
    case False
    with that show ?thesis by (auto simp: load_sourcemap_def intro: exI [of _ "ts_sourcemap_str ts"])
  qed
  have id: "\<exists>s. ts = ts\<lparr>ts_sourcemap_str := s\<rparr>" by (rule exI [of _ "ts_sourcemap_str ts"]) simp
  obtain f j1 where f: "JS_GetPropertyStr e (ts_backtrace_module ts)
      (if fmt = BACKTRACE_JSON then ''parseBacktrace'' else ''formatBacktrace'') j = (f, j1)" by fastforce
  note run = assms [unfolded get_backtrace_def Let_def f prod.case]
  show ?thesis
  proof (cases "is_function e f")
    case True
    then obtain ts1 j2 w1 where l: "load_sourcemap e cfg ts j1 w = Some (ts1, j2, w1)"
      using run by (auto simp: bind_eq_Some_conv)
    with True run have "ts' = ts1" "w' = w1" by (auto split: prod.splits if_splits)
    with keep [OF l] show ?thesis by simp
  qed (use run id in auto)
qed

lemma load_modules_keeps:
  assumes "load_modules e cfg ts j w = Some (r, ts', w')"
  shows "same_shared w w' \<and> (ts_idle ts \<longrightarrow> ts_idle ts') \<and> ts_rt ts' \<noteq> None \<and> ts_ctx_freed ts' = ts_ctx_freed ts \<and>
    ts_thread_index ts' = ts_thread_index ts \<and> ts_exit_status ts' = ts_exit_status ts \<and>
    ts_replacement_thread_state ts' = ts_replacement_thread_state ts \<and>
    ts_current_uuid ts' = ts_current_uuid ts \<and> ts_current_uuid_len ts' = ts_current_uuid_len ts \<and>
    (r = 0 \<and> ts_compiled_module ts' \<noteq> JS_EXCEPTION \<or> r = -1 \<and> ts_compiled_module ts' = JS_EXCEPTION)"
proof -
  obtain r1 j1 where 1: "set_properties e console_properties 0 j = (r1, j1)" by fastforce
  obtain sm j2 where 2: "load_binary_module e (g_shims_module_bytecode cfg) j1 = (sm, j2)" by fastforce
  obtain bm j3 where 3: "load_binary_module e (g_backtrace_module_bytecode cfg) j2 = (bm, j3)" by fastforce
  obtain cm j4 where 4: "(case g_module_bytecode cfg of Some m \<Rightarrow> load_binary_module e m j3 | None \<Rightarrow> (JS_UNDEFINED, j3)) = (cm, j4)"
    by fastforce
  obtain pieces j5 where 5: "print_exception e j4 = (pieces, j5)" by fastforce
  note run = assms [unfolded load_modules_def 1 2 3 4 5 Let_def prod.case]
  show ?thesis
  proof (cases "cm = JS_EXCEPTION")
    case True
    with run obtain bt ts3 j6 where
      bt: "get_backtrace e cfg (error_text pieces) BACKTRACE_PRETTY
             (ts\<lparr>ts_backtrace_module := bm, ts_compiled_module := cm\<rparr>) j5 w = Some (bt, ts3, j6, w')"
      and r: "r = -1" "ts' = ts3\<lparr>ts_rt := Some j6\<rparr>"
      by (auto simp: bind_eq_Some_conv split: if_splits)
    from get_backtrace_keeps [OF bt] r True show ?thesis by (auto simp: ts_idle_def)
  next
    case False
    with run have "r = 0" "w' = w" "ts' = ts\<lparr>ts_backtrace_module := bm, ts_compiled_module := cm, ts_rt := Some j4,
        ts_manually_trigger_thread_state_reset := (ts_manually_trigger_thread_state_reset ts \<and> \<not> debug cfg)\<rparr>"
      by (auto split: if_splits)
    with False show ?thesis by (simp add: ts_idle_def)
  qed
qed

lemma reset_fields_idle: "ts_idle (reset_fields i ts)"
  by (simp add: ts_idle_def reset_fields_def)

lemma init_thread_state_cases:
  assumes "init_thread_state e cfg i ts w = Some (r, ts', w')"
  shows "same_shared w w' \<and> ts_idle ts' \<and> ts_thread_index ts' = i \<and> ts_exit_status ts' = 0 \<and>
    ts_replacement_thread_state ts' = REPLACEMENT_THREAD_STATE_NONE \<and> (r = 0 \<or> r = -1) \<and>
    length (ts_current_uuid ts') = length (ts_current_uuid ts) \<and> ts_current_uuid_len ts' = 0 \<and>
    (r = 0 \<longrightarrow> ts_rt ts' \<noteq> None \<and> \<not> ts_ctx_freed ts' \<and> ts_compiled_module ts' \<noteq> JS_EXCEPTION)"
proof (cases "w_clock w (w_tick w)")
  case None
  then show ?thesis
    using assms reset_fields_idle [of i ts]
    by (auto simp: init_thread_state_def same_shared_def reset_fields_def split: if_splits)
next
  case (Some t)
  define w2 where "w2 = w\<lparr>w_tick := w_tick w + 1, w_runtimes := w_runtimes (w\<lparr>w_tick := w_tick w + 1\<rparr>) + 1\<rparr>"
  define ts2 where "ts2 = (reset_fields i ts)\<lparr>ts_last_active_time := t\<rparr>"
  have sh: "same_shared w w2" by (simp add: w2_def same_shared_def)
  have ts2: "ts_idle ts2" "ts_thread_index ts2 = i" "ts_exit_status ts2 = 0"
    "ts_replacement_thread_state ts2 = REPLACEMENT_THREAD_STATE_NONE"
    "length (ts_current_uuid ts2) = length (ts_current_uuid ts)" "ts_current_uuid_len ts2 = 0"
    by (simp_all add: ts2_def ts_idle_def reset_fields_def)
  have run: "(case JS_NewRuntime e (w_runtimes w) of
        None \<Rightarrow> Some (-1, ts2\<lparr>ts_rt := None\<rparr>, w2)
      | Some rt \<Rightarrow> (case new_custom_context e rt of (r, ctx_set, frees, j) \<Rightarrow>
          if r \<noteq> 0 then Some (-1, ts2\<lparr>ts_rt := Some j, ts_ctx_freed := ctx_set\<rparr>, w2)
          else load_modules e cfg (ts2\<lparr>ts_ctx_freed := False\<rparr>) j w2)) = Some (r, ts', w')"
    using assms unfolding init_thread_state_def Let_def clock_gettime_eq prod.case Some option.case w2_def ts2_def
    by (simp split: if_splits)
  show ?thesis
  proof (cases "\<exists>j. load_modules e cfg (ts2\<lparr>ts_ctx_freed := False\<rparr>) j w2 = Some (r, ts', w')")
    case True
    then obtain j where j: "load_modules e cfg (ts2\<lparr>ts_ctx_freed := False\<rparr>) j w2 = Some (r, ts', w')" ..
    have "ts_idle (ts2\<lparr>ts_ctx_freed := False\<rparr>)" using ts2(1) by (simp add: ts_idle_def)
    with load_modules_keeps [OF j] sh ts2 show ?thesis by (auto simp: same_shared_def)
  next
    case False
    with run have "r = -1 \<and> w' = w2 \<and> (ts' = ts2\<lparr>ts_rt := None\<rparr> \<or> (\<exists>jo f. ts' = ts2\<lparr>ts_rt := jo, ts_ctx_freed := f\<rparr>))"
    proof (cases "JS_NewRuntime e (w_runtimes w)")
      case None
      with run show ?thesis by simp
    next
      case (Some rt)
      with run False show ?thesis by (auto split: prod.splits if_splits)
    qed
    then show ?thesis using sh ts2 by (auto simp: ts_idle_def)
  qed
qed

text \<open>Time in nanoseconds, and when a reading of the clock is normalised.\<close>

definition ts_ns :: "timespec \<Rightarrow> int" where
  "ts_ns t = sint (tv_sec t) * 1000000000 + sint (tv_nsec t)"

definition ts_norm :: "timespec \<Rightarrow> bool" where
  "ts_norm t \<longleftrightarrow> 0 \<le> sint (tv_nsec t) \<and> sint (tv_nsec t) < 1000000000"

lemma ns_time_diff_ts_ns:
  assumes "ts_norm now" "ts_norm start" "\<bar>sint (tv_sec now) - sint (tv_sec start)\<bar> < 9000000000"
  shows "sint (ns_time_diff now start) = ts_ns now - ts_ns start"
  using ns_time_diff_exact [of now start] assms by (simp add: ts_ns_def ts_norm_def algebra_simps)

lemma runtime_exceeded_exact:
  assumes "ts_norm now" "ts_norm start" "\<bar>sint (tv_sec now) - sint (tv_sec start)\<bar> < 9000000000"
    and "max_command_runtime_us (g_cmd_args cfg) * 1000 < 2 ^ 64"
  shows "runtime_exceeded cfg now start \<longleftrightarrow>
    int (max_command_runtime_us (g_cmd_args cfg)) * 1000 < ts_ns now - ts_ns start"
proof -
  let ?d = "ns_time_diff now start" and ?m = "max_command_runtime_us (g_cmd_args cfg)"
  have d: "sint ?d = ts_ns now - ts_ns start" by (rule ns_time_diff_ts_ns [OF assms(1-3)])
  have m: "uint (of_nat ?m * 1000 :: u64) = int ?m * 1000"
  proof -
    have "uint (of_nat (?m * 1000) :: u64) = int (?m * 1000)"
      using assms(4) by (simp only: unsigned_of_nat) (simp add: take_bit_nat_eq_self_iff take_bit_int_eq_self_iff flip: of_nat_mult)
    then show ?thesis by simp
  qed
  have pos: "0 < sint ?d \<Longrightarrow> uint ?d = sint ?d"
    by (simp add: uint_sint take_bit_int_eq_self_iff) (use sint_less [of ?d] in simp)
  show ?thesis
  proof (cases "0 < sint ?d")
    case True
    with pos m d show ?thesis by (simp add: runtime_exceeded_def Let_def word_sless_alt word_less_def)
  next
    case False
    then show ?thesis using d by (simp add: runtime_exceeded_def Let_def word_sless_alt)
  qed
qed

section \<open>A concrete engine\<close>

text \<open>
  An engine to evaluate the model with: values are strings, a script is its own bytecode. The script
  \<open>syntax\<close> does not compile, \<open>notafunction\<close> does not evaluate to a function, calling \<open>throw\<close> throws, calling
  \<open>send\<close> sends its argument as a message and returns the answer; everything else returns its argument.
\<close>

definition demo_engine :: "(nat, string) engine" where
  "demo_engine = \<lparr>
     JS_NewRuntime = (\<lambda>n. Some n), JS_NewContext = Some,
     qjs_add_intrinsic_text_decoder = Pair 0, qjs_add_intrinsic_text_encoder = Pair 0,
     add_jsockd_calls = (\<lambda>j. (0, False, False, 1, j)), JS_SetPropertyStr = (\<lambda>p. Pair 1),
     JS_ReadObject = (\<lambda>bs. Pair (Js (map (\<lambda>b. char_of (unat b)) bs))), is_module = (\<lambda>v. True),
     JS_ResolveModule = (\<lambda>v. Pair 0), js_module_set_import_meta = (\<lambda>v. Pair 0), eval_module = Pair,
     JS_GetModuleNamespace = Pair,
     compile_script = (\<lambda>s. Pair (if s = ''syntax'' then None else Some (map of_char s))),
     eval_function = (\<lambda>v j. Js_done v j), is_object = (\<lambda>v. v \<noteq> Js ''notafunction''),
     JS_GetPropertyStr = (\<lambda>v p. Pair v), is_function = (\<lambda>v. True),
     JS_ParseJSON = (\<lambda>s. Pair (if s = ''bad'' then JS_EXCEPTION else Js s)),
     JS_Call = (\<lambda>f args j. if f = Js ''throw'' then Js_done JS_EXCEPTION j
                          else if f = Js ''send'' then Js_send [args ! 1] j (\<lambda>r j'. Js_done r j')
                          else if f = Js ''undef'' then Js_done JS_UNDEFINED j
                          else Js_done (args ! 1) j),
     call_backtrace = (\<lambda>f args. Pair (args ! 1)),
     JS_JSONStringify = (\<lambda>v r s. Pair v), JS_NewStringLen = (\<lambda>s. Pair (Js s)),
     JS_ToCStringLen = (\<lambda>v. Pair (case v of Js s \<Rightarrow> Some s | _ \<Rightarrow> None)),
     print_exception = Pair [''oops''], JS_ComputeMemoryUsage = (\<lambda>j. (1, int j))\<rparr>"

definition demo_config :: config where
  "demo_config = \<lparr>debug = False, g_cmd_args = zeroed_args\<lparr>max_command_runtime_us := 250000, socket_path := [''/tmp/a'']\<rparr>,
     input_buf_bytes = 16, hash_bits = 1, xxh3 = (\<lambda>s. (0, of_nat (length s))),
     g_shims_module_bytecode = [], g_backtrace_module_bytecode = [], g_module_bytecode = Some [],
     g_source_map = '''', g_n_threads = 1\<rparr>"

definition demo_world :: world where
  "demo_world = \<lparr>w_writes = replicate 20 (1000, False), w_sent = '''', w_clock = (\<lambda>k. Some \<lparr>tv_sec = of_nat (Suc k), tv_nsec = 0\<rparr>), w_tick = 0,
     w_polls = [], w_pthread_create = 0, w_pthread_join = 0, w_memstream = True, w_runtimes = 0, g_interrupted_or_error = False,
     g_source_map_load_count = 0, source_map_unmapped = False, g_new_thread_state_count = 0, w_cache = fc_empty 1, w_mem = []\<rparr>"

definition zeroed_ThreadState :: "('j, 'v) ThreadState" where
  "zeroed_ThreadState = \<lparr>ts_thread_index = 0, ts_rt = None, ts_ctx_freed = False, ts_exit_status = 0, ts_line_n = 0,
     ts_compiled_module = JS_UNDEFINED, ts_compiled_query = JS_UNDEFINED, ts_backtrace_module = JS_UNDEFINED,
     ts_last_js_execution_start = \<lparr>tv_sec = 0, tv_nsec = 0\<rparr>, ts_current_uuid = replicate (MESSAGE_UUID_MAX_BYTES + 1) NUL,
     ts_current_uuid_len = 0, ts_memory_check_count = 0, ts_memory_increase_count = 0, ts_last_memory_usage = 0,
     ts_last_n_cached_functions = 0, ts_truncated = False, ts_sourcemap_str = JS_UNDEFINED,
     ts_last_command_exec_time_ns = 0, ts_replacement_thread_state = REPLACEMENT_THREAD_STATE_NONE,
     ts_last_active_time = \<lparr>tv_sec = 0, tv_nsec = 0\<rparr>, ts_dangling_bytecode = None, ts_cached_function_in_use = None,
     ts_manually_trigger_thread_state_reset = False\<rparr>"

section \<open>Properties\<close>



text \<open>
  C26: The time limit is exact. While a command runs, as long as the limit in nanoseconds fits 64 bits and
  the clock readings are normalised, the interrupt handler stops it exactly when more than the
  configured time has passed since it started, or when the server is shutting down.
\<close>

theorem interrupt_exact:
  assumes "tv_sec (ts_last_js_execution_start ts) \<noteq> 0" "w_clock w (w_tick w) = Some now"
    and "ts_norm now" "ts_norm (ts_last_js_execution_start ts)"
    and "\<bar>sint (tv_sec now) - sint (tv_sec (ts_last_js_execution_start ts))\<bar> < 9000000000"
    and "max_command_runtime_us (g_cmd_args cfg) * 1000 < 2 ^ 64"
  shows "fst (interrupt_handler cfg ts w) =
    (if int (max_command_runtime_us (g_cmd_args cfg)) * 1000 < ts_ns now - ts_ns (ts_last_js_execution_start ts) \<or>
        g_interrupted_or_error w then 1 else 0)"
  using assms(1,2) runtime_exceeded_exact [OF assms(3-6)] by (simp add: interrupt_handler_def)

theorem interrupt_exact_witness:
  "fst (interrupt_handler demo_config (zeroed_ThreadState\<lparr>ts_last_js_execution_start := \<lparr>tv_sec = 1, tv_nsec = 0\<rparr>\<rparr>)
     (demo_world\<lparr>w_clock := (\<lambda>_. Some \<lparr>tv_sec = 1, tv_nsec = 250000001\<rparr>)\<rparr>)) = 1"
  using interrupt_exact [of "zeroed_ThreadState\<lparr>ts_last_js_execution_start := \<lparr>tv_sec = 1, tv_nsec = 0\<rparr>\<rparr>"
      "demo_world\<lparr>w_clock := (\<lambda>_. Some \<lparr>tv_sec = 1, tv_nsec = 250000001\<rparr>)\<rparr>" "\<lparr>tv_sec = 1, tv_nsec = 250000001\<rparr>" demo_config]
  by (simp add: zeroed_ThreadState_def demo_world_def demo_config_def zeroed_args_def ts_norm_def ts_ns_def)

section \<open>Observations\<close>

text \<open>A limit that does not fit wraps: this one, 585 thousand years, stops a command after a second.\<close>

lemma runtime_limit_wraps:
  "runtime_exceeded (demo_config\<lparr>g_cmd_args := zeroed_args\<lparr>max_command_runtime_us := 18446744073709552\<rparr>\<rparr>)
     \<lparr>tv_sec = 2, tv_nsec = 0\<rparr> \<lparr>tv_sec = 1, tv_nsec = 0\<rparr>"
  by (simp add: runtime_exceeded_def ns_time_diff_def word_sless_alt demo_config_def zeroed_args_def)

text \<open>A worker context that cannot be completed is freed twice.\<close>

lemma worker_context_freed_twice:
  "new_custom_context_for_worker (demo_engine\<lparr>qjs_add_intrinsic_text_decoder := Pair (-1)\<rparr>) rt = (False, 2, rt)"
  by (simp add: new_custom_context_for_worker_def new_custom_context_def demo_engine_def)

text \<open>
  The last thread to load the source map unmaps it; a thread state that was set up anew afterwards
  dereferences the null pointer at its first backtrace.
\<close>

lemma sourcemap_used_after_unmap:
  "\<exists>ts' j' w'. load_sourcemap demo_engine (demo_config\<lparr>g_source_map := ''{}''\<rparr>) zeroed_ThreadState j demo_world = Some (ts', j', w') \<and>
     load_sourcemap demo_engine (demo_config\<lparr>g_source_map := ''{}''\<rparr>) (reset_fields 0 ts') j' w' = None"
  by (simp add: load_sourcemap_def reset_fields_def demo_engine_def demo_config_def demo_world_def zeroed_ThreadState_def)

text \<open>When the context cannot be completed, the thread state keeps pointing to the freed context.\<close>

lemma failed_context_left_dangling:
  "\<exists>ts' w'. init_thread_state (demo_engine\<lparr>qjs_add_intrinsic_text_decoder := Pair (-1)\<rparr>) demo_config 0 zeroed_ThreadState demo_world
     = Some (-1, ts', w') \<and> ts_rt ts' \<noteq> None \<and> ts_ctx_freed ts'"
  by (simp add: init_thread_state_def new_custom_context_def demo_engine_def demo_world_def MAX_THREADS_def)

end
