(* ===== verification/Messages.thy ===== *)
theory Messages
  imports Thread_State
begin

text \<open>
  \<open>messages.c\<close>: a command sends a message to its client over the command's socket and waits for the
  answer, which is read into the thread's input buffer. The polls and reads that answer come from
  the world; a wait that is never answered does not return (\<open>None\<close>).
\<close>

section \<open>Definitions\<close>

text \<open>
  \<open>char\<close> is signed: comparing it with the \<open>unsigned char\<close> separator compares their values as \<open>int\<close>.
\<close>

definition is_sep :: "byte \<Rightarrow> char \<Rightarrow> bool" where
  "is_sep sep c \<longleftrightarrow> sint (of_char c :: byte) = uint sep"

fun split_uuid_from :: "byte \<Rightarrow> nat \<Rightarrow> nat \<Rightarrow> string \<Rightarrow> nat" where
  "split_uuid_from sep i len [] = len"
| "split_uuid_from sep i len (c # cs) =
     (if i < len then if is_sep sep c then i else split_uuid_from sep (i + 1) len cs else len)"

definition split_uuid :: "byte \<Rightarrow> char list \<Rightarrow> nat \<Rightarrow> nat" where
  "split_uuid sep msg len = split_uuid_from sep 0 len msg"

definition SEND_MESSAGE_ERR_TIMEOUT :: int where "SEND_MESSAGE_ERR_TIMEOUT = -1"
definition SEND_MESSAGE_ERR_BAD_JSON :: int where "SEND_MESSAGE_ERR_BAD_JSON = -2"
definition SEND_MESSAGE_ERR_TOO_BIG :: int where "SEND_MESSAGE_ERR_TOO_BIG = -3"
definition SEND_MESSAGE_ERR_INTERRUPTED :: int where "SEND_MESSAGE_ERR_INTERRUPTED = -4"
definition SEND_MESSAGE_ERR_IO :: int where "SEND_MESSAGE_ERR_IO = -5"
definition SEND_MESSAGE_ERR_TIME :: int where "SEND_MESSAGE_ERR_TIME = -6"
definition SEND_MESSAGE_ERR_BAD_MESSAGE :: int where "SEND_MESSAGE_ERR_BAD_MESSAGE = -7"
definition SEND_MESSAGE_ERR_HANDLER_INTERNAL_ERROR :: int where "SEND_MESSAGE_ERR_HANDLER_INTERNAL_ERROR = -8"

lemmas send_message_errors =
  SEND_MESSAGE_ERR_TIMEOUT_def SEND_MESSAGE_ERR_BAD_JSON_def SEND_MESSAGE_ERR_TOO_BIG_def
  SEND_MESSAGE_ERR_INTERRUPTED_def SEND_MESSAGE_ERR_IO_def SEND_MESSAGE_ERR_TIME_def
  SEND_MESSAGE_ERR_BAD_MESSAGE_def SEND_MESSAGE_ERR_HANDLER_INTERNAL_ERROR_def

definition send_message_error_to_string :: "int \<Rightarrow> string" where
  "send_message_error_to_string err =
     (if err = SEND_MESSAGE_ERR_TIMEOUT then ''Timeout waiting for message response''
      else if err = SEND_MESSAGE_ERR_BAD_JSON then ''Bad JSON in message response''
      else if err = SEND_MESSAGE_ERR_TOO_BIG then ''Message response too big''
      else if err = SEND_MESSAGE_ERR_INTERRUPTED then ''Interrupted while waiting for message response''
      else if err = SEND_MESSAGE_ERR_IO then ''I/O error while waiting for message response''
      else if err = SEND_MESSAGE_ERR_TIME then ''Time error while waiting for message response''
      else if err = SEND_MESSAGE_ERR_BAD_MESSAGE then ''Internal protocol error (no command id or mismatched command id)''
      else if err = SEND_MESSAGE_ERR_HANDLER_INTERNAL_ERROR then ''Client indicated internal error in its message handler''
      else ''<unknown error>'')"

definition strncmp_eq :: "char list \<Rightarrow> char list \<Rightarrow> nat \<Rightarrow> bool" where
  "strncmp_eq a b n = (cstr (take n a) = cstr (take n b))"

definition uuid_text :: "('j, 'v) ThreadState \<Rightarrow> string" where
  "uuid_text ts = take (ts_current_uuid_len ts) (ts_current_uuid ts)"

text \<open>
  The read loop. \<open>Inr\<close> is the label \<open>read_done\<close> with the bytes read and the flag, \<open>Inl\<close> an error code.
  A poll that reports nothing goes around without looking at the time.
\<close>

primrec read_reply ::
  "config \<Rightarrow> timespec \<Rightarrow> nat \<Rightarrow> bool \<Rightarrow> poll_answer list \<Rightarrow> char list \<Rightarrow> world
     \<Rightarrow> ((int + nat \<times> bool) \<times> char list \<times> world) option" where
  "read_reply cfg start total_read too_big [] buf w = None"
| "read_reply cfg start total_read too_big (a # polls) buf w =
     (let w1 = w\<lparr>w_polls := polls\<rparr> in
      case ppoll_fd (pa_events a) (pa_interrupted a) of
        GO_AROUND \<Rightarrow> read_reply cfg start total_read too_big polls buf w1
      | SIG_INTERRUPT_OR_ERROR \<Rightarrow> Some (Inl SEND_MESSAGE_ERR_INTERRUPTED, buf, w1)
      | READY \<Rightarrow>
          let too_big1 = (too_big \<or> total_read = input_buf_bytes cfg - 1);
              total1 = (if total_read = input_buf_bytes cfg - 1 then 0 else total_read)
          in (case pa_read a of
                Inr eintr \<Rightarrow>
                  if eintr then read_reply cfg start total1 too_big1 polls buf w1
                  else Some (Inl SEND_MESSAGE_ERR_IO, buf, w1)
              | Inl bytes \<Rightarrow>
                  let got = take (input_buf_bytes cfg - 1 - total1) bytes;
                      buf1 = poke buf total1 got;
                      total2 = total1 + length got
                  in if got = [] then Some (Inl SEND_MESSAGE_ERR_IO, buf, w1)
                     else if is_sep (socket_sep_char (g_cmd_args cfg)) (buf1 ! (total2 - 1))
                     then Some (Inr (total2, too_big1), buf1, w1)
                     else (case clock_gettime w1 of
                         (None, w2) \<Rightarrow> Some (Inl SEND_MESSAGE_ERR_TIME, buf1, w2)
                       | (Some now, w2) \<Rightarrow>
                           if runtime_exceeded cfg now start then Some (Inl SEND_MESSAGE_ERR_TIMEOUT, buf1, w2)
                           else read_reply cfg start total2 too_big1 polls buf1 w2)))"

text \<open>
  The answer in the buffer. The length handed to the JSON parser is a \<open>size_t\<close>: for an answer that
  is only an identifier it wraps around, and the parser reads beyond the buffer (\<open>None\<close>).
\<close>

definition parse_reply ::
  "('j, 'v) engine \<Rightarrow> config \<Rightarrow> ('j, 'v) ThreadState \<Rightarrow> char list \<Rightarrow> nat \<Rightarrow> 'j \<Rightarrow> (int \<times> 'v js \<times> 'j) option" where
  "parse_reply e cfg ts buf total_read j =
     (let uuid_len = split_uuid (socket_sep_char (g_cmd_args cfg)) buf total_read in
      if uuid_len = total_read then Some (SEND_MESSAGE_ERR_BAD_MESSAGE, JS_UNDEFINED, j)
      else if uuid_len \<noteq> ts_current_uuid_len ts \<or> \<not> strncmp_eq buf (ts_current_uuid ts) (ts_current_uuid_len ts)
      then Some (SEND_MESSAGE_ERR_BAD_MESSAGE, JS_UNDEFINED, j)
      else if strcmp_eq ''internal_error'' (drop (uuid_len + 1) buf)
      then Some (SEND_MESSAGE_ERR_HANDLER_INTERNAL_ERROR, JS_UNDEFINED, j)
      else if total_read < uuid_len + 2 then None
      else case JS_ParseJSON e (take (total_read - uuid_len - 1 - 1) (drop (uuid_len + 1) buf)) j of (parsed, j') \<Rightarrow>
        if parsed = JS_EXCEPTION then Some (SEND_MESSAGE_ERR_BAD_JSON, JS_UNDEFINED, j')
        else Some (0, parsed, j'))"

definition send_message ::
  "('j, 'v) engine \<Rightarrow> config \<Rightarrow> ('j, 'v) ThreadState \<Rightarrow> string \<Rightarrow> char list \<Rightarrow> 'j \<Rightarrow> world
     \<Rightarrow> (int \<times> 'v js \<times> char list \<times> 'j \<times> world) option" where
  "send_message e cfg ts message buf j w = do {
     (r, os, sent) \<leftarrow> writev_all (w_writes w) [uuid_text ts, '' message '', message, [NL]] (w_sent w);
     let w1 = w\<lparr>w_writes := os, w_sent := sent\<rparr>;
     if r < 0 then Some (SEND_MESSAGE_ERR_IO, JS_UNDEFINED, buf, j, w1)
     else do {
       (res, buf1, w2) \<leftarrow> read_reply cfg (ts_last_js_execution_start ts) 0 False (w_polls w1) buf w1;
       case res of
         Inl err \<Rightarrow> Some (err, JS_UNDEFINED, buf1, j, w2)
       | Inr (total_read, too_big) \<Rightarrow>
           if too_big then Some (SEND_MESSAGE_ERR_TOO_BIG, JS_UNDEFINED, buf1, j, w2)
           else if total_read = 0 then Some (SEND_MESSAGE_ERR_IO, JS_UNDEFINED, buf1, j, w2)
           else let buf2 = buf1[total_read := NUL]
                in map_option (\<lambda>(err, v, j'). (err, v, buf2, j', w2)) (parse_reply e cfg ts buf2 total_read j)
     }
   }"

text \<open>\<open>JSockD.sendMessage\<close>: \<open>Inl\<close> is the text of the exception it throws.\<close>

definition jsockd_send_message ::
  "('j, 'v) engine \<Rightarrow> config \<Rightarrow> ('j, 'v) ThreadState \<Rightarrow> 'v js list \<Rightarrow> char list \<Rightarrow> 'j \<Rightarrow> world
     \<Rightarrow> ((string + 'v js) \<times> char list \<times> 'j \<times> world) option" where
  "jsockd_send_message e cfg ts argv buf j w =
     (if length argv < 1 \<or> 3 < length argv
      then Some (Inl ''JSockD.sendMessage requires 1-3 arguments (the message to send, and, optionally, 'replacer' and 'space' arguments to pass to JSON.stringify)'', buf, j, w)
      else case JS_JSONStringify e (argv ! 0) (if 1 < length argv then argv ! 1 else JS_UNDEFINED)
                  (if 2 < length argv then argv ! 2 else JS_UNDEFINED) j of (encoded, j1) \<Rightarrow>
      if encoded = JS_EXCEPTION then Some (Inl ''JSockD.sendMessage argument must be JSON serializable'', buf, j1, w)
      else case JS_ToCStringLen e encoded j1 of
        (None, j2) \<Rightarrow> Some (Inl ''Internal error while sending message via JSockD'', buf, j2, w)
      | (Some message, j2) \<Rightarrow> do {
          (r, res, buf', j3, w') \<leftarrow> send_message e cfg ts message buf j2 w;
          Some (if r \<noteq> 0 then Inl (''Error sending message via JSockD: '' @ send_message_error_to_string r) else Inr res,
                buf', j3, w')
        })"

text \<open>A run of JavaScript, with every message it sends.\<close>

primrec run_js ::
  "('j, 'v) engine \<Rightarrow> config \<Rightarrow> ('j, 'v) ThreadState \<Rightarrow> ('j, 'v) js_run \<Rightarrow> char list \<Rightarrow> world
     \<Rightarrow> ('v js \<times> 'j \<times> char list \<times> world) option" where
  "run_js e cfg ts (Js_done v j) = (\<lambda>buf w. Some (v, j, buf, w))"
| "run_js e cfg ts (Js_send argv j k) = (\<lambda>buf w. do {
     (r, buf', j', w') \<leftarrow> jsockd_send_message e cfg ts argv buf j w;
     run_js e cfg ts (k (case r of Inl thrown \<Rightarrow> JS_EXCEPTION | Inr v \<Rightarrow> v) j') buf' w'
   })"

section \<open>Reading the answer\<close>

lemma mod_256_above: "128 \<le> x \<Longrightarrow> x < 256 \<Longrightarrow> (x + 128) mod 256 = (x :: int) - 128"
  using mod_add_self2 [of "x - 128" 256] by (simp add: algebra_simps)

lemma sint_byte: "sint (b :: byte) = (if uint b < 128 then uint b else uint b - 256)"
proof -
  have "sint b = signed_take_bit 7 (uint b)" by (simp add: sint_uint)
  also have "\<dots> = (if uint b < 128 then uint b else uint b - 256)"
    using unsigned_less [of b, where ?'a = int] mod_256_above [of "uint b"]
    by (auto simp: signed_take_bit_eq_if_positive signed_take_bit_eq_if_negative take_bit_int_eq_self bit_iff_odd
        signed_take_bit_int_eq_self signed_take_bit_eq_take_bit_shift take_bit_eq_mod)
  finally show ?thesis .
qed

lemma of_char_inj: "(of_char c :: byte) = of_char d \<longleftrightarrow> c = d"
  by (metis char_of_unat_of_char)

lemma is_sep_ascii:
  assumes "uint (of_char s :: byte) < 128"
  shows "is_sep (of_char s) c \<longleftrightarrow> c = s"
proof -
  have "sint (of_char c :: byte) = uint (of_char s :: byte) \<longleftrightarrow> uint (of_char c :: byte) = uint (of_char s :: byte)"
  proof -
    define x where "x = uint (of_char c :: byte)"
    define y where "y = uint (of_char s :: byte)"
    have "x < 256" "0 \<le> y" "y < 128"
      using unsigned_less [of "of_char c :: byte", where ?'a = int] assms by (simp_all add: x_def y_def)
    then show ?thesis unfolding sint_byte x_def [symmetric] y_def [symmetric] by auto
  qed
  then show ?thesis by (simp add: is_sep_def of_char_inj flip: word_uint_eq_iff)
qed

lemma split_uuid_from_first:
  "i + length p < len \<Longrightarrow> \<forall>c \<in> set p. \<not> is_sep sep c \<Longrightarrow> is_sep sep s \<Longrightarrow> split_uuid_from sep i len (p @ s # t) = i + length p"
  by (induction p arbitrary: i) auto

lemma split_uuid_from_cases:
  "split_uuid_from sep i len m = k \<Longrightarrow> i \<le> len \<Longrightarrow> k = len \<or> i \<le> k \<and> k < len \<and> k - i < length m \<and> is_sep sep (m ! (k - i))"
proof (induction m arbitrary: i)
  case (Cons c m)
  show ?case
  proof (cases "i < len \<and> \<not> is_sep sep c")
    case True
    with Cons.prems Cons.IH [of "i + 1"] have "k = len \<or> i + 1 \<le> k \<and> k < len \<and> k - (i + 1) < length m \<and> is_sep sep (m ! (k - (i + 1)))"
      by simp
    then show ?thesis by (auto simp: nth_Cons' Suc_diff_le)
  qed (use Cons.prems in auto)
qed simp

text \<open>A wait that is answered in time, whatever the pieces are the answer arrives in.\<close>

definition answers :: "string list \<Rightarrow> poll_answer list" where
  "answers chunks = map (\<lambda>c. Poll_answer 1 False (Inl c)) chunks"

definition in_time :: "config \<Rightarrow> timespec \<Rightarrow> world \<Rightarrow> bool" where
  "in_time cfg start w \<longleftrightarrow> (\<forall>k. \<exists>now. w_clock w k = Some now \<and> \<not> runtime_exceeded cfg now start)"

lemma in_time_update [simp]: "in_time cfg start (w\<lparr>w_polls := p\<rparr>) = in_time cfg start w"
  "in_time cfg start (w\<lparr>w_tick := k\<rparr>) = in_time cfg start w"
  by (simp_all add: in_time_def)

lemma read_reply_ready:
  assumes "n + length c \<le> input_buf_bytes cfg - 1" "input_buf_bytes cfg \<le> length buf" "c \<noteq> []"
  shows "read_reply cfg start n False (Poll_answer 1 False (Inl c) # polls) buf w =
    (let buf1 = poke buf n c in
     if is_sep (socket_sep_char (g_cmd_args cfg)) (last c) then Some (Inr (n + length c, False), buf1, w\<lparr>w_polls := polls\<rparr>)
     else (case w_clock w (w_tick w) of
         None \<Rightarrow> Some (Inl SEND_MESSAGE_ERR_TIME, buf1, w\<lparr>w_polls := polls, w_tick := w_tick w + 1\<rparr>)
       | Some now \<Rightarrow>
           if runtime_exceeded cfg now start then Some (Inl SEND_MESSAGE_ERR_TIMEOUT, buf1, w\<lparr>w_polls := polls, w_tick := w_tick w + 1\<rparr>)
           else read_reply cfg start (n + length c) False polls buf1 (w\<lparr>w_polls := polls, w_tick := w_tick w + 1\<rparr>)))"
proof -
  have n: "Suc n < input_buf_bytes cfg" "n \<noteq> input_buf_bytes cfg - 1" using assms(1,3) by (cases c; auto)+
  have "poke buf n c ! (n + length c - 1) = last c"
    using assms by (cases c rule: rev_cases) (simp_all add: poke_def nth_append)
  then show ?thesis
    using n assms by (simp add: ppoll_fd_def Let_def split: option.split)
qed

lemma read_reply_chunks:
  assumes "chunks \<noteq> []" "\<forall>c \<in> set chunks. c \<noteq> []"
    and "\<forall>c \<in> set (butlast chunks). \<not> is_sep (socket_sep_char (g_cmd_args cfg)) (last c)"
    and "is_sep (socket_sep_char (g_cmd_args cfg)) (last (last chunks))"
    and "length pre + length (concat chunks) \<le> input_buf_bytes cfg - 1" "input_buf_bytes cfg \<le> length buf"
    and "take (length pre) buf = pre" "in_time cfg start w"
  shows "\<exists>buf' tick. read_reply cfg start (length pre) False (answers chunks @ rest) buf w =
      Some (Inr (length (pre @ concat chunks), False), buf', w\<lparr>w_polls := rest, w_tick := tick\<rparr>) \<and>
    take (length (pre @ concat chunks)) buf' = pre @ concat chunks \<and> length buf' = length buf"
  using assms
proof (induction chunks arbitrary: pre buf w)
  case (Cons c chunks)
  have fit: "length pre + length c \<le> input_buf_bytes cfg - 1" "length pre + length c \<le> length buf"
    using Cons.prems(5,6) by simp_all
  have c: "c \<noteq> []" using Cons.prems(2) by simp
  have pre: "take (length (pre @ c)) (poke buf (length pre) c) = pre @ c" "length (poke buf (length pre) c) = length buf"
    using fit Cons.prems(7) take_poke_end [of "length pre" buf c] by simp_all
  note step = read_reply_ready [OF fit(1) Cons.prems(6) c, of start "answers chunks @ rest" w]
  show ?case
  proof (cases "chunks = []")
    case True
    then show ?thesis
      using step pre Cons.prems(4) by (auto simp: answers_def Let_def intro: exI [of _ "w_tick w"])
  next
    case False
    let ?w = "w\<lparr>w_polls := answers chunks @ rest, w_tick := w_tick w + 1\<rparr>"
    obtain now where now: "w_clock w (w_tick w) = Some now" "\<not> runtime_exceeded cfg now start"
      using Cons.prems(8) by (auto simp: in_time_def)
    have ns: "\<not> is_sep (socket_sep_char (g_cmd_args cfg)) (last c)" using Cons.prems(3) False by simp
    have "read_reply cfg start (length pre) False (answers (c # chunks) @ rest) buf w =
        read_reply cfg start (length (pre @ c)) False (answers chunks @ rest) (poke buf (length pre) c) ?w"
      using step now ns by (simp add: answers_def Let_def)
    moreover have "\<exists>buf' tick. read_reply cfg start (length (pre @ c)) False (answers chunks @ rest) (poke buf (length pre) c) ?w =
        Some (Inr (length ((pre @ c) @ concat chunks), False), buf', ?w\<lparr>w_polls := rest, w_tick := tick\<rparr>) \<and>
      take (length ((pre @ c) @ concat chunks)) buf' = (pre @ c) @ concat chunks \<and> length buf' = length (poke buf (length pre) c)"
      using Cons.prems False pre by (intro Cons.IH) auto
    ultimately show ?thesis using pre(2) by auto
  qed
qed simp

section \<open>What a result says\<close>

lemma read_reply_result:
  "read_reply cfg start n tb polls buf w = Some (res, buf', w') \<Longrightarrow>
     (case res of
        Inl err \<Rightarrow> err \<in> {SEND_MESSAGE_ERR_INTERRUPTED, SEND_MESSAGE_ERR_IO, SEND_MESSAGE_ERR_TIME, SEND_MESSAGE_ERR_TIMEOUT}
      | Inr (n', _) \<Rightarrow> 0 < n' \<and> is_sep (socket_sep_char (g_cmd_args cfg)) (buf' ! (n' - 1)))"
proof (induction polls arbitrary: n tb buf w)
  case (Cons a polls)
  show ?case
  proof (cases "ppoll_fd (pa_events a) (pa_interrupted a)")
    case READY
    with Cons.prems Cons.IH show ?thesis
      by (cases "pa_read a") (auto simp: Let_def split: if_splits option.splits)
  next
    case GO_AROUND
    with Cons.prems Cons.IH show ?thesis by (simp add: Let_def)
  next
    case SIG_INTERRUPT_OR_ERROR
    with Cons.prems show ?thesis by auto
  qed
qed simp

lemma parse_reply_cases:
  assumes "parse_reply e cfg ts buf n j = Some (r, v, j')"
  shows "r = 0 \<and> (\<exists>k. k = ts_current_uuid_len ts \<and> k + 2 \<le> n \<and> split_uuid (socket_sep_char (g_cmd_args cfg)) buf n = k \<and>
             strncmp_eq buf (ts_current_uuid ts) k \<and> JS_ParseJSON e (take (n - k - 2) (drop (k + 1) buf)) j = (v, j'))
         \<or> r \<in> {SEND_MESSAGE_ERR_BAD_MESSAGE, SEND_MESSAGE_ERR_HANDLER_INTERNAL_ERROR, SEND_MESSAGE_ERR_BAD_JSON} \<and> v = JS_UNDEFINED"
  using assms by (auto simp: parse_reply_def Let_def numeral_2_eq_2 split: if_splits prod.splits)

lemma split_uuid_first:
  assumes "split_uuid sep buf n = k" "k < n" "n \<le> length buf"
  shows "is_sep sep (buf ! k)"
  using split_uuid_from_cases [of sep 0 n buf k] assms by (auto simp: split_uuid_def)

lemma read_reply_bounds:
  "read_reply cfg start n tb polls buf w = Some (res, buf', w') \<Longrightarrow> n \<le> input_buf_bytes cfg - 1 \<Longrightarrow> input_buf_bytes cfg \<le> length buf \<Longrightarrow>
     length buf' = length buf \<and> (case res of Inl err \<Rightarrow> True | Inr (n', _) \<Rightarrow> n' \<le> input_buf_bytes cfg - 1)"
proof (induction polls arbitrary: n tb buf w)
  case (Cons a polls)
  show ?case
  proof (cases "ppoll_fd (pa_events a) (pa_interrupted a)")
    case READY
    let ?n = "if n = input_buf_bytes cfg - 1 then 0 else n"
    have "length (poke buf ?n (take (input_buf_bytes cfg - 1 - ?n) c)) = length buf" for c
      using Cons.prems(2,3) by (intro length_poke) auto
    moreover have "?n + length (take (input_buf_bytes cfg - 1 - ?n) c) \<le> input_buf_bytes cfg - 1" for c :: string
      using Cons.prems(2) by auto
    ultimately show ?thesis
      using Cons.IH Cons.prems READY by (cases "pa_read a") (auto simp: Let_def split: if_splits option.splits)
  next
    case GO_AROUND
    with Cons.prems Cons.IH show ?thesis by (simp add: Let_def)
  next
    case SIG_INTERRUPT_OR_ERROR
    with Cons.prems show ?thesis by auto
  qed
qed simp

lemma send_message_cases:
  assumes "send_message e cfg ts message buf j w = Some (r, v, buf', j', w')"
  shows "r \<in> {SEND_MESSAGE_ERR_IO, SEND_MESSAGE_ERR_TOO_BIG, SEND_MESSAGE_ERR_INTERRUPTED, SEND_MESSAGE_ERR_TIME, SEND_MESSAGE_ERR_TIMEOUT} \<and>
      v = JS_UNDEFINED
    \<or> (\<exists>n buf1 w1 w2. read_reply cfg (ts_last_js_execution_start ts) 0 False (w_polls w) buf w1 = Some (Inr (n, False), buf1, w2) \<and>
      buf' = buf1[n := NUL] \<and> parse_reply e cfg ts buf' n j = Some (r, v, j'))"
proof -
  obtain r0 os sent where wr: "writev_all (w_writes w) [uuid_text ts, '' message '', message, [NL]] (w_sent w) = Some (r0, os, sent)"
    using assms by (auto simp: send_message_def bind_eq_Some_conv)
  let ?w = "w\<lparr>w_writes := os, w_sent := sent\<rparr>"
  show ?thesis
  proof (cases "r0 < 0")
    case True
    then show ?thesis using assms wr by (simp add: send_message_def)
  next
    case False
    then obtain res buf1 w2 where rd: "read_reply cfg (ts_last_js_execution_start ts) 0 False (w_polls w) buf ?w = Some (res, buf1, w2)"
      using assms wr by (auto simp: send_message_def bind_eq_Some_conv)
    show ?thesis
    proof (cases res)
      case (Inl err)
      then show ?thesis using assms wr False rd read_reply_result [OF rd] by (auto simp: send_message_def)
    next
      case (Inr p)
      then obtain n tb where p: "res = Inr (n, tb)" by (cases p) auto
      show ?thesis
      proof (cases "tb \<or> n = 0")
        case True
        then show ?thesis using assms wr False rd p by (auto simp: send_message_def split: if_splits)
      next
        case ok: False
        then have "buf' = buf1[n := NUL]" "parse_reply e cfg ts buf' n j = Some (r, v, j')"
          using assms wr False rd p by (auto simp: send_message_def Let_def)
        moreover have "read_reply cfg (ts_last_js_execution_start ts) 0 False (w_polls w) buf ?w = Some (Inr (n, False), buf1, w2)"
          using rd p ok by simp
        ultimately show ?thesis by blast
      qed
    qed
  qed
qed

lemma cstr_whole: "length (cstr m) = length m \<Longrightarrow> m = cstr m"
  by (metis cstr_def takeWhile_eq_take take_all order_refl)

lemma list_split_two:
  assumes "k + 2 \<le> n" "n \<le> length m"
  shows "m = take k m @ m ! k # take (n - k - 2) (drop (k + 1) m) @ m ! (n - 1) # drop n m"
proof -
  have "drop (k + 1) m = take (n - k - 2) (drop (k + 1) m) @ drop (k + 1) m ! (n - k - 2) # drop (Suc (n - k - 2)) (drop (k + 1) m)"
    using assms by (intro id_take_nth_drop) simp
  moreover have "drop (k + 1) m ! (n - k - 2) = m ! (n - 1)" using assms by (simp add: Suc_diff_Suc numeral_2_eq_2)
  moreover have "Suc (n - k - 2) + (k + 1) = n" using assms by linarith
  ultimately show ?thesis using id_take_nth_drop [of k m] assms by simp
qed

lemma cstr_append_NUL_any: "cstr (m @ NUL # t) = cstr m"
  by (induction m) auto

section \<open>Properties\<close>


definition demo_sender :: "(nat, string) ThreadState" where
  "demo_sender = zeroed_ThreadState\<lparr>ts_current_uuid := CHR ''u'' # replicate 32 NUL, ts_current_uuid_len := 1\<rparr>"

definition demo_dialogue :: "poll_answer list \<Rightarrow> world" where
  "demo_dialogue polls = demo_world\<lparr>w_clock := (\<lambda>_. Some \<lparr>tv_sec = 0, tv_nsec = 0\<rparr>), w_polls := polls\<rparr>"

lemma demo_wr:
  "writev_all (replicate 20 (1000, False)) [''u'', '' message '', ''hi'', [NL]] '''' =
     Some (0, replicate 19 (1000, False), ''u message hi'' @ [NL])"
  by code_simp

lemmas demo_run = send_message_def parse_reply_def split_uuid_def is_sep_def strncmp_eq_def strcmp_eq_def send_message_errors
  Let_def ppoll_fd_def poke_def answers_def demo_dialogue_def demo_world_def demo_sender_def uuid_text_def
  zeroed_ThreadState_def demo_config_def zeroed_args_def demo_engine_def




section \<open>Observations\<close>

text \<open>
  A client that stays silent is never timed out: a poll that reports nothing goes back to polling
  without a look at the clock.
\<close>

lemma silent_client_waits_forever:
  "pa_events a = 0 \<Longrightarrow> \<not> pa_interrupted a \<Longrightarrow> read_reply cfg start n tb (replicate k a) buf w = None"
  by (induction k arbitrary: w) (simp_all add: ppoll_fd_def Let_def)

text \<open>A separator byte from 0x80 on is never recognised in an answer, since \<open>char\<close> is signed.\<close>

lemma high_separator_never_found: "0x80 \<le> sep \<Longrightarrow> \<not> is_sep sep c"
proof -
  assume "0x80 \<le> sep"
  then have "128 \<le> uint sep" by (simp add: word_le_def)
  moreover have "sint (of_char c :: byte) < 128" using sint_less [of "of_char c :: byte"] by simp
  ultimately show ?thesis by (simp add: is_sep_def)
qed

text \<open>An answer that is only the identifier makes the length of the JSON text wrap around.\<close>

lemma bare_identifier_reads_beyond_buffer:
  "send_message demo_engine demo_config demo_sender ''hi'' (replicate 16 NUL) 0 (demo_dialogue (answers [''u'' @ [NL]])) = None"
proof -
  have "cstr (m[0 := NUL]) = []" for m by (cases m) simp_all
  then show ?thesis by (simp add: demo_run demo_wr)
qed

text \<open>The client's report of an internal error is taken for bad JSON, as it still has its separator.\<close>

lemma internal_error_not_recognised:
  "map_option (\<lambda>(r, v, b, j, w). (r, v))
     (send_message (demo_engine\<lparr>JS_ParseJSON := (\<lambda>s. Pair JS_EXCEPTION)\<rparr>) (demo_config\<lparr>input_buf_bytes := 32\<rparr>) demo_sender ''hi''
        (replicate 32 NUL) 0 (demo_dialogue (answers [''u'' @ [NL] @ ''internal_error'' @ [NL]])))
   = Some (SEND_MESSAGE_ERR_BAD_JSON, JS_UNDEFINED)"
  by (simp add: demo_run demo_wr)

end
