(* ===== verification/Server.thy ===== *)
theory Server
  imports Messages Line_Buf
begin

text \<open>
  The command protocol of \<open>main.c\<close>: what a listener thread does with each line it reads, its ticks, the
  replacement of its thread state, and its loop. A listener is its thread state, the replacement
  thread state \<open>my_replacement\<close> points to, its socket, its input buffer (the memory the line reader and
  the message handler share) and the world. Handlers return the C result and the listener, \<open>None\<close>
  when they do not return.
\<close>

section \<open>Sockets\<close>

definition init_socket_state :: "string \<Rightarrow> SocketState" where
  "init_socket_state filename =
     \<lparr>unix_socket_filename = filename, sockfd = -1, streamfd = -1, stream_io_err = 0, sun_path = ''''\<rparr>"

datatype socket_call = Close int | Unlink string

definition cleanup_socket_state :: "SocketState option \<Rightarrow> socket_call list" where
  "cleanup_socket_state socket_state =
     (case socket_state of
        None \<Rightarrow> []
      | Some ss \<Rightarrow>
          (if streamfd ss \<noteq> -1 then [Close (streamfd ss)] else []) @
          (if sockfd ss \<noteq> -1 then [Close (sockfd ss)] else []) @
          [Unlink (unix_socket_filename ss)])"

text \<open>
  What the calls that set up a socket return; \<open>enoent\<close> is whether \<open>unlink\<close> failed because there was
  no file, \<open>sun_path_size\<close> the size of the address field.
\<close>

record socket_results =
  sr_socket :: int
  sr_fchmod :: int
  sr_unlink :: int
  sr_enoent :: bool
  sr_bind :: int
  sr_listen :: int
  sr_chmod :: int
  sun_path_size :: nat

definition initialize_and_listen_on_unix_socket :: "socket_results \<Rightarrow> SocketState \<Rightarrow> int \<times> SocketState" where
  "initialize_and_listen_on_unix_socket sr ss =
     (let ss1 = ss\<lparr>sockfd := sr_socket sr\<rparr> in
      if sockfd ss1 < 0 then (-1, ss1)
      else if sr_fchmod sr \<noteq> 0 then (-1, ss1)
      else if sun_path_size sr < length (unix_socket_filename ss1) + 1 then (-1, ss1)
      else let ss2 = ss1\<lparr>sun_path := take (sun_path_size sr - 1) (unix_socket_filename ss1)\<rparr> in
      if sr_unlink sr = -1 \<and> \<not> sr_enoent sr then (-1, ss2)
      else if sr_bind sr \<noteq> 0 then (-1, ss2)
      else if sr_listen sr \<noteq> 0 then (-1, ss2)
      else if sr_chmod sr \<noteq> 0 then (-1, ss2)
      else (0, ss2))"

text \<open>\<open>lb_read\<close>: a read that was interrupted (\<open>Inr True\<close>) is tried again, any other failure is -1.\<close>

fun lb_read :: "(string + bool) list \<Rightarrow> nat \<Rightarrow> (read_result \<times> (string + bool) list) option" where
  "lb_read [] n = None"
| "lb_read (a # script) n =
     (case a of
        Inl bytes \<Rightarrow> Some (Read_bytes (take n bytes), script)
      | Inr eintr \<Rightarrow> if eintr then lb_read script n else Some (Read_error (-1), script))"

definition EXIT_ON_QUIT_COMMAND :: int where "EXIT_ON_QUIT_COMMAND = -999"
definition TRAMPOLINE :: int where "TRAMPOLINE = -9999"

section \<open>Listeners\<close>

record ('j, 'v) listener =
  l_ts :: "('j, 'v) ThreadState"
  l_repl :: "('j, 'v) ThreadState option"
  l_sock :: SocketState
  l_buf :: "char list"
  l_w :: world

text \<open>The text is written whole or the stream is marked as broken.\<close>

definition stream_result :: "int \<times> write_script \<times> string \<Rightarrow> ('j, 'v) listener \<Rightarrow> ('j, 'v) listener" where
  "stream_result res l =
     (case res of (r, os, sent) \<Rightarrow>
        l\<lparr>l_w := (l_w l)\<lparr>w_writes := os, w_sent := sent\<rparr>,
          l_sock := (if r \<noteq> 0 then (l_sock l)\<lparr>stream_io_err := -1\<rparr> else l_sock l)\<rparr>)"

definition write_to_stream :: "string \<Rightarrow> ('j, 'v) listener \<Rightarrow> ('j, 'v) listener option" where
  "write_to_stream text0 l =
     map_option (\<lambda>res. stream_result res l) (write_all (w_writes (l_w l)) text0 (w_sent (l_w l)))"

definition writev_to_stream :: "string list \<Rightarrow> ('j, 'v) listener \<Rightarrow> ('j, 'v) listener option" where
  "writev_to_stream iov l =
     map_option (\<lambda>res. stream_result res l) (writev_all (w_writes (l_w l)) iov (w_sent (l_w l)))"

section \<open>Bytecode\<close>

text \<open>Bytecode that was freed, or a null pointer, may not be read.\<close>

definition read_bytecode :: "world \<Rightarrow> nat option \<Rightarrow> nat \<Rightarrow> byte list option" where
  "read_bytecode w p n =
     (case p of
        None \<Rightarrow> None
      | Some a \<Rightarrow> if a < length (w_mem w) \<and> Some a \<notin> set (snd (w_cache w)) then Some (take n (w_mem w ! a)) else None)"

text \<open>The address and size of a fresh block with the bytecode of the script.\<close>

definition compile_buf :: "('j, 'v) engine \<Rightarrow> string \<Rightarrow> 'j \<Rightarrow> world \<Rightarrow> (nat \<times> nat) option \<times> 'j \<times> world" where
  "compile_buf e buf j w =
     (case compile_script e buf j of
        (None, j') \<Rightarrow> (None, j', w)
      | (Some bc, j') \<Rightarrow> (Some (length (w_mem w), length bc), j', w\<lparr>w_mem := w_mem w @ [bc]\<rparr>))"

definition func_from_bytecode ::
  "('j, 'v) engine \<Rightarrow> config \<Rightarrow> ('j, 'v) ThreadState \<Rightarrow> byte list \<Rightarrow> 'j \<Rightarrow> char list \<Rightarrow> world
     \<Rightarrow> ('v js \<times> 'j \<times> char list \<times> world) option" where
  "func_from_bytecode e cfg ts bc j buf w =
     (case JS_ReadObject e bc j of (val, j1) \<Rightarrow>
      if val = JS_EXCEPTION then Some (val, j1, buf, w)
      else do {
        (evald, j2, buf', w') \<leftarrow> run_js e cfg ts (eval_function e val j1) buf w;
        if \<not> is_object e evald then Some (JS_EXCEPTION, j2, buf', w')
        else case JS_GetPropertyStr e evald ''value'' j2 of (r, j3) \<Rightarrow> Some (r, j3, buf', w')
      })"

section \<open>Replacement of the thread state\<close>

definition cleanup_old_runtime :: "('j, 'v) listener \<Rightarrow> ('j, 'v) listener option" where
  "cleanup_old_runtime l =
     (case l_repl l of
        None \<Rightarrow> None
      | Some old \<Rightarrow>
          (case cleanup_thread_state old (l_w l) of (_, w') \<Rightarrow>
             Some (l\<lparr>l_repl := None, l_w := w'\<lparr>g_new_thread_state_count := g_new_thread_state_count w' - 1\<rparr>,
                     l_ts := (l_ts l)\<lparr>ts_replacement_thread_state := REPLACEMENT_THREAD_STATE_CLEANUP_COMPLETE\<rparr>\<rparr>)))"

definition destroy_thread_state :: "('j, 'v) listener \<Rightarrow> (socket_call list \<times> ('j, 'v) listener) option" where
  "destroy_thread_state l = do {
     l1 \<leftarrow> (let rts = ts_replacement_thread_state (l_ts l) in
           if rts = REPLACEMENT_THREAD_STATE_INIT_COMPLETE \<or> rts = REPLACEMENT_THREAD_STATE_CLEANUP
           then cleanup_old_runtime l else Some l);
     case cleanup_thread_state (l_ts l1) (l_w l1) of (ts', w') \<Rightarrow>
       Some (cleanup_socket_state (Some (l_sock l1)), l1\<lparr>l_ts := ts', l_w := w'\<rparr>)
   }"

text \<open>The thread that makes the replacement, and the one that cleans up the old state.\<close>

definition reset_thread_state_thread ::
  "('j, 'v) engine \<Rightarrow> config \<Rightarrow> ('j, 'v) ThreadState \<Rightarrow> ('j, 'v) listener \<Rightarrow> ('j, 'v) listener option" where
  "reset_thread_state_thread e cfg malloced l = do {
     (r, repl, w') \<leftarrow> init_thread_state e cfg (ts_thread_index (l_ts l)) malloced
                        ((l_w l)\<lparr>g_new_thread_state_count := g_new_thread_state_count (l_w l) + 1\<rparr>);
     let l1 = l\<lparr>l_repl := Some repl, l_w := w'\<rparr>;
     if r \<noteq> 0
     then Some (l1\<lparr>l_w := w'\<lparr>g_interrupted_or_error := True\<rparr>, l_ts := (l_ts l1)\<lparr>ts_exit_status := 1\<rparr>\<rparr>)
     else Some (l1\<lparr>l_ts := (l_ts l1)\<lparr>ts_replacement_thread_state := REPLACEMENT_THREAD_STATE_INIT_COMPLETE\<rparr>\<rparr>)
   }"

definition reset_thread_state_cleanup_old_runtime_thread :: "('j, 'v) listener \<Rightarrow> ('j, 'v) listener option" where
  "reset_thread_state_cleanup_old_runtime_thread l = cleanup_old_runtime l"

section \<open>The three lines of a command\<close>

definition strncpy_cells :: "string \<Rightarrow> nat \<Rightarrow> char list" where
  "strncpy_cells src n = take n (cstr (take n src) @ replicate n NUL)"

definition store_uuid :: "string \<Rightarrow> ('j, 'v) ThreadState \<Rightarrow> ('j, 'v) ThreadState" where
  "store_uuid line ts =
     (let len = min (length line) MESSAGE_UUID_MAX_BYTES
      in ts\<lparr>ts_current_uuid := (poke (ts_current_uuid ts) 0 (strncpy_cells line len))[len := NUL],
            ts_current_uuid_len := len, ts_line_n := ts_line_n ts + 1\<rparr>)"

definition handle_line_1_message_uid :: "string \<Rightarrow> ('j, 'v) listener \<Rightarrow> (int \<times> ('j, 'v) listener) option" where
  "handle_line_1_message_uid line l =
     (let rts = ts_replacement_thread_state (l_ts l) in
      if rts = REPLACEMENT_THREAD_STATE_INIT_COMPLETE then
        if w_pthread_join (l_w l) \<noteq> 0 then Some (-1, l)
        else (case l_repl l of
            None \<Rightarrow> None
          | Some r \<Rightarrow>
              let l1 = l\<lparr>l_ts := r\<lparr>ts_replacement_thread_state := REPLACEMENT_THREAD_STATE_CLEANUP\<rparr>, l_repl := Some (l_ts l)\<rparr>
              in if w_pthread_create (l_w l) \<noteq> 0
                 then Some (-1, l1\<lparr>l_ts := (l_ts l1)\<lparr>ts_replacement_thread_state := REPLACEMENT_THREAD_STATE_NONE\<rparr>\<rparr>)
                 else Some (TRAMPOLINE, l1))
      else if rts = REPLACEMENT_THREAD_STATE_CLEANUP_COMPLETE then
        let l1 = l\<lparr>l_ts := (l_ts l)\<lparr>ts_replacement_thread_state := REPLACEMENT_THREAD_STATE_NONE\<rparr>\<rparr>
        in if w_pthread_join (l_w l) \<noteq> 0 then Some (-1, l1)
           else Some (0, l1\<lparr>l_ts := store_uuid line (l_ts l1)\<rparr>)
      else Some (0, l\<lparr>l_ts := store_uuid line (l_ts l)\<rparr>))"

text \<open>The end of the second handler: the query, the runtime, the buffer and the world after it.\<close>

definition query_done :: "('j, 'v) listener \<Rightarrow> ('j, 'v) ThreadState \<Rightarrow> 'v js \<times> 'j \<times> char list \<times> world \<Rightarrow> int \<times> ('j, 'v) listener" where
  "query_done l ts res =
     (case res of (q, j, buf, w) \<Rightarrow>
        (0, l\<lparr>l_ts := ts\<lparr>ts_compiled_query := q, ts_rt := Some j, ts_line_n := ts_line_n ts + 1\<rparr>, l_buf := buf, l_w := w\<rparr>))"

definition handle_line_2_query ::
  "('j, 'v) engine \<Rightarrow> config \<Rightarrow> string \<Rightarrow> ('j, 'v) listener \<Rightarrow> (int \<times> ('j, 'v) listener) option" where
  "handle_line_2_query e cfg line l =
     (let ts = l_ts l; w = l_w l; uid = get_hash_cache_uid (xxh3 cfg) line in
      case ts_rt ts of None \<Rightarrow> None
      | Some j \<Rightarrow>
        (case get_cached_function (hash_bits cfg) (w_cache w) uid of
           (Some b, cache1) \<Rightarrow>
             let w1 = w\<lparr>w_cache := cache1\<rparr>; cf = b_payload (fst cache1 ! b) in do {
               bc \<leftarrow> read_bytecode w1 (bytecode cf) (bytecode_size cf);
               res \<leftarrow> func_from_bytecode e cfg ts bc j (l_buf l) w1;
               Some (query_done l ts res)
             }
         | (None, cache1) \<Rightarrow>
             (case compile_buf e line j (w\<lparr>w_cache := cache1\<rparr>) of
                (None, j1, w1) \<Rightarrow> Some (query_done l ts (JS_EXCEPTION, j1, l_buf l, w1))
              | (Some (a, n), j1, w1) \<Rightarrow>
                  (case add_cached_function (hash_bits cfg) (w_cache w1) uid \<lparr>bytecode = Some a, bytecode_size = n\<rparr> of
                     (in_use, cache2) \<Rightarrow>
                       let w2 = w1\<lparr>w_cache := cache2\<rparr>;
                           ts1 = ts\<lparr>ts_cached_function_in_use := in_use,
                                    ts_dangling_bytecode := (if in_use = None then Some a else ts_dangling_bytecode ts)\<rparr>
                       in if debug cfg \<and> in_use = None \<and> ts_dangling_bytecode ts \<noteq> None then None
                          else do {
                            bc \<leftarrow> read_bytecode w2 (Some a) n;
                            res \<leftarrow> func_from_bytecode e cfg ts1 bc j1 (l_buf l) w2;
                            Some (query_done l ts1 res)
                          }))))"

definition show_int :: "int \<Rightarrow> string" where
  "show_int n = (if n < 0 then CHR ''-'' # show_nat (nat (- n)) else show_nat (nat n))"

definition format_memusage :: "bool \<Rightarrow> int \<times> int \<Rightarrow> string option" where
  \<open>format_memusage memstream_ok m =
     (case m of (malloc_count, malloc_size) \<Rightarrow>
        if memstream_ok
        then Some (''{"malloc_size":'' @ show_int malloc_size @ '',"malloc_count":'' @ show_int malloc_count @ ''}'') else None)\<close>

definition memusage :: "int \<times> int \<Rightarrow> int" where
  "memusage m = (case m of (malloc_count, malloc_size) \<Rightarrow> malloc_count + malloc_size)"

text \<open>The number of cached functions is never counted up.\<close>

definition g_n_cached_functions :: int where "g_n_cached_functions = 0"

definition manual_reset :: "config \<Rightarrow> ('j, 'v) ThreadState \<Rightarrow> bool" where
  "manual_reset cfg ts \<longleftrightarrow> debug cfg \<and> ts_manually_trigger_thread_state_reset ts"

text \<open>
  The memory check after a command. In the state \<open>INIT\<close> that it leaves, the thread
  \<open>reset_thread_state_thread\<close> is running.
\<close>

definition check_memory :: "('j, 'v) engine \<Rightarrow> config \<Rightarrow> ('j, 'v) listener \<Rightarrow> (int \<times> ('j, 'v) listener) option" where
  "check_memory e cfg l =
     (case ts_rt (l_ts l) of None \<Rightarrow> None
      | Some j \<Rightarrow>
        let ts = (l_ts l)\<lparr>ts_memory_check_count := (ts_memory_check_count (l_ts l) + 1) mod MEMORY_CHECK_INTERVAL\<rparr>;
            manual = manual_reset cfg ts;
            done = (\<lambda>ts'. Some (stream_io_err (l_sock l), l\<lparr>l_ts := ts'\<rparr>))
        in if (manual \<or> ts_memory_check_count ts = 0) \<and> ts_replacement_thread_state ts = REPLACEMENT_THREAD_STATE_NONE then
             let current_usage = memusage (JS_ComputeMemoryUsage e j) in
             if manual \<or> g_n_cached_functions \<le> ts_last_n_cached_functions ts \<and> ts_last_memory_usage ts < current_usage then
               let ts1 = ts\<lparr>ts_last_memory_usage := current_usage, ts_last_n_cached_functions := g_n_cached_functions,
                            ts_memory_increase_count := ts_memory_increase_count ts + 1\<rparr>
               in if manual \<or> MEMORY_INCREASE_MAX_COUNT < ts_memory_increase_count ts1 then
                    if w_pthread_create (l_w l) \<noteq> 0
                    then Some (-1, l\<lparr>l_ts := ts1\<lparr>ts_replacement_thread_state := REPLACEMENT_THREAD_STATE_NONE\<rparr>\<rparr>)
                    else done (ts1\<lparr>ts_replacement_thread_state := REPLACEMENT_THREAD_STATE_INIT, ts_memory_increase_count := 0,
                                   ts_manually_trigger_thread_state_reset :=
                                     (ts_manually_trigger_thread_state_reset ts1 \<and> \<not> debug cfg)\<rparr>)
                  else done ts1
             else done (ts\<lparr>ts_memory_increase_count := 0\<rparr>)
           else done ts)"

definition exception_reply :: "string \<Rightarrow> ('j, 'v) listener \<Rightarrow> (int \<times> ('j, 'v) listener) option" where
  "exception_reply payload l = do {
     l' \<leftarrow> writev_to_stream [uuid_text (l_ts l), '' exception '' @ payload @ [NL]] l;
     Some (stream_io_err (l_sock l'), l')
   }"

text \<open>The replies of \<open>handle_line_3_parameter_helper\<close> once the command has returned.\<close>

definition command_returned ::
  "('j, 'v) engine \<Rightarrow> config \<Rightarrow> timespec \<Rightarrow> 'v js \<Rightarrow> 'j \<Rightarrow> ('j, 'v) listener \<Rightarrow> (int \<times> ('j, 'v) listener) option" where
  \<open>command_returned e cfg start ret j l =
     (let with_rt = (\<lambda>j l. l\<lparr>l_ts := (l_ts l)\<lparr>ts_rt := Some j\<rparr>\<rparr>) in
      if ret = JS_EXCEPTION then
        (case print_exception e j of (pieces, j1) \<Rightarrow> do {
           (bt_str, ts1, j2, w1) \<leftarrow> get_backtrace e cfg (error_text pieces) BACKTRACE_JSON (l_ts l) j1 (l_w l);
           let l1 = with_rt j2 (l\<lparr>l_ts := ts1, l_w := w1\<rparr>);
           l2 \<leftarrow> writev_to_stream [uuid_text ts1, '' exception '', case bt_str of Some s \<Rightarrow> s | None \<Rightarrow> ''{}'', [NL]] l1;
           Some (stream_io_err (l_sock l2), l2)
         })
      else case JS_JSONStringify e ret JS_UNDEFINED JS_UNDEFINED j of (stringified, j1) \<Rightarrow>
      if stringified = JS_EXCEPTION
      then exception_reply ''"error attempting to JSON serialize return value"'' (with_rt j1 l)
      else if stringified = JS_UNDEFINED then exception_reply ''"unserializable return value"'' (with_rt j1 l)
      else case clock_gettime (l_w l) of
        (None, w1) \<Rightarrow> Some (-1, with_rt j1 (l\<lparr>l_w := w1\<rparr>))
      | (Some now, w1) \<Rightarrow>
          (case JS_ToCStringLen e stringified j1 of
             (None, j2) \<Rightarrow> None
           | (Some str, j2) \<Rightarrow>
               let l1 = with_rt j2 (l\<lparr>l_w := w1, l_ts := (l_ts l)\<lparr>ts_last_command_exec_time_ns := ns_time_diff now start\<rparr>\<rparr>)
               in do {
                 l2 \<leftarrow> writev_to_stream [uuid_text (l_ts l1), '' ok '', str, [NL]] l1;
                 check_memory e cfg l2
               }))\<close>

definition handle_line_3_parameter_helper ::
  "('j, 'v) engine \<Rightarrow> config \<Rightarrow> string \<Rightarrow> ('j, 'v) listener \<Rightarrow> (int \<times> ('j, 'v) listener) option" where
  \<open>handle_line_3_parameter_helper e cfg line l =
     (if ts_compiled_query (l_ts l) = JS_EXCEPTION then exception_reply ''"error compiling command"'' l
      else case clock_gettime (l_w l) of
        (None, w1) \<Rightarrow> Some (-1, l\<lparr>l_w := w1\<rparr>)
      | (Some now, w1) \<Rightarrow>
          let ts1 = (l_ts l)\<lparr>ts_last_js_execution_start := now\<rparr> in
          (case ts_rt ts1 of None \<Rightarrow> None
           | Some j \<Rightarrow>
             (case JS_ParseJSON e line j of (parsed_arg, j1) \<Rightarrow>
              if parsed_arg = JS_EXCEPTION
              then exception_reply ''"JSON input parse error"'' (l\<lparr>l_ts := ts1\<lparr>ts_rt := Some j1\<rparr>, l_w := w1\<rparr>)
              else do {
                (ret, j2, buf', w2) \<leftarrow>
                  run_js e cfg ts1 (JS_Call e (ts_compiled_query ts1) [ts_compiled_module ts1, parsed_arg] j1) (l_buf l) w1;
                command_returned e cfg now ret j2 (l\<lparr>l_ts := ts1, l_buf := buf', l_w := w2\<rparr>)
              })))\<close>

definition handle_line_3_parameter ::
  "('j, 'v) engine \<Rightarrow> config \<Rightarrow> string \<Rightarrow> ('j, 'v) listener \<Rightarrow> (int \<times> ('j, 'v) listener) option" where
  "handle_line_3_parameter e cfg line l = do {
     (r, l1) \<leftarrow> handle_line_3_parameter_helper e cfg line l;
     case cleanup_command_state ((l_ts l1)\<lparr>ts_line_n := 0\<rparr>) (l_w l1) of (ts', w') \<Rightarrow>
       Some (r, l1\<lparr>l_ts := ts', l_w := w'\<rparr>)
   }"

section \<open>The line handler\<close>

text \<open>The lines that begin with a question mark; \<open>None\<close> for a line that is not one of them.\<close>

definition special_command ::
  "('j, 'v) engine \<Rightarrow> config \<Rightarrow> string \<Rightarrow> ('j, 'v) listener \<Rightarrow> (int \<times> ('j, 'v) listener) option option" where
  "special_command e cfg line l =
     (let reply = (\<lambda>r t l. map_option (\<lambda>l'. (r, l')) (write_to_stream (t @ [NL]) l)) in
      if strcmp_eq ''?quit'' line then
        Some (reply EXIT_ON_QUIT_COMMAND ''quit''
          (l\<lparr>l_ts := (l_ts l)\<lparr>ts_compiled_query := JS_UNDEFINED\<rparr>, l_w := (l_w l)\<lparr>g_interrupted_or_error := True\<rparr>\<rparr>))
      else if strcmp_eq ''?reset'' line then
        (case cleanup_command_state (l_ts l) (l_w l) of (ts', w') \<Rightarrow>
           Some (reply 0 ''reset'' (l\<lparr>l_ts := ts'\<lparr>ts_line_n := 0, ts_truncated := False\<rparr>, l_w := w'\<rparr>)))
      else if strcmp_eq ''?exectime'' line then
        Some (map_option (Pair 0) (writev_to_stream [show_int (sint (ts_last_command_exec_time_ns (l_ts l))), [NL]] l))
      else if strcmp_eq ''?memusage'' line then
        Some (case ts_rt (l_ts l) of
            None \<Rightarrow> None
          | Some j \<Rightarrow>
              (case format_memusage (w_memstream (l_w l)) (JS_ComputeMemoryUsage e j) of
                 None \<Rightarrow> reply 0 ''error: failed to format memusage'' l
               | Some memusage_str \<Rightarrow> map_option (Pair 0) (writev_to_stream [memusage_str, [NL]] l)))
      else if debug cfg \<and> strcmp_eq ''?tsreset'' line then
        Some (reply 0 ''tsreset'' (l\<lparr>l_ts := (l_ts l)\<lparr>ts_manually_trigger_thread_state_reset := True\<rparr>\<rparr>))
      else if line \<noteq> [] \<and> hd line = CHR ''?'' then Some (reply 0 ''bad command'' l)
      else None)"

definition line_truncated :: "('j, 'v) listener \<Rightarrow> (int \<times> ('j, 'v) listener) option" where
  \<open>line_truncated l =
     (if ts_line_n (l_ts l) = 2 then
        map_option (Pair 0)
          (writev_to_stream [uuid_text (l_ts l), '' exception "jsockd command was too long"'' @ [NL]]
            (l\<lparr>l_ts := (l_ts l)\<lparr>ts_truncated := False, ts_line_n := 0, ts_compiled_query := JS_UNDEFINED\<rparr>\<rparr>))
      else Some (0, l\<lparr>l_ts := (l_ts l)\<lparr>ts_line_n := ts_line_n (l_ts l) + 1\<rparr>\<rparr>))\<close>

definition line_handler ::
  "('j, 'v) engine \<Rightarrow> config \<Rightarrow> string \<Rightarrow> bool \<Rightarrow> ('j, 'v) listener \<Rightarrow> (int \<times> ('j, 'v) listener) option" where
  "line_handler e cfg line truncated l =
     (case clock_gettime (l_w l) of
        (None, w1) \<Rightarrow> Some (-1, l\<lparr>l_w := w1\<rparr>)
      | (Some now, w1) \<Rightarrow>
          let l1 = l\<lparr>l_w := w1, l_ts := (l_ts l)\<lparr>ts_last_active_time := now,
                ts_truncated := (ts_truncated (l_ts l) \<or> truncated \<or> debug cfg \<and> strcmp_eq line ''?truncated'')\<rparr>\<rparr>
          in if truncated then line_truncated l1
             else case special_command e cfg line l1 of
               Some res \<Rightarrow> res
             | None \<Rightarrow>
                 if ts_line_n (l_ts l1) = 0 then handle_line_1_message_uid line l1
                 else if ts_line_n (l_ts l1) = 1 then handle_line_2_query e cfg line l1
                 else if ts_line_n (l_ts l1) = 2 then handle_line_3_parameter e cfg line l1
                 else if debug cfg then None else Some (-1, l1))"

definition tick_handler :: "config \<Rightarrow> ('j, 'v) listener \<Rightarrow> ('j, 'v) listener" where
  "tick_handler cfg l =
     (let ts = l_ts l in
      if ts_thread_index ts = 0 \<or> max_idle_time_us (g_cmd_args cfg) = 0 \<or> ts_line_n ts \<noteq> 0 \<or> ts_rt ts = None then l
      else case clock_gettime (l_w l) of
        (None, w1) \<Rightarrow> l\<lparr>l_w := w1\<rparr>
      | (Some now, w1) \<Rightarrow>
          let ns_diff = ns_time_diff now (ts_last_active_time ts) in
          if of_nat (max_idle_time_us (g_cmd_args cfg)) \<le> ns_diff div 1000 \<and>
             ts_replacement_thread_state ts = REPLACEMENT_THREAD_STATE_NONE
          then (case cleanup_thread_state ts w1 of (ts', w2) \<Rightarrow> l\<lparr>l_ts := ts', l_w := w2\<rparr>)
          else l\<lparr>l_w := w1\<rparr>)"

section \<open>The loop of a listener\<close>

text \<open>
  The handler as the line reader calls it: a pointer into the shared buffer. A handler that does not
  return stops the reader with no listener.
\<close>

definition command_loop_line_handler_wrapper :: "('j, 'v) engine \<Rightarrow> config \<Rightarrow> ('j, 'v) listener option line_handler" where
  "command_loop_line_handler_wrapper e cfg s m off len truncated =
     (case s of
        None \<Rightarrow> (-1, None, m)
      | Some l \<Rightarrow>
          (case line_handler e cfg (cells off (off + len) m) truncated (l\<lparr>l_buf := m\<rparr>) of
             None \<Rightarrow> (-1, None, m)
           | Some (r, l') \<Rightarrow> (r, Some l', l_buf l')))"

abbreviation sep_char :: "config \<Rightarrow> char" where
  "sep_char cfg \<equiv> char_of (unat (socket_sep_char (g_cmd_args cfg)))"

text \<open>The loop over \<open>line_buf_replay\<close> after the thread state was replaced.\<close>

partial_function (option) replay_while ::
  "('j, 'v) engine \<Rightarrow> config \<Rightarrow> int \<Rightarrow> line_buf \<Rightarrow> ('j, 'v) listener option \<Rightarrow> (int \<times> line_buf \<times> ('j, 'v) listener option) option" where
  "replay_while e cfg exit_value b s =
     (if exit_value = TRAMPOLINE then
        (case line_buf_replay b (sep_char cfg) (command_loop_line_handler_wrapper e cfg) s of
           (r, b', s') \<Rightarrow> replay_while e cfg r b' s')
      else Some (exit_value, b, s))"

text \<open>
  One round of the read loop once the socket is readable; \<open>Inl\<close> is the listener when it stops.
  A runtime that was shut down is set up first, and the result of that is not looked at.
\<close>

definition read_round ::
  "('j, 'v) engine \<Rightarrow> config \<Rightarrow> (string + bool) list \<Rightarrow> line_buf \<Rightarrow> ('j, 'v) listener
     \<Rightarrow> (('j, 'v) listener + line_buf \<times> ('j, 'v) listener) option" where
  "read_round e cfg script b l = do {
     l1 \<leftarrow> (if ts_rt (l_ts l) = None then
             if debug cfg \<and> ts_replacement_thread_state (l_ts l) \<noteq> REPLACEMENT_THREAD_STATE_NONE then None
             else do {
               (r, ts', w') \<leftarrow> init_thread_state e cfg (ts_thread_index (l_ts l)) (l_ts l) (l_w l);
               Some (l\<lparr>l_ts := ts', l_repl := None, l_w := w'\<rparr>)
             }
           else Some l);
     _ \<leftarrow> lb_read script 0;
     (exit_value, b1, s1) \<leftarrow>
       (case line_buf_read b (sep_char cfg) (\<lambda>n. fst (the (lb_read script n))) (command_loop_line_handler_wrapper e cfg) (Some l1) of
          (r, b', s') \<Rightarrow> replay_while e cfg r b' s');
     l2 \<leftarrow> s1;
     Some (if exit_value < 0
           then Inl (if exit_value \<noteq> LINE_BUF_READ_EOF \<and> exit_value \<noteq> EXIT_ON_QUIT_COMMAND
                     then l2\<lparr>l_ts := (l_ts l2)\<lparr>ts_exit_status := -1\<rparr>\<rparr> else l2)
           else Inr (b1, l2))
   }"

text \<open>A thread that was started to make or to clean up a replacement runs to its end.\<close>

definition run_background ::
  "('j, 'v) engine \<Rightarrow> config \<Rightarrow> ('j, 'v) ThreadState \<Rightarrow> ('j, 'v) listener \<Rightarrow> ('j, 'v) listener option" where
  "run_background e cfg malloced l =
     (if ts_replacement_thread_state (l_ts l) = REPLACEMENT_THREAD_STATE_INIT then reset_thread_state_thread e cfg malloced l
      else if ts_replacement_thread_state (l_ts l) = REPLACEMENT_THREAD_STATE_CLEANUP
      then reset_thread_state_cleanup_old_runtime_thread l
      else Some l)"

text \<open>
  What happens in one turn of the read loop: whether a background thread finishes before it, what \<open>poll\<close>
  answers, whether the server was interrupted, and the answers of \<open>read\<close>.
\<close>

datatype ('j, 'v) turn = Turn (background: "('j, 'v) ThreadState option") (poll_ret: int) (interrupted: bool) (reads: "(string + bool) list")

primrec read_loop ::
  "('j, 'v) engine \<Rightarrow> config \<Rightarrow> ('j, 'v) turn list \<Rightarrow> line_buf \<Rightarrow> ('j, 'v) listener \<Rightarrow> ('j, 'v) listener option" where
  "read_loop e cfg [] b l = None"
| "read_loop e cfg (t # turns) b l = do {
     l0 \<leftarrow> (case background t of None \<Rightarrow> Some l | Some malloced \<Rightarrow> run_background e cfg malloced l);
     let l1 = tick_handler cfg l0;
     (case poll_fd (poll_ret t) (interrupted t) of
        GO_AROUND \<Rightarrow> read_loop e cfg turns b l1
      | SIG_INTERRUPT_OR_ERROR \<Rightarrow> Some l1
      | READY \<Rightarrow> do {
          res \<leftarrow> read_round e cfg (reads t) b l1;
          case res of Inl l2 \<Rightarrow> Some l2 | Inr (b2, l2) \<Rightarrow> read_loop e cfg turns b2 l2
        })
   }"

text \<open>Waiting for a client: the first poll that reports one, or an interrupt (\<open>Some False\<close>).\<close>

fun accept_loop :: "(int \<times> bool) list \<Rightarrow> bool option" where
  "accept_loop [] = None"
| "accept_loop ((r, intr) # polls) =
     (case poll_fd r intr of
        READY \<Rightarrow> Some True
      | GO_AROUND \<Rightarrow> accept_loop polls
      | SIG_INTERRUPT_OR_ERROR \<Rightarrow> Some False)"

text \<open>The end of the loop: both descriptors are closed and the other threads are told to stop.\<close>

definition command_loop_end :: "('j, 'v) listener \<Rightarrow> socket_call list \<times> ('j, 'v) listener" where
  "command_loop_end l =
     ((if 0 \<le> streamfd (l_sock l) then [Close (streamfd (l_sock l))] else []) @
      (if 0 \<le> sockfd (l_sock l) then [Close (sockfd (l_sock l))] else []),
      l\<lparr>l_sock := (l_sock l)\<lparr>streamfd := -1, sockfd := -1\<rparr>, l_w := (l_w l)\<lparr>g_interrupted_or_error := True\<rparr>\<rparr>)"

text \<open>
  \<open>command_loop\<close>: the calls that close descriptors, the listener at the end, and how often the wait group
  was told that this thread is ready.
\<close>

definition command_loop ::
  "('j, 'v) engine \<Rightarrow> config \<Rightarrow> socket_results \<Rightarrow> int \<Rightarrow> (int \<times> bool) list \<Rightarrow> int \<Rightarrow> ('j, 'v) turn list \<Rightarrow> ('j, 'v) listener
     \<Rightarrow> (nat \<times> socket_call list \<times> ('j, 'v) listener) option" where
  "command_loop e cfg sr inc_r accept_polls accepted turns l =
     (let fail = (\<lambda>l. l\<lparr>l_ts := (l_ts l)\<lparr>ts_exit_status := -1\<rparr>\<rparr>) in
      case initialize_and_listen_on_unix_socket sr (l_sock l) of (r, ss) \<Rightarrow>
      let l1 = l\<lparr>l_sock := ss\<rparr> in
      if r \<noteq> 0 then Some (1, command_loop_end (fail l1))
      else if inc_r \<noteq> 0 then Some (1, command_loop_end (fail l1))
      else let l2 = l1\<lparr>l_sock := ss\<lparr>streamfd := -1\<rparr>\<rparr> in do {
        ready \<leftarrow> accept_loop accept_polls;
        if \<not> ready then Some (1, command_loop_end l2)
        else let l3 = l2\<lparr>l_sock := (l_sock l2)\<lparr>streamfd := accepted\<rparr>\<rparr> in
        if accepted < 0 then Some (1, command_loop_end (fail l3))
        else case clock_gettime (l_w l3) of
          (None, w1) \<Rightarrow> Some (1, command_loop_end (fail (l3\<lparr>l_w := w1\<rparr>)))
        | (Some now, w1) \<Rightarrow>
            let l4 = l3\<lparr>l_w := w1, l_ts := (l_ts l3)\<lparr>ts_last_active_time := now\<rparr>\<rparr>;
                b = \<lparr>lb_buf = l_buf l4, lb_size = input_buf_bytes cfg, lb_start = 0, lb_afsep = 0, lb_truncated = False, lb_n = 0\<rparr>
            in do {
              l5 \<leftarrow> read_loop e cfg turns b l4;
              Some (1, command_loop_end l5)
            }
      })"

definition listen_thread_func ::
  "('j, 'v) engine \<Rightarrow> config \<Rightarrow> socket_results \<Rightarrow> int \<Rightarrow> (int \<times> bool) list \<Rightarrow> int \<Rightarrow> ('j, 'v) turn list \<Rightarrow> ('j, 'v) listener
     \<Rightarrow> (nat \<times> socket_call list \<times> ('j, 'v) listener) option" where
  "listen_thread_func e cfg sr inc_r accept_polls accepted turns l = command_loop e cfg sr inc_r accept_polls accepted turns l"

end
