(* ===== verification/Server_Correct.thy ===== *)
theory Server_Correct
  imports Server
begin

text \<open>
  What the command protocol guarantees: each command gets one reply, the lines with a question mark
  do what they say at any time, and the loop after a replacement ends.
\<close>

section \<open>Whole writes\<close>

lemma writev_loop_zero: "writev_loop os iov sent = Some (0, os', sent') \<Longrightarrow> sent' = sent @ concat iov"
proof (induction os iov sent rule: writev_loop.induct)
  case (3 n eintr os v vs sent)
  have adv: "concat (advance_iov (nat n) (v # vs)) = drop (nat n) (concat (v # vs))" by (rule concat_advance_iov)
  show ?case
  proof (cases "n \<le> 0")
    case True
    with 3 show ?thesis by (auto simp: Let_def split: if_splits)
  next
    case False
    with "3.prems" have "writev_loop os (advance_iov (nat n) (v # vs)) (sent @ take (nat n) (concat (v # vs))) = Some (0, os', sent')"
      by (simp add: Let_def)
    from "3.IH"(2) [OF refl refl False this] adv show ?thesis by (simp only: append_assoc append_take_drop_id)
  qed
qed simp_all

lemma writev_all_zero: "writev_all os iov sent = Some (0, os', sent') \<Longrightarrow> sent' = sent @ concat iov"
  by (auto simp: writev_all_def split: if_splits dest: writev_loop_zero)

lemma writev_loop_result: "writev_loop os iov sent = Some (r, os', sent') \<Longrightarrow> r = 0 \<or> r = -1"
  by (induction os iov sent rule: writev_loop.induct) (auto simp: Let_def split: if_splits)

lemma writev_all_result: "writev_all os iov sent = Some (r, os', sent') \<Longrightarrow> r = 0 \<or> r = -1"
  by (auto simp: writev_all_def split: if_splits dest: writev_loop_result)

text \<open>What a write to the stream changes: the world's output, and the error flag on a failure.\<close>

lemma writev_to_stream_keeps:
  assumes "writev_to_stream iov l = Some l'"
  shows "l_ts l' = l_ts l \<and> l_repl l' = l_repl l \<and> l_buf l' = l_buf l \<and>
    l_sock l' \<in> {l_sock l, (l_sock l)\<lparr>stream_io_err := -1\<rparr>} \<and> (\<exists>os sent. l_w l' = (l_w l)\<lparr>w_writes := os, w_sent := sent\<rparr>)"
proof -
  obtain r os sent where "l' = stream_result (r, os, sent) l" using assms by (auto simp: writev_to_stream_def)
  then show ?thesis by (intro conjI exI [of _ os] exI [of _ sent]) (simp_all add: stream_result_def)
qed

lemma writev_to_stream_whole:
  assumes "writev_to_stream iov l = Some l'" "stream_io_err (l_sock l') = 0"
  shows "w_sent (l_w l') = w_sent (l_w l) @ concat iov \<and> l_sock l' = l_sock l"
proof -
  obtain r os sent where w: "writev_all (w_writes (l_w l)) iov (w_sent (l_w l)) = Some (r, os, sent)"
    and l': "l' = stream_result (r, os, sent) l"
    using assms(1) by (auto simp: writev_to_stream_def)
  from l' assms(2) have "r = 0" by (auto simp: stream_result_def split: if_splits)
  with writev_all_zero w l' show ?thesis by (auto simp: stream_result_def)
qed

section \<open>One reply per command\<close>

lemma check_memory_keeps:
  assumes "check_memory e cfg l = Some (r, l')"
  shows "l_w l' = l_w l \<and> l_repl l' = l_repl l \<and> l_buf l' = l_buf l \<and> l_sock l' = l_sock l \<and> (r = stream_io_err (l_sock l) \<or> r = -1)"
  using assms by (auto simp: check_memory_def Let_def split: option.splits if_splits)

lemma exception_reply_sends:
  assumes "exception_reply payload l = Some (r, l')" "r = 0"
  shows "w_sent (l_w l') = w_sent (l_w l) @ uuid_text (l_ts l) @ '' exception '' @ payload @ [NL]"
  using assms by (auto simp: exception_reply_def bind_eq_Some_conv dest!: writev_to_stream_whole)

lemma command_returned_sends:
  assumes "command_returned e cfg start ret j l = Some (r, l')" "r = 0"
  shows "\<exists>ok payload. w_sent (l_w l') = w_sent (l_w l) @ uuid_text (l_ts l) @ (if ok then '' ok '' else '' exception '') @ payload @ [NL]
    \<and> (ok \<longrightarrow> (\<exists>v j1 j2. ret \<noteq> JS_EXCEPTION \<and> JS_JSONStringify e ret JS_UNDEFINED JS_UNDEFINED j = (v, j1) \<and>
         JS_ToCStringLen e v j1 = (Some payload, j2)))"
proof -
  have ut: "uuid_text (ts\<lparr>ts_rt := x\<rparr>) = uuid_text ts" "uuid_text (ts\<lparr>ts_sourcemap_str := s\<rparr>) = uuid_text ts"
    "uuid_text (ts\<lparr>ts_last_command_exec_time_ns := n\<rparr>) = uuid_text ts" for ts :: "('a, 'b) ThreadState" and x s n
    by (simp_all add: uuid_text_def)
  show ?thesis
  proof (cases "ret = JS_EXCEPTION")
    case True
    obtain pieces j1 where p: "print_exception e j = (pieces, j1)" by fastforce
    from assms True p obtain bt ts1 j2 w1 l2 where
      bt: "get_backtrace e cfg (error_text pieces) BACKTRACE_JSON (l_ts l) j1 (l_w l) = Some (bt, ts1, j2, w1)"
      and wr: "writev_to_stream [uuid_text ts1, '' exception '', case bt of Some s \<Rightarrow> s | None \<Rightarrow> ''{}'', [NL]]
          (l\<lparr>l_w := w1, l_ts := ts1\<lparr>ts_rt := Some j2\<rparr>\<rparr>) = Some l2" "stream_io_err (l_sock l2) = 0" "l' = l2"
      by (auto simp: command_returned_def Let_def bind_eq_Some_conv)
    from get_backtrace_keeps [OF bt] have "w_sent w1 = w_sent (l_w l)" "uuid_text ts1 = uuid_text (l_ts l)"
      by (auto simp: same_shared_def ut)
    with writev_to_stream_whole [OF wr(1,2)] wr(3) show ?thesis
      by (intro exI [of _ False] exI [of _ "case bt of Some s \<Rightarrow> s | None \<Rightarrow> ''{}''"]) auto
  next
    case False
    obtain v j1 where v: "JS_JSONStringify e ret JS_UNDEFINED JS_UNDEFINED j = (v, j1)" by fastforce
    show ?thesis
    proof (cases "v = JS_EXCEPTION \<or> v = JS_UNDEFINED")
      case True
      then obtain payload where "exception_reply payload (l\<lparr>l_ts := (l_ts l)\<lparr>ts_rt := Some j1\<rparr>\<rparr>) = Some (r, l')"
        using assms False v by (auto simp: command_returned_def Let_def)
      from exception_reply_sends [OF this assms(2)] show ?thesis
        by (intro exI [of _ False]) (auto simp: ut)
    next
      case ok: False
      obtain now where now: "w_clock (l_w l) (w_tick (l_w l)) = Some now"
        using assms False v ok by (auto simp: command_returned_def Let_def split: option.splits)
      obtain str j2 where str: "JS_ToCStringLen e v j1 = (Some str, j2)"
        using assms False v ok now by (auto simp: command_returned_def Let_def split: option.splits prod.splits)
      let ?l1 = "l\<lparr>l_w := (l_w l)\<lparr>w_tick := w_tick (l_w l) + 1\<rparr>,
        l_ts := (l_ts l)\<lparr>ts_last_command_exec_time_ns := ns_time_diff now start, ts_rt := Some j2\<rparr>\<rparr>"
      obtain l2 where wr: "writev_to_stream [uuid_text (l_ts l), '' ok '', str, [NL]] ?l1 = Some l2"
        and mem: "check_memory e cfg l2 = Some (r, l')"
        using assms False v ok now str by (auto simp: command_returned_def Let_def ut bind_eq_Some_conv)
      have "stream_io_err (l_sock l2) = 0" using check_memory_keeps [OF mem] assms(2) by auto
      from writev_to_stream_whole [OF wr this] check_memory_keeps [OF mem] False v str show ?thesis
        by (intro exI [of _ True] exI [of _ str]) auto
    qed
  qed
qed

section \<open>What JavaScript can change\<close>

text \<open>A run talks to the client and lets time pass, and changes nothing else of the world.\<close>

definition talks :: "world \<Rightarrow> world \<Rightarrow> bool" where
  "talks w w' \<longleftrightarrow> (\<exists>os sent polls tick. w' = w\<lparr>w_writes := os, w_sent := w_sent w @ sent, w_polls := polls, w_tick := tick\<rparr>)"

lemma talks_refl [simp]: "talks w w"
  unfolding talks_def by (intro exI [of _ "w_writes w"] exI [of _ "[]"] exI [of _ "w_polls w"] exI [of _ "w_tick w"]) simp

lemma talks_trans [trans]: "talks w w1 \<Longrightarrow> talks w1 w2 \<Longrightarrow> talks w w2"
  by (fastforce simp: talks_def)

lemma talks_tick [simp]: "talks w (w\<lparr>w_tick := k\<rparr>)"
  unfolding talks_def by (intro exI [of _ "w_writes w"] exI [of _ "[]"] exI [of _ "w_polls w"] exI [of _ k]) simp

lemma talks_fields:
  assumes "talks w w'"
  shows "w_cache w' = w_cache w" "w_mem w' = w_mem w" "g_interrupted_or_error w' = g_interrupted_or_error w"
    "w_pthread_create w' = w_pthread_create w" "w_pthread_join w' = w_pthread_join w" "w_clock w' = w_clock w"
    "\<exists>sent. w_sent w' = w_sent w @ sent"
  using assms by (auto simp: talks_def)

lemma writev_loop_extends: "writev_loop os iov sent = Some (r, os', sent') \<Longrightarrow> \<exists>t. sent' = sent @ t"
proof (induction os iov sent rule: writev_loop.induct)
  case (3 n eintr os v vs sent)
  then show ?case by (fastforce simp: Let_def split: if_splits)
qed simp_all

lemma writev_all_talks:
  assumes "writev_all (w_writes w) iov (w_sent w) = Some (r, os, sent)"
  shows "talks w (w\<lparr>w_writes := os, w_sent := sent\<rparr>)"
proof -
  obtain t where "sent = w_sent w @ t"
    using assms writev_loop_extends by (fastforce simp: writev_all_def split: if_splits)
  then show ?thesis
    unfolding talks_def by (intro exI [of _ os] exI [of _ t] exI [of _ "w_polls w"] exI [of _ "w_tick w"]) simp
qed

lemma read_reply_talks: "read_reply cfg start n tb polls buf w = Some (res, buf', w') \<Longrightarrow> talks w w'"
proof (induction polls arbitrary: n tb buf w)
  case (Cons a polls)
  have p: "talks w (w\<lparr>w_polls := p, w_tick := k\<rparr>)" "talks w (w\<lparr>w_polls := p\<rparr>)" for p k
    unfolding talks_def
    by (intro exI [of _ "w_writes w"] exI [of _ "[]"] exI [of _ p] exI [of _ k], simp)
       (intro exI [of _ "w_writes w"] exI [of _ "[]"] exI [of _ p] exI [of _ "w_tick w"], simp)
  show ?case
  proof (cases "ppoll_fd (pa_events a) (pa_interrupted a)")
    case READY
    with Cons.prems show ?thesis
      by (cases "pa_read a") (auto simp: Let_def p split: if_splits option.splits dest!: Cons.IH intro: talks_trans [OF p(1)] talks_trans [OF p(2)])
  next
    case GO_AROUND
    with Cons.prems show ?thesis by (auto simp: Let_def dest!: Cons.IH intro: talks_trans [OF p(2)])
  next
    case SIG_INTERRUPT_OR_ERROR
    with Cons.prems show ?thesis by (auto simp: p)
  qed
qed simp

lemma send_message_talks:
  assumes "send_message e cfg ts message buf j w = Some (r, v, buf', j', w')"
  shows "talks w w'"
proof -
  obtain r0 os sent where wr: "writev_all (w_writes w) [uuid_text ts, '' message '', message, [NL]] (w_sent w) = Some (r0, os, sent)"
    using assms by (auto simp: send_message_def bind_eq_Some_conv)
  let ?w = "w\<lparr>w_writes := os, w_sent := sent\<rparr>"
  have 1: "talks w ?w" by (rule writev_all_talks [OF wr])
  show ?thesis
  proof (cases "r0 < 0")
    case True
    then show ?thesis using assms wr 1 by (auto simp: send_message_def)
  next
    case False
    then obtain res buf1 w2 where rd: "read_reply cfg (ts_last_js_execution_start ts) 0 False (w_polls w) buf ?w = Some (res, buf1, w2)"
      using assms wr by (auto simp: send_message_def bind_eq_Some_conv)
    with assms wr False have "w' = w2"
      by (auto simp: send_message_def Let_def split: sum.splits prod.splits if_splits)
    with talks_trans [OF 1 read_reply_talks [OF rd]] show ?thesis by simp
  qed
qed

lemma jsockd_send_message_talks:
  "jsockd_send_message e cfg ts argv buf j w = Some (r, buf', j', w') \<Longrightarrow> talks w w'"
  by (auto simp: jsockd_send_message_def bind_eq_Some_conv split: if_splits prod.splits option.splits dest: send_message_talks)

lemma run_js_talks: "run_js e cfg ts run buf w = Some (v, j, buf', w') \<Longrightarrow> talks w w'"
proof (induction run arbitrary: buf w)
  case (Js_send argv j0 k)
  then show ?case
    by (auto simp: bind_eq_Some_conv dest!: jsockd_send_message_talks) (metis rangeI talks_trans)
qed auto

lemma func_from_bytecode_talks:
  assumes "func_from_bytecode e cfg ts bc j buf w = Some (v, j', buf', w')"
  shows "talks w w'"
proof -
  obtain val j1 where r: "JS_ReadObject e bc j = (val, j1)" by fastforce
  show ?thesis
  proof (cases "val = JS_EXCEPTION")
    case False
    then obtain x j2 b2 w2 where run: "run_js e cfg ts (eval_function e val j1) buf w = Some (x, j2, b2, w2)"
      using assms r by (auto simp: func_from_bytecode_def bind_eq_Some_conv)
    with assms r False have "w' = w2" by (auto simp: func_from_bytecode_def split: prod.splits if_splits)
    with run_js_talks [OF run] show ?thesis by simp
  qed (use assms r in \<open>auto simp: func_from_bytecode_def\<close>)
qed

section \<open>The third line\<close>

lemma cleanup_command_state_idle:
  assumes "cleanup_command_state ts w = (ts', w')"
  shows "ts_line_n ts' = ts_line_n ts \<and> ts_compiled_query ts' = JS_UNDEFINED \<and> ts_dangling_bytecode ts' = None \<and>
    ts_cached_function_in_use ts' = None \<and> ts_rt ts' = ts_rt ts \<and> w_sent w' = w_sent w \<and> w_mem w' = w_mem w \<and>
    ts_replacement_thread_state ts' = ts_replacement_thread_state ts \<and> ts_thread_index ts' = ts_thread_index ts \<and>
    ts_current_uuid ts' = ts_current_uuid ts \<and> ts_current_uuid_len ts' = ts_current_uuid_len ts \<and>
    w_writes w' = w_writes w \<and> g_interrupted_or_error w' = g_interrupted_or_error w"
  using assms by (auto simp: cleanup_command_state_def free_bytecode_def Let_def split: option.splits)

lemma helper_sends:
  assumes "handle_line_3_parameter_helper e cfg line l = Some (r, l')" "r = 0"
  shows "\<exists>msgs ok payload. w_sent (l_w l') = w_sent (l_w l) @ msgs @
      uuid_text (l_ts l) @ (if ok then '' ok '' else '' exception '') @ payload @ [NL]"
proof (cases "ts_compiled_query (l_ts l) = JS_EXCEPTION")
  case True
  then obtain payload where "exception_reply payload l = Some (r, l')"
    using assms by (auto simp: handle_line_3_parameter_helper_def)
  from exception_reply_sends [OF this assms(2)]
  have "w_sent (l_w l') = w_sent (l_w l) @ [] @ uuid_text (l_ts l) @ (if False then '' ok '' else '' exception '') @ payload @ [NL]"
    by simp
  then show ?thesis by blast
next
  case False
  obtain now where now: "w_clock (l_w l) (w_tick (l_w l)) = Some now"
    using assms False by (auto simp: handle_line_3_parameter_helper_def split: option.splits)
  obtain j where j: "ts_rt (l_ts l) = Some j"
    using assms False now by (auto simp: handle_line_3_parameter_helper_def Let_def split: option.splits)
  obtain arg j1 where p: "JS_ParseJSON e line j = (arg, j1)" by fastforce
  let ?ts = "(l_ts l)\<lparr>ts_last_js_execution_start := now\<rparr>" and ?w = "(l_w l)\<lparr>w_tick := w_tick (l_w l) + 1\<rparr>"
  have ut: "uuid_text (ts\<lparr>ts_last_js_execution_start := t\<rparr>) = uuid_text ts" "uuid_text (ts\<lparr>ts_rt := x\<rparr>) = uuid_text ts"
    for ts :: "('a, 'b) ThreadState" and t x
    by (simp_all add: uuid_text_def)
  show ?thesis
  proof (cases "arg = JS_EXCEPTION")
    case True
    then obtain payload where "exception_reply payload (l\<lparr>l_ts := ?ts\<lparr>ts_rt := Some j1\<rparr>, l_w := ?w\<rparr>) = Some (r, l')"
      using assms False now j p by (auto simp: handle_line_3_parameter_helper_def Let_def)
    from exception_reply_sends [OF this assms(2)]
    have "w_sent (l_w l') = w_sent (l_w l) @ [] @ uuid_text (l_ts l) @ (if False then '' ok '' else '' exception '') @ payload @ [NL]"
      by (simp add: ut)
    then show ?thesis by blast
  next
    case ok: False
    then obtain ret j2 buf' w2 where
      run: "run_js e cfg ?ts (JS_Call e (ts_compiled_query (l_ts l)) [ts_compiled_module (l_ts l), arg] j1) (l_buf l) ?w
        = Some (ret, j2, buf', w2)"
      and ret: "command_returned e cfg now ret j2 (l\<lparr>l_ts := ?ts, l_buf := buf', l_w := w2\<rparr>) = Some (r, l')"
      using assms False now j p by (auto simp: handle_line_3_parameter_helper_def Let_def bind_eq_Some_conv)
    obtain msgs where msgs: "w_sent w2 = w_sent (l_w l) @ msgs"
      using talks_fields(7) [OF run_js_talks [OF run]] by auto
    obtain k payload where "w_sent (l_w l') = w_sent w2 @ uuid_text (l_ts l) @ (if k then '' ok '' else '' exception '') @ payload @ [NL]"
      using command_returned_sends [OF ret assms(2)] by (auto simp: ut)
    with msgs have "w_sent (l_w l') = w_sent (l_w l) @ msgs @ uuid_text (l_ts l) @ (if k then '' ok '' else '' exception '') @ payload @ [NL]"
      by simp
    then show ?thesis by blast
  qed
qed

lemma line_3_cases:
  assumes "handle_line_3_parameter e cfg line l = Some (r, l')"
  obtains l2 ts' w' where "handle_line_3_parameter_helper e cfg line l = Some (r, l2)"
    "cleanup_command_state ((l_ts l2)\<lparr>ts_line_n := 0\<rparr>) (l_w l2) = (ts', w')" "l' = l2\<lparr>l_ts := ts', l_w := w'\<rparr>"
proof -
  obtain r2 l2 where h: "handle_line_3_parameter_helper e cfg line l = Some (r2, l2)"
    using assms by (auto simp: handle_line_3_parameter_def bind_eq_Some_conv)
  obtain ts' w' where c: "cleanup_command_state ((l_ts l2)\<lparr>ts_line_n := 0\<rparr>) (l_w l2) = (ts', w')" by fastforce
  from that [of l2 ts' w'] assms h c show ?thesis by (simp add: handle_line_3_parameter_def)
qed

section \<open>Lines that are not special\<close>

definition plain_line :: "string \<Rightarrow> bool" where
  "plain_line line \<longleftrightarrow> (line = [] \<or> hd line \<noteq> CHR ''?'')"

lemma plain_not_special: "plain_line line \<Longrightarrow> special_command e cfg line l = None"
proof -
  assume p: "plain_line line"
  have "\<not> strcmp_eq (CHR ''?'' # s) line" for s
    using p by (cases line) (auto simp: strcmp_eq_def plain_line_def)
  then show ?thesis using p by (auto simp: special_command_def Let_def plain_line_def)
qed

section \<open>Properties\<close>


definition demo_listener :: "int \<Rightarrow> string js \<Rightarrow> (nat, string) listener" where
  "demo_listener n q = \<lparr>l_ts = demo_sender\<lparr>ts_rt := Some 0, ts_line_n := n, ts_compiled_query := q\<rparr>, l_repl = None,
     l_sock = init_socket_state ''/tmp/a'', l_buf = replicate 16 NUL, l_w = demo_world\<rparr>"

lemma demo_reply:
  "\<exists>l'. line_handler demo_engine demo_config ''7'' False (demo_listener 2 (Js ''f'')) = Some (0, l') \<and>
     w_sent (l_w l') = ''u ok 7'' @ [NL]"
proof -
  have w: "writev_all (replicate 20 (1000, False)) [''u'', '' ok '', ''7'', [NL]] '''' = Some (0, replicate 19 (1000, False), ''u ok 7'' @ [NL])"
    by code_simp
  show ?thesis
    by (simp add: line_handler_def special_command_def strcmp_eq_def handle_line_3_parameter_def handle_line_3_parameter_helper_def
        command_returned_def writev_to_stream_def stream_result_def check_memory_def manual_reset_def cleanup_command_state_def
        free_bytecode_def MEMORY_CHECK_INTERVAL_def demo_listener_def demo_sender_def zeroed_ThreadState_def demo_config_def zeroed_args_def
        demo_engine_def demo_world_def init_socket_state_def uuid_text_def w)
qed


text \<open>The reply each line with a question mark asks for.\<close>

definition special_reply :: "('j, 'v) engine \<Rightarrow> config \<Rightarrow> string \<Rightarrow> ('j, 'v) listener \<Rightarrow> string" where
  "special_reply e cfg line l =
     (if cstr line = ''?quit'' then ''quit''
      else if cstr line = ''?reset'' then ''reset''
      else if cstr line = ''?exectime'' then show_int (sint (ts_last_command_exec_time_ns (l_ts l)))
      else if cstr line = ''?memusage'' then
        (case format_memusage (w_memstream (l_w l)) (JS_ComputeMemoryUsage e (the (ts_rt (l_ts l)))) of
           Some m \<Rightarrow> m | None \<Rightarrow> ''error: failed to format memusage'')
      else if debug cfg \<and> cstr line = ''?tsreset'' then ''tsreset''
      else ''bad command'')"

lemma write_to_stream_whole:
  assumes "write_to_stream t l = Some l'" "stream_io_err (l_sock l') = 0"
    and "honest_writes (w_writes (l_w l)) (length t)" "length t < 2 ^ 31"
  shows "w_sent (l_w l') = w_sent (l_w l) @ t"
proof -
  obtain r os sent where w: "write_all (w_writes (l_w l)) t (w_sent (l_w l)) = Some (r, os, sent)"
    and l': "l' = stream_result (r, os, sent) l"
    using assms(1) by (auto simp: write_to_stream_def)
  from l' assms(2) have "r = 0" by (auto simp: stream_result_def split: if_splits)
  with write_all_prefix [OF assms(3,4) w] l' show ?thesis by (auto simp: stream_result_def)
qed

lemma write_to_stream_keeps:
  assumes "write_to_stream t l = Some l'"
  shows "l_ts l' = l_ts l \<and> w_cache (l_w l') = w_cache (l_w l) \<and> w_mem (l_w l') = w_mem (l_w l) \<and> l_repl l' = l_repl l \<and>
    g_interrupted_or_error (l_w l') = g_interrupted_or_error (l_w l)"
  using assms by (auto simp: write_to_stream_def stream_result_def)

lemma writev_to_stream_keeps_world:
  assumes "writev_to_stream t l = Some l'"
  shows "l_ts l' = l_ts l \<and> l_repl l' = l_repl l \<and> w_cache (l_w l') = w_cache (l_w l) \<and> w_mem (l_w l') = w_mem (l_w l) \<and>
    g_interrupted_or_error (l_w l') = g_interrupted_or_error (l_w l)"
  using writev_to_stream_keeps [OF assms] by auto

text \<open>The parts of a listener that hold the command in flight.\<close>

definition same_command :: "('j, 'v) listener \<Rightarrow> ('j, 'v) listener \<Rightarrow> bool" where
  "same_command l l' \<longleftrightarrow>
     ts_line_n (l_ts l') = ts_line_n (l_ts l) \<and> ts_compiled_query (l_ts l') = ts_compiled_query (l_ts l) \<and>
     uuid_text (l_ts l') = uuid_text (l_ts l) \<and> ts_rt (l_ts l') = ts_rt (l_ts l) \<and>
     ts_dangling_bytecode (l_ts l') = ts_dangling_bytecode (l_ts l) \<and>
     ts_cached_function_in_use (l_ts l') = ts_cached_function_in_use (l_ts l) \<and>
     ts_replacement_thread_state (l_ts l') = ts_replacement_thread_state (l_ts l) \<and> l_repl l' = l_repl l \<and>
     w_cache (l_w l') = w_cache (l_w l) \<and> w_mem (l_w l') = w_mem (l_w l)"

lemma special_effect:
  assumes "special_command e cfg line l = Some (Some (r, l'))"
  shows "if cstr line = ''?quit'' then r = EXIT_ON_QUIT_COMMAND \<and> g_interrupted_or_error (l_w l')
    else r = 0 \<and> (if cstr line = ''?reset'' then ts_idle (l_ts l') else same_command l l')"
proof -
  have c: "ts_idle (ts'\<lparr>ts_line_n := 0, ts_truncated := False\<rparr>)" if "cleanup_command_state (l_ts l) (l_w l) = (ts', w')" for ts' w'
    using cleanup_command_state_idle [OF that] by (simp add: ts_idle_def)
  consider "cstr line = ''?quit''" | "cstr line = ''?reset''" | "cstr line = ''?exectime''" | "cstr line = ''?memusage''"
    | "cstr line \<notin> {''?quit'', ''?reset'', ''?exectime'', ''?memusage''}" by auto
  then show ?thesis
    using assms
    by cases (auto simp: special_command_def Let_def strcmp_eq_def same_command_def uuid_text_def c
        split: prod.splits option.splits if_splits
        dest!: write_to_stream_keeps writev_to_stream_keeps_world)
qed

lemma special_sends:
  assumes "special_command e cfg line l = Some (Some (r, l'))" "stream_io_err (l_sock l') = 0"
    and "honest_writes (w_writes (l_w l)) (length (special_reply e cfg line l) + 1)" "length (special_reply e cfg line l) + 1 < 2 ^ 31"
  shows "w_sent (l_w l') = w_sent (l_w l) @ special_reply e cfg line l @ [NL]"
proof -
  have w: "w_sent w' = w_sent (l_w l) \<and> w_writes w' = w_writes (l_w l)" if "cleanup_command_state (l_ts l) (l_w l) = (ts', w')" for ts' w'
    using cleanup_command_state_idle [OF that] by simp
  have 1: "w_sent (l_w l') = w_sent (l_w m) @ special_reply e cfg line l @ [NL]"
    if "write_to_stream (special_reply e cfg line l @ [NL]) m = Some l'" "w_writes (l_w m) = w_writes (l_w l)" for m
    using write_to_stream_whole [OF that(1) assms(2)] that(2) assms(3,4) by simp
  have 2: "w_sent (l_w l') = w_sent (l_w m) @ special_reply e cfg line l @ [NL]"
    if "writev_to_stream [special_reply e cfg line l, [NL]] m = Some l'" for m
    using writev_to_stream_whole [OF that assms(2)] by simp
  consider (quit) "cstr line = ''?quit''" | (reset) "cstr line = ''?reset''" | (exectime) "cstr line = ''?exectime''"
    | (memusage) "cstr line = ''?memusage''" | (other) "cstr line \<notin> {''?quit'', ''?reset'', ''?exectime'', ''?memusage''}" by auto
  then show ?thesis
  proof cases
    case quit
    let ?m = "l\<lparr>l_ts := (l_ts l)\<lparr>ts_compiled_query := JS_UNDEFINED\<rparr>, l_w := (l_w l)\<lparr>g_interrupted_or_error := True\<rparr>\<rparr>"
    have "special_reply e cfg line l = ''quit''" using quit by (simp add: special_reply_def)
    with quit assms(1) have "write_to_stream (special_reply e cfg line l @ [NL]) ?m = Some l'"
      by (auto simp: special_command_def strcmp_eq_def Let_def)
    from 1 [OF this] show ?thesis by simp
  next
    case reset
    obtain ts' w' where c: "cleanup_command_state (l_ts l) (l_w l) = (ts', w')" by fastforce
    let ?m = "l\<lparr>l_ts := ts'\<lparr>ts_line_n := 0, ts_truncated := False\<rparr>, l_w := w'\<rparr>"
    have "special_reply e cfg line l = ''reset''" using reset by (simp add: special_reply_def)
    with reset assms(1) c have "write_to_stream (special_reply e cfg line l @ [NL]) ?m = Some l'"
      by (auto simp: special_command_def strcmp_eq_def Let_def)
    from 1 [OF this] w [OF c] show ?thesis by simp
  next
    case exectime
    then have "special_reply e cfg line l = show_int (sint (ts_last_command_exec_time_ns (l_ts l)))" by (simp add: special_reply_def)
    with exectime assms(1) have "writev_to_stream [special_reply e cfg line l, [NL]] l = Some l'"
      by (auto simp: special_command_def strcmp_eq_def Let_def)
    from 2 [OF this] show ?thesis .
  next
    case memusage
    obtain j where j: "ts_rt (l_ts l) = Some j"
      using memusage assms(1) by (auto simp: special_command_def strcmp_eq_def Let_def split: option.splits)
    show ?thesis
    proof (cases "format_memusage (w_memstream (l_w l)) (JS_ComputeMemoryUsage e j)")
      case None
      then have "special_reply e cfg line l = ''error: failed to format memusage''" using memusage j by (simp add: special_reply_def)
      with memusage assms(1) None j have "write_to_stream (special_reply e cfg line l @ [NL]) l = Some l'"
        by (auto simp: special_command_def strcmp_eq_def Let_def)
      from 1 [OF this] show ?thesis by simp
    next
      case (Some m)
      then have "special_reply e cfg line l = m" using memusage j by (simp add: special_reply_def)
      with memusage assms(1) Some j have "writev_to_stream [special_reply e cfg line l, [NL]] l = Some l'"
        by (auto simp: special_command_def strcmp_eq_def Let_def)
      from 2 [OF this] show ?thesis .
    qed
  next
    case other
    then obtain m where "write_to_stream (special_reply e cfg line l @ [NL]) m = Some l'" "l_w m = l_w l"
      using assms(1)
      by (cases "debug cfg \<and> cstr line = ''?tsreset''")
        (auto simp: special_command_def strcmp_eq_def Let_def special_reply_def split: if_splits)
    with 1 [of m] show ?thesis by simp
  qed
qed

lemma special_iff: "special_command e cfg line l = None \<longleftrightarrow> plain_line line"
proof (cases "plain_line line")
  case False
  then show ?thesis by (auto simp: special_command_def Let_def plain_line_def split: prod.splits)
qed (simp add: plain_not_special)

text \<open>
  C24: The lines with a question mark work at any point of a command. \<open>?reset\<close> puts the listener back to
  where it expects a new command, \<open>?quit\<close> stops the listener and tells the whole server to stop, every
  other one leaves the command in flight as it is; and each writes exactly its one line, when the
  descriptor keeps the contract of \<open>write\<close> and no error is recorded.
\<close>

theorem special_lines:
  assumes "line_handler e cfg line False l = Some (r, l')" "w_clock (l_w l) (w_tick (l_w l)) \<noteq> None" "\<not> plain_line line"
  shows "(if cstr line = ''?quit'' then r = EXIT_ON_QUIT_COMMAND \<and> g_interrupted_or_error (l_w l')
     else r = 0 \<and> (if cstr line = ''?reset'' then ts_idle (l_ts l') else same_command l l')) \<and>
    (stream_io_err (l_sock l') = 0 \<and> honest_writes (w_writes (l_w l)) (length (special_reply e cfg line l) + 1) \<and>
       length (special_reply e cfg line l) + 1 < 2 ^ 31 \<longrightarrow>
     w_sent (l_w l') = w_sent (l_w l) @ special_reply e cfg line l @ [NL])"
proof -
  obtain now where now: "w_clock (l_w l) (w_tick (l_w l)) = Some now" using assms(2) by blast
  define l1 where "l1 = l\<lparr>l_w := (l_w l)\<lparr>w_tick := w_tick (l_w l) + 1\<rparr>, l_ts := (l_ts l)\<lparr>ts_last_active_time := now,
      ts_truncated := (ts_truncated (l_ts l) \<or> False \<or> debug cfg \<and> strcmp_eq line ''?truncated'')\<rparr>\<rparr>"
  obtain res where res: "special_command e cfg line l1 = Some res"
    using assms(3) special_iff [of e cfg line l1] by auto
  with assms(1) now have s: "special_command e cfg line l1 = Some (Some (r, l'))"
    by (simp add: line_handler_def l1_def Let_def)
  have same: "special_reply e cfg line l1 = special_reply e cfg line l" "w_sent (l_w l1) = w_sent (l_w l)"
    "w_writes (l_w l1) = w_writes (l_w l)" "same_command l1 l' = same_command l l'"
    by (simp_all add: l1_def special_reply_def same_command_def uuid_text_def)
  show ?thesis using special_effect [OF s] special_sends [OF s] unfolding same by blast
qed

theorem special_lines_witness:
  "\<exists>r l'. line_handler demo_engine demo_config ''?reset'' False
       ((demo_listener 1 JS_UNDEFINED)\<lparr>l_w := demo_world\<lparr>w_writes := [(6, False)]\<rparr>\<rparr>) = Some (r, l') \<and>
     ts_idle (l_ts l') \<and> w_sent (l_w l') = ''reset'' @ [NL]"
proof -
  let ?l = "(demo_listener 1 JS_UNDEFINED)\<lparr>l_w := demo_world\<lparr>w_writes := [(6, False)]\<rparr>\<rparr>"
  have w: "write_all [(6, False)] (''reset'' @ [NL]) '''' = Some (0, [], ''reset'' @ [NL])" by code_simp
  obtain r l' where run: "line_handler demo_engine demo_config ''?reset'' False ?l = Some (r, l')" "stream_io_err (l_sock l') = 0"
    using w by (simp add: line_handler_def special_command_def strcmp_eq_def write_to_stream_def stream_result_def cleanup_command_state_def
        free_bytecode_def demo_listener_def demo_sender_def zeroed_ThreadState_def demo_world_def init_socket_state_def)
  have "w_clock (l_w ?l) (w_tick (l_w ?l)) \<noteq> None" "\<not> plain_line ''?reset''"
    by (simp_all add: demo_world_def plain_line_def)
  from special_lines [OF run(1) this] run show ?thesis
    by (simp add: special_reply_def demo_world_def)
qed

section \<open>What the third line leaves alone\<close>

text \<open>
  Everything but the JavaScript runtime, the output, the clock and the memory counters: the command's
  bytecode, the cache, the replacement, the socket up to its error flag. A replacement may be started.
\<close>

definition keeps :: "('j, 'v) listener \<Rightarrow> ('j, 'v) listener \<Rightarrow> bool" where
  "keeps l l' \<longleftrightarrow>
     l_repl l' = l_repl l \<and> l_sock l' \<in> {l_sock l, (l_sock l)\<lparr>stream_io_err := -1\<rparr>} \<and>
     w_cache (l_w l') = w_cache (l_w l) \<and> w_mem (l_w l') = w_mem (l_w l) \<and> g_interrupted_or_error (l_w l') = g_interrupted_or_error (l_w l) \<and>
     ts_line_n (l_ts l') = ts_line_n (l_ts l) \<and> ts_dangling_bytecode (l_ts l') = ts_dangling_bytecode (l_ts l) \<and>
     ts_cached_function_in_use (l_ts l') = ts_cached_function_in_use (l_ts l) \<and> ts_current_uuid (l_ts l') = ts_current_uuid (l_ts l) \<and>
     ts_current_uuid_len (l_ts l') = ts_current_uuid_len (l_ts l) \<and> ts_thread_index (l_ts l') = ts_thread_index (l_ts l) \<and>
     ts_exit_status (l_ts l') = ts_exit_status (l_ts l) \<and> (ts_rt (l_ts l) \<noteq> None \<longrightarrow> ts_rt (l_ts l') \<noteq> None) \<and>
     (ts_replacement_thread_state (l_ts l') = ts_replacement_thread_state (l_ts l) \<or>
      ts_replacement_thread_state (l_ts l) = REPLACEMENT_THREAD_STATE_NONE \<and>
      ts_replacement_thread_state (l_ts l') = REPLACEMENT_THREAD_STATE_INIT)"

lemma keeps_refl [simp]: "keeps l l"
  by (simp add: keeps_def)

lemma keeps_trans: "keeps l l1 \<Longrightarrow> keeps l1 l2 \<Longrightarrow> keeps l l2"
  unfolding keeps_def by auto

lemma writev_keeps: "writev_to_stream iov l = Some l' \<Longrightarrow> keeps l l'"
  using writev_to_stream_keeps [of iov l l'] by (auto simp: keeps_def)

lemma check_memory_keeps_command: "check_memory e cfg l = Some (r, l') \<Longrightarrow> keeps l l' \<and> r \<in> {-1, stream_io_err (l_sock l')}"
  by (auto simp: check_memory_def Let_def keeps_def split: option.splits if_splits)

lemma exception_reply_keeps: "exception_reply payload l = Some (r, l') \<Longrightarrow> keeps l l' \<and> r = stream_io_err (l_sock l')"
  by (auto simp: exception_reply_def bind_eq_Some_conv dest: writev_keeps)

lemma keeps_js:
  assumes "talks (l_w l) w'"
  shows "keeps l (l\<lparr>l_ts := (l_ts l)\<lparr>ts_last_js_execution_start := t\<rparr>, l_buf := buf, l_w := w'\<rparr>)"
  using talks_fields [OF assms] by (simp add: keeps_def)

lemma command_returned_keeps:
  assumes "command_returned e cfg start ret j l = Some (r, l')"
  shows "keeps l l' \<and> r \<in> {-1, stream_io_err (l_sock l')}"
proof (cases "ret = JS_EXCEPTION")
  case True
  obtain pieces j1 where p: "print_exception e j = (pieces, j1)" by fastforce
  from assms True p obtain bt ts1 j2 w1 l2 iov where
    bt: "get_backtrace e cfg (error_text pieces) BACKTRACE_JSON (l_ts l) j1 (l_w l) = Some (bt, ts1, j2, w1)"
    and wr: "writev_to_stream iov (l\<lparr>l_w := w1, l_ts := ts1\<lparr>ts_rt := Some j2\<rparr>\<rparr>) = Some l2"
    and r: "r = stream_io_err (l_sock l2)" "l' = l2"
    by (auto simp: command_returned_def Let_def bind_eq_Some_conv)
  have "keeps l (l\<lparr>l_w := w1, l_ts := ts1\<lparr>ts_rt := Some j2\<rparr>\<rparr>)"
    using get_backtrace_keeps [OF bt] by (auto simp: keeps_def same_shared_def)
  with keeps_trans writev_keeps [OF wr] r show ?thesis by blast
next
  case False
  obtain v j1 where v: "JS_JSONStringify e ret JS_UNDEFINED JS_UNDEFINED j = (v, j1)" by fastforce
  have rt: "keeps l (l\<lparr>l_w := (l_w l)\<lparr>w_tick := k\<rparr>, l_ts := (l_ts l)\<lparr>ts_rt := Some j'\<rparr>\<rparr>)" "keeps l (l\<lparr>l_ts := (l_ts l)\<lparr>ts_rt := Some j'\<rparr>\<rparr>)"
    "keeps l (l\<lparr>l_w := (l_w l)\<lparr>w_tick := k\<rparr>, l_ts := (l_ts l)\<lparr>ts_last_command_exec_time_ns := n, ts_rt := Some j'\<rparr>\<rparr>)" for k j' n
    by (simp_all add: keeps_def)
  show ?thesis
  proof (cases "v = JS_EXCEPTION \<or> v = JS_UNDEFINED")
    case True
    then obtain payload where "exception_reply payload (l\<lparr>l_ts := (l_ts l)\<lparr>ts_rt := Some j1\<rparr>\<rparr>) = Some (r, l')"
      using assms False v by (auto simp: command_returned_def Let_def)
    from exception_reply_keeps [OF this] keeps_trans [OF rt(2)] show ?thesis by blast
  next
    case ok: False
    show ?thesis
    proof (cases "w_clock (l_w l) (w_tick (l_w l))")
      case None
      then show ?thesis using assms False v ok rt by (auto simp: command_returned_def Let_def)
    next
      case (Some now)
      obtain str j2 where str: "JS_ToCStringLen e v j1 = (Some str, j2)"
        using assms False v ok Some by (auto simp: command_returned_def Let_def split: option.splits prod.splits)
      obtain l2 iov where wr: "writev_to_stream iov (l\<lparr>l_w := (l_w l)\<lparr>w_tick := w_tick (l_w l) + 1\<rparr>,
          l_ts := (l_ts l)\<lparr>ts_last_command_exec_time_ns := ns_time_diff now start, ts_rt := Some j2\<rparr>\<rparr>) = Some l2"
        and mem: "check_memory e cfg l2 = Some (r, l')"
        using assms False v ok Some str by (auto simp: command_returned_def Let_def bind_eq_Some_conv)
      from check_memory_keeps_command [OF mem] keeps_trans [OF rt(3) keeps_trans [OF writev_keeps [OF wr]]] show ?thesis by blast
    qed
  qed
qed

lemma helper_keeps:
  assumes "handle_line_3_parameter_helper e cfg line l = Some (r, l')"
  shows "keeps l l' \<and> r \<in> {-1, stream_io_err (l_sock l')}"
proof (cases "ts_compiled_query (l_ts l) = JS_EXCEPTION")
  case True
  then show ?thesis using assms by (auto simp: handle_line_3_parameter_helper_def dest!: exception_reply_keeps)
next
  case False
  show ?thesis
  proof (cases "w_clock (l_w l) (w_tick (l_w l))")
    case None
    then show ?thesis using assms False by (auto simp: handle_line_3_parameter_helper_def keeps_def)
  next
    case (Some now)
    obtain j where j: "ts_rt (l_ts l) = Some j"
      using assms False Some by (auto simp: handle_line_3_parameter_helper_def Let_def split: option.splits)
    obtain arg j1 where p: "JS_ParseJSON e line j = (arg, j1)" by fastforce
    let ?ts = "(l_ts l)\<lparr>ts_last_js_execution_start := now\<rparr>" and ?w = "(l_w l)\<lparr>w_tick := w_tick (l_w l) + 1\<rparr>"
    show ?thesis
    proof (cases "arg = JS_EXCEPTION")
      case True
      then obtain payload where ex: "exception_reply payload (l\<lparr>l_ts := ?ts\<lparr>ts_rt := Some j1\<rparr>, l_w := ?w\<rparr>) = Some (r, l')"
        using assms False Some j p by (auto simp: handle_line_3_parameter_helper_def Let_def)
      have "keeps l (l\<lparr>l_ts := ?ts\<lparr>ts_rt := Some j1\<rparr>, l_w := ?w\<rparr>)" by (simp add: keeps_def)
      with exception_reply_keeps [OF ex] keeps_trans show ?thesis by blast
    next
      case ok: False
      then obtain ret j2 buf' w2 where
        run: "run_js e cfg ?ts (JS_Call e (ts_compiled_query (l_ts l)) [ts_compiled_module (l_ts l), arg] j1) (l_buf l) ?w
          = Some (ret, j2, buf', w2)"
        and ret: "command_returned e cfg now ret j2 (l\<lparr>l_ts := ?ts, l_buf := buf', l_w := w2\<rparr>) = Some (r, l')"
        using assms False Some j p by (auto simp: handle_line_3_parameter_helper_def Let_def bind_eq_Some_conv)
      have "talks (l_w l) w2" using talks_trans [OF talks_tick run_js_talks [OF run]] .
      from keeps_js [OF this] command_returned_keeps [OF ret] keeps_trans show ?thesis by blast
    qed
  qed
qed

section \<open>The second line\<close>

text \<open>The fields the second line does not touch.\<close>

definition same_but_query :: "('j, 'v) listener \<Rightarrow> ('j, 'v) listener \<Rightarrow> bool" where
  "same_but_query l l' \<longleftrightarrow>
     l_repl l' = l_repl l \<and> l_sock l' = l_sock l \<and> g_interrupted_or_error (l_w l') = g_interrupted_or_error (l_w l) \<and>
     ts_line_n (l_ts l') = ts_line_n (l_ts l) + 1 \<and> ts_current_uuid (l_ts l') = ts_current_uuid (l_ts l) \<and>
     ts_current_uuid_len (l_ts l') = ts_current_uuid_len (l_ts l) \<and> ts_thread_index (l_ts l') = ts_thread_index (l_ts l) \<and>
     ts_exit_status (l_ts l') = ts_exit_status (l_ts l) \<and> ts_rt (l_ts l') \<noteq> None \<and>
     ts_replacement_thread_state (l_ts l') = ts_replacement_thread_state (l_ts l)"

lemma query_done_same:
  "talks w w' \<Longrightarrow> g_interrupted_or_error w = g_interrupted_or_error (l_w l) \<Longrightarrow>
   same_but_query l (snd (query_done l ((l_ts l)\<lparr>ts_cached_function_in_use := u, ts_dangling_bytecode := d\<rparr>) (q, j, buf, w')))"
  "talks w w' \<Longrightarrow> g_interrupted_or_error w = g_interrupted_or_error (l_w l) \<Longrightarrow>
   same_but_query l (snd (query_done l (l_ts l) (q, j, buf, w')))"
  using talks_fields [of w w'] by (simp_all add: query_done_def same_but_query_def)

text \<open>The query is what evaluating the bytecode gave.\<close>

definition evaluates :: "('j, 'v) engine \<Rightarrow> config \<Rightarrow> byte list \<Rightarrow> char list \<Rightarrow> 'v js \<Rightarrow> bool" where
  "evaluates e cfg bc buf q \<longleftrightarrow> (\<exists>ts j w j' buf' w'. func_from_bytecode e cfg ts bc j buf w = Some (q, j', buf', w'))"

lemma line_2_cases:
  assumes "handle_line_2_query e cfg line l = Some (r, l')"
  obtains (hit) b c1 bc where "r = 0" "same_but_query l l'"
      "get_cached_function (hash_bits cfg) (w_cache (l_w l)) (get_hash_cache_uid (xxh3 cfg) line) = (Some b, c1)"
      "w_cache (l_w l') = c1" "w_mem (l_w l') = w_mem (l_w l)"
      "ts_dangling_bytecode (l_ts l') = ts_dangling_bytecode (l_ts l)"
      "ts_cached_function_in_use (l_ts l') = ts_cached_function_in_use (l_ts l)"
      "read_bytecode ((l_w l)\<lparr>w_cache := c1\<rparr>) (bytecode (b_payload (fst c1 ! b))) (bytecode_size (b_payload (fst c1 ! b))) = Some bc"
      "evaluates e cfg bc (l_buf l) (ts_compiled_query (l_ts l'))"
  | (bad) c1 j j1 where "r = 0" "same_but_query l l'"
      "get_cached_function (hash_bits cfg) (w_cache (l_w l)) (get_hash_cache_uid (xxh3 cfg) line) = (None, c1)"
      "w_cache (l_w l') = c1" "w_mem (l_w l') = w_mem (l_w l)"
      "ts_dangling_bytecode (l_ts l') = ts_dangling_bytecode (l_ts l)"
      "ts_cached_function_in_use (l_ts l') = ts_cached_function_in_use (l_ts l)"
      "compile_script e line j = (None, j1)" "ts_compiled_query (l_ts l') = JS_EXCEPTION"
  | (miss) bc c1 in_use c2 j j1 where "r = 0" "same_but_query l l'"
      "get_cached_function (hash_bits cfg) (w_cache (l_w l)) (get_hash_cache_uid (xxh3 cfg) line) = (None, c1)"
      "add_cached_function (hash_bits cfg) c1 (get_hash_cache_uid (xxh3 cfg) line)
         \<lparr>bytecode = Some (length (w_mem (l_w l))), bytecode_size = length bc\<rparr> = (in_use, c2)"
      "w_cache (l_w l') = c2" "w_mem (l_w l') = w_mem (l_w l) @ [bc]"
      "ts_dangling_bytecode (l_ts l') = (if in_use = None then Some (length (w_mem (l_w l))) else ts_dangling_bytecode (l_ts l))"
      "ts_cached_function_in_use (l_ts l') = in_use"
      "compile_script e line j = (Some bc, j1)" "evaluates e cfg bc (l_buf l) (ts_compiled_query (l_ts l'))"
proof -
  let ?uid = "get_hash_cache_uid (xxh3 cfg) line"
  obtain j where j: "ts_rt (l_ts l) = Some j"
    using assms by (auto simp: handle_line_2_query_def Let_def split: option.splits)
  obtain bo c1 where g: "get_cached_function (hash_bits cfg) (w_cache (l_w l)) ?uid = (bo, c1)" by (rule prod.exhaust)
  show thesis
  proof (cases bo)
    case (Some b)
    let ?w = "(l_w l)\<lparr>w_cache := c1\<rparr>"
    obtain bc q j2 buf w2 where f: "func_from_bytecode e cfg (l_ts l) bc j (l_buf l) ?w = Some (q, j2, buf, w2)"
      and rd: "read_bytecode ?w (bytecode (b_payload (fst c1 ! b))) (bytecode_size (b_payload (fst c1 ! b))) = Some bc"
      and d: "(r, l') = query_done l (l_ts l) (q, j2, buf, w2)"
      using assms j g Some by (auto simp: handle_line_2_query_def Let_def bind_eq_Some_conv)
    note t = func_from_bytecode_talks [OF f]
    from d have d': "r = 0" "l' = snd (query_done l (l_ts l) (q, j2, buf, w2))"
      by (auto simp: query_done_def)
    have ev: "evaluates e cfg bc (l_buf l) q" unfolding evaluates_def using f by (intro exI)
    show thesis
      by (rule hit [of b c1 bc])
        (use d' g Some rd ev talks_fields [OF t] query_done_same(2) [OF t] in \<open>auto simp: query_done_def\<close>)
  next
    case None
    obtain cs j1 where c: "compile_script e line j = (cs, j1)" by fastforce
    show thesis
    proof (cases cs)
      case no: None
      let ?w = "(l_w l)\<lparr>w_cache := c1\<rparr>"
      have d: "(r, l') = query_done l (l_ts l) (JS_EXCEPTION, j1, l_buf l, ?w)"
        using assms j g None c no by (simp add: handle_line_2_query_def compile_buf_def Let_def)
      then have d': "r = 0" "l' = snd (query_done l (l_ts l) (JS_EXCEPTION, j1, l_buf l, ?w))" by (auto simp: query_done_def)
      show thesis
        by (rule bad [of c1 j j1]) (use d' g None c no in \<open>auto simp: query_done_def same_but_query_def\<close>)
    next
      case (Some bc)
      obtain in_use c2 where a: "add_cached_function (hash_bits cfg) c1 ?uid
          \<lparr>bytecode = Some (length (w_mem (l_w l))), bytecode_size = length bc\<rparr> = (in_use, c2)" by (rule prod.exhaust)
      let ?d = "if in_use = None then Some (length (w_mem (l_w l))) else ts_dangling_bytecode (l_ts l)"
      let ?ts = "(l_ts l)\<lparr>ts_cached_function_in_use := in_use, ts_dangling_bytecode := ?d\<rparr>"
      let ?w = "(l_w l)\<lparr>w_mem := w_mem (l_w l) @ [bc], w_cache := c2\<rparr>"
      obtain q j2 buf w2 where f: "func_from_bytecode e cfg ?ts bc j1 (l_buf l) ?w = Some (q, j2, buf, w2)"
        and d: "(r, l') = query_done l ?ts (q, j2, buf, w2)"
        using assms j g None c Some a
        by (auto simp: handle_line_2_query_def compile_buf_def Let_def bind_eq_Some_conv read_bytecode_def nth_append split: if_splits)
      have ev: "evaluates e cfg bc (l_buf l) q" unfolding evaluates_def using f by (intro exI)
      note t = func_from_bytecode_talks [OF f]
      from d have d': "r = 0" "l' = snd (query_done l ?ts (q, j2, buf, w2))" by (auto simp: query_done_def)
      show thesis
        by (rule miss [of c1 bc in_use c2 j j1])
          (use d' g None a c Some ev talks_fields [OF t] in \<open>auto simp: query_done_def same_but_query_def\<close>)
    qed
  qed
qed

section \<open>The loop after a replacement\<close>

definition io_ok :: "('j, 'v) listener \<Rightarrow> bool" where
  "io_ok l \<longleftrightarrow> stream_io_err (l_sock l) = 0 \<or> stream_io_err (l_sock l) = -1"

definition armed :: "('j, 'v) listener option \<Rightarrow> bool" where
  "armed s \<longleftrightarrow> (\<exists>l. s = Some l \<and> ts_replacement_thread_state (l_ts l) = REPLACEMENT_THREAD_STATE_INIT_COMPLETE)"

lemma keeps_io: "keeps l l' \<Longrightarrow> io_ok l \<Longrightarrow> io_ok l'"
  by (auto simp: keeps_def io_ok_def)

lemma keeps_armed: "keeps l l' \<Longrightarrow> armed (Some l') \<Longrightarrow> armed (Some l)"
  by (auto simp: keeps_def armed_def)

lemma stream_write_io:
  "write_to_stream t l = Some l' \<Longrightarrow> io_ok l \<Longrightarrow> io_ok l'" "writev_to_stream iov l = Some l' \<Longrightarrow> io_ok l \<Longrightarrow> io_ok l'"
  by (auto simp: write_to_stream_def writev_to_stream_def stream_result_def io_ok_def split: if_splits)

lemma special_io:
  assumes "special_command e cfg line l = Some (Some (r, l'))" "io_ok l"
  shows "io_ok l' \<and> ts_replacement_thread_state (l_ts l') = ts_replacement_thread_state (l_ts l) \<and> r \<in> {0, EXIT_ON_QUIT_COMMAND}"
proof -
  have r: "r \<in> {0, EXIT_ON_QUIT_COMMAND}" using special_effect [OF assms(1)] by (auto split: if_splits)
  have w: ?thesis
    if "(\<exists>t. write_to_stream t m = Some l') \<or> (\<exists>iov. writev_to_stream iov m = Some l')" "l_sock m = l_sock l"
      "ts_replacement_thread_state (l_ts m) = ts_replacement_thread_state (l_ts l)" for m
  proof -
    have "io_ok m" using assms(2) that(2) by (simp add: io_ok_def)
    with that(1) stream_write_io [of _ m l'] have "io_ok l'" by blast
    moreover have "l_ts l' = l_ts m" using that(1) write_to_stream_keeps writev_to_stream_keeps by blast
    ultimately show ?thesis using that(3) r by simp
  qed
  consider (quit) "cstr line = ''?quit''" | (reset) "cstr line = ''?reset''" | (exectime) "cstr line = ''?exectime''"
    | (memusage) "cstr line = ''?memusage''" | (other) "cstr line \<notin> {''?quit'', ''?reset'', ''?exectime'', ''?memusage''}" by auto
  then show ?thesis
  proof cases
    case quit
    let ?m = "l\<lparr>l_ts := (l_ts l)\<lparr>ts_compiled_query := JS_UNDEFINED\<rparr>, l_w := (l_w l)\<lparr>g_interrupted_or_error := True\<rparr>\<rparr>"
    have "write_to_stream (''quit'' @ [NL]) ?m = Some l'"
      using quit assms(1) by (auto simp: special_command_def strcmp_eq_def Let_def)
    then show ?thesis by (intro w [of ?m]) auto
  next
    case reset
    obtain ts' w' where c: "cleanup_command_state (l_ts l) (l_w l) = (ts', w')" by fastforce
    let ?m = "l\<lparr>l_ts := ts'\<lparr>ts_line_n := 0, ts_truncated := False\<rparr>, l_w := w'\<rparr>"
    have "write_to_stream (''reset'' @ [NL]) ?m = Some l'"
      using reset assms(1) c by (auto simp: special_command_def strcmp_eq_def Let_def)
    then show ?thesis using cleanup_command_state_idle [OF c] by (intro w [of ?m]) auto
  next
    case exectime
    then show ?thesis using assms(1) by (intro w [of l]) (auto simp: special_command_def strcmp_eq_def Let_def)
  next
    case memusage
    then show ?thesis using assms(1)
      by (intro w [of l]) (auto simp: special_command_def strcmp_eq_def Let_def split: option.splits)
  next
    case other
    then obtain t m where "write_to_stream t m = Some l'" "l_sock m = l_sock l"
      "ts_replacement_thread_state (l_ts m) = ts_replacement_thread_state (l_ts l)"
      using assms(1)
      by (cases "debug cfg \<and> cstr line = ''?tsreset''")
        (auto simp: special_command_def strcmp_eq_def Let_def special_reply_def split: if_splits)
    with w [of m] show ?thesis by blast
  qed
qed

lemma line_1_cases:
  assumes "handle_line_1_message_uid line l = Some (r, l')"
  obtains (swap) repl where "r = TRAMPOLINE" "armed (Some l)" "l_repl l = Some repl"
      "l' = l\<lparr>l_ts := repl\<lparr>ts_replacement_thread_state := REPLACEMENT_THREAD_STATE_CLEANUP\<rparr>, l_repl := Some (l_ts l)\<rparr>"
  | (failed_create) repl where "r = -1" "l_repl l = Some repl"
      "l' = l\<lparr>l_repl := Some (l_ts l), l_ts := repl\<lparr>ts_replacement_thread_state := REPLACEMENT_THREAD_STATE_NONE\<rparr>\<rparr>"
  | (failed_join) "r = -1" "l' = l"
  | (failed_late_join) "r = -1" "l' = l\<lparr>l_ts := (l_ts l)\<lparr>ts_replacement_thread_state := REPLACEMENT_THREAD_STATE_NONE\<rparr>\<rparr>"
  | (joined) "r = 0" "ts_replacement_thread_state (l_ts l) = REPLACEMENT_THREAD_STATE_CLEANUP_COMPLETE"
      "l' = l\<lparr>l_ts := store_uuid line ((l_ts l)\<lparr>ts_replacement_thread_state := REPLACEMENT_THREAD_STATE_NONE\<rparr>)\<rparr>"
  | (plain) "r = 0" "ts_replacement_thread_state (l_ts l) \<notin>
        {REPLACEMENT_THREAD_STATE_INIT_COMPLETE, REPLACEMENT_THREAD_STATE_CLEANUP_COMPLETE}"
      "l' = l\<lparr>l_ts := store_uuid line (l_ts l)\<rparr>"
proof -
  note d = assms [unfolded handle_line_1_message_uid_def Let_def]
  consider (1) "ts_replacement_thread_state (l_ts l) = REPLACEMENT_THREAD_STATE_INIT_COMPLETE"
    | (2) "ts_replacement_thread_state (l_ts l) = REPLACEMENT_THREAD_STATE_CLEANUP_COMPLETE"
    | (3) "ts_replacement_thread_state (l_ts l) \<notin>
        {REPLACEMENT_THREAD_STATE_INIT_COMPLETE, REPLACEMENT_THREAD_STATE_CLEANUP_COMPLETE}" by blast
  then show thesis
  proof cases
    case 1
    show thesis
    proof (cases "w_pthread_join (l_w l) \<noteq> 0")
      case True
      with d 1 failed_join show thesis by simp
    next
      case False
      then obtain repl where "l_repl l = Some repl" using d 1 by (cases "l_repl l") simp_all
      note d' = d [unfolded this option.case]
      show thesis
      proof (cases "w_pthread_create (l_w l) \<noteq> 0")
        case True
        show thesis by (rule failed_create [OF _ \<open>l_repl l = Some repl\<close>]) (use d' 1 False True in auto)
      next
        case ok: False
        show thesis by (rule swap [OF _ _ \<open>l_repl l = Some repl\<close>]) (use d' 1 False ok in \<open>auto simp: armed_def\<close>)
      qed
    qed
  next
    case 2
    show thesis
    proof (cases "w_pthread_join (l_w l) \<noteq> 0")
      case True
      show thesis by (rule failed_late_join) (use d 2 True in simp_all)
    next
      case False
      show thesis by (rule joined) (use d 2 False in simp_all)
    qed
  next
    case 3
    with d plain show thesis by simp
  qed
qed

text \<open>The listener a line is handed to: time has passed and the line was noted.\<close>

definition noted :: "config \<Rightarrow> string \<Rightarrow> bool \<Rightarrow> timespec \<Rightarrow> ('j, 'v) listener \<Rightarrow> ('j, 'v) listener" where
  "noted cfg line truncated now l = l\<lparr>l_w := (l_w l)\<lparr>w_tick := w_tick (l_w l) + 1\<rparr>, l_ts := (l_ts l)\<lparr>ts_last_active_time := now,
     ts_truncated := (ts_truncated (l_ts l) \<or> truncated \<or> debug cfg \<and> strcmp_eq line ''?truncated'')\<rparr>\<rparr>"

lemma line_handler_cases:
  assumes "line_handler e cfg line truncated l = Some (r, l')"
  obtains (clock) "r = -1" "l' = l\<lparr>l_w := (l_w l)\<lparr>w_tick := w_tick (l_w l) + 1\<rparr>\<rparr>"
  | (cut) now where "line_truncated (noted cfg line True now l) = Some (r, l')"
  | (special) now where "special_command e cfg line (noted cfg line False now l) = Some (Some (r, l'))"
  | (line1) now where "ts_line_n (l_ts l) = 0" "handle_line_1_message_uid line (noted cfg line False now l) = Some (r, l')"
  | (line2) now where "ts_line_n (l_ts l) = 1" "handle_line_2_query e cfg line (noted cfg line False now l) = Some (r, l')"
  | (line3) now where "ts_line_n (l_ts l) = 2" "handle_line_3_parameter e cfg line (noted cfg line False now l) = Some (r, l')"
  | (bad) now where "ts_line_n (l_ts l) \<notin> {0, 1, 2}" "r = -1" "l' = noted cfg line False now l"
proof (cases "w_clock (l_w l) (w_tick (l_w l))")
  case None
  then show ?thesis using assms clock by (simp add: line_handler_def)
next
  case (Some now)
  define l1 where "l1 = noted cfg line truncated now l"
  have n: "ts_line_n (l_ts l1) = ts_line_n (l_ts l)" by (simp add: l1_def noted_def)
  have run: "(if truncated then line_truncated l1
      else case special_command e cfg line l1 of Some res \<Rightarrow> res
      | None \<Rightarrow> if ts_line_n (l_ts l) = 0 then handle_line_1_message_uid line l1
               else if ts_line_n (l_ts l) = 1 then handle_line_2_query e cfg line l1
               else if ts_line_n (l_ts l) = 2 then handle_line_3_parameter e cfg line l1
               else if debug cfg then None else Some (-1, l1)) = Some (r, l')"
    using assms unfolding n [symmetric] unfolding line_handler_def Let_def clock_gettime_def Some option.case prod.case l1_def noted_def .
  show ?thesis
  proof (cases truncated)
    case True
    then show ?thesis using run cut by (simp add: l1_def)
  next
    case False
    show ?thesis
    proof (cases "special_command e cfg line l1")
      case None
      then show ?thesis using run False line1 line2 line3 bad by (auto simp: l1_def split: if_splits)
    next
      case (Some res)
      then show ?thesis using run False special by (auto simp: l1_def)
    qed
  qed
qed

text \<open>
  Only the first line of a command asks for the loop, only when a replacement is ready, and then no
  replacement is ready any more; no handler makes one ready.
\<close>

lemma line_handler_trampoline:
  assumes "line_handler e cfg line truncated l = Some (r, l')" "io_ok l"
  shows "io_ok l' \<and> (armed (Some l') \<longrightarrow> armed (Some l)) \<and> (r = TRAMPOLINE \<longrightarrow> armed (Some l) \<and> \<not> armed (Some l'))"
proof -
  have n: "io_ok (noted cfg line t now l) = io_ok l" "armed (Some (noted cfg line t now l)) = armed (Some l)" for t now
    by (simp_all add: noted_def io_ok_def armed_def)
  have r: "r' \<noteq> TRAMPOLINE" if "r' \<in> {-1, 0, EXIT_ON_QUIT_COMMAND, stream_io_err (l_sock m)}" "io_ok m" for r' and m :: "('a, 'b) listener"
    using that by (auto simp: TRAMPOLINE_def EXIT_ON_QUIT_COMMAND_def io_ok_def)
  show ?thesis
    using assms(1)
  proof (cases rule: line_handler_cases)
    case clock
    then show ?thesis using assms(2) by (simp add: io_ok_def armed_def TRAMPOLINE_def)
  next
    case (cut now)
    show ?thesis
    proof (cases "ts_line_n (l_ts (noted cfg line True now l)) = 2")
      case True
      then obtain iov where w: "writev_to_stream iov ((noted cfg line True now l)\<lparr>l_ts := (l_ts (noted cfg line True now l))
          \<lparr>ts_truncated := False, ts_line_n := 0, ts_compiled_query := JS_UNDEFINED\<rparr>\<rparr>) = Some l'" "r = 0"
        using cut by (auto simp: line_truncated_def)
      have "io_ok l'" by (rule stream_write_io(2) [OF w(1)]) (use assms(2) in \<open>simp add: io_ok_def noted_def\<close>)
      then show ?thesis using w(2) writev_to_stream_keeps [OF w(1)] by (simp add: TRAMPOLINE_def armed_def noted_def)
    next
      case False
      then show ?thesis using cut assms(2) by (auto simp: line_truncated_def io_ok_def armed_def noted_def TRAMPOLINE_def)
    qed
  next
    case (special now)
    note s = special_io [OF this, unfolded n, OF assms(2)]
    then show ?thesis using r [of r l'] by (auto simp: armed_def noted_def)
  next
    case (line1 now)
    from line1(2) show ?thesis
      by (cases rule: line_1_cases)
        (use n [of False now] assms(2) in \<open>auto simp: armed_def io_ok_def TRAMPOLINE_def store_uuid_def Let_def\<close>)
  next
    case (line2 now)
    from line2(2) have "same_but_query (noted cfg line False now l) l' \<and> r = 0"
      by (cases rule: line_2_cases) auto
    then show ?thesis using assms(2) by (auto simp: same_but_query_def io_ok_def armed_def noted_def TRAMPOLINE_def)
  next
    case (line3 now)
    from line3(2) obtain l2 ts' w' where h: "handle_line_3_parameter_helper e cfg line (noted cfg line False now l) = Some (r, l2)"
      and c: "cleanup_command_state ((l_ts l2)\<lparr>ts_line_n := 0\<rparr>) (l_w l2) = (ts', w')" and l': "l' = l2\<lparr>l_ts := ts', l_w := w'\<rparr>"
      by (rule line_3_cases)
    note k = helper_keeps [OF h]
    from k have io: "io_ok l2" using keeps_io n assms(2) by blast
    have "armed (Some l2) \<longrightarrow> armed (Some l)" using k keeps_armed n by blast
    moreover have "armed (Some l') = armed (Some l2)" "io_ok l' = io_ok l2"
      using cleanup_command_state_idle [OF c] l' by (simp_all add: armed_def io_ok_def)
    ultimately show ?thesis using io k r [of r l2] by auto
  next
    case (bad now)
    then show ?thesis using n [of False now] assms(2) by (auto simp: TRAMPOLINE_def)
  qed
qed

definition io_good :: "('j, 'v) listener option \<Rightarrow> bool" where
  "io_good s \<longleftrightarrow> (\<forall>l. s = Some l \<longrightarrow> io_ok l)"

lemma wrapper_trampoline:
  assumes "command_loop_line_handler_wrapper e cfg s m off len t = (r, s', m')" "io_good s"
  shows "io_good s' \<and> (armed s' \<longrightarrow> armed s) \<and> (r = TRAMPOLINE \<longrightarrow> armed s \<and> \<not> armed s')"
proof (cases s)
  case None
  then show ?thesis using assms by (auto simp: command_loop_line_handler_wrapper_def io_good_def TRAMPOLINE_def)
next
  case (Some l)
  let ?l = "l\<lparr>l_buf := m\<rparr>" and ?line = "cells off (off + len) m"
  have io: "io_ok ?l" "armed (Some ?l) = armed s" using assms(2) Some by (auto simp: io_good_def io_ok_def armed_def)
  show ?thesis
  proof (cases "line_handler e cfg ?line t ?l")
    case None
    then show ?thesis using assms Some
      by (auto simp: command_loop_line_handler_wrapper_def io_good_def TRAMPOLINE_def armed_def)
  next
    case res: (Some res)
    obtain r0 l' where "res = (r0, l')" by (rule prod.exhaust)
    with line_handler_trampoline [of e cfg ?line t ?l r0 l'] io res assms Some show ?thesis
      by (auto simp: command_loop_line_handler_wrapper_def io_good_def)
  qed
qed

lemma replay_loop_trampoline:
  assumes "replay_loop b sep (command_loop_line_handler_wrapper e cfg) s i = (r, b', s')" "io_good s" "lb_afsep b \<le> i"
  shows "io_good s' \<and> (armed s' \<longrightarrow> armed s) \<and>
    (r = TRAMPOLINE \<longrightarrow> lb_n b = TRAMPOLINE \<or> armed s \<and> \<not> armed s' \<and> 0 \<le> lb_n b' \<and> lb_afsep b' \<le> lb_start b')"
  using assms
proof (induction b sep "command_loop_line_handler_wrapper e cfg" s i rule: replay_loop.induct)
  case (1 b sep s i)
  let ?h = "command_loop_line_handler_wrapper e cfg"
  note step = replay_loop.simps [of b sep ?h s i]
  show ?case
  proof (cases "int i < int (lb_start b) + lb_n b")
    case lt: True
    show ?thesis
    proof (cases "lb_buf b ! i = sep")
      case sep: True
      obtain r0 s0 m0 where h: "?h s ((lb_buf b)[i := NUL]) (lb_afsep b) (i - lb_afsep b) (lb_truncated b) = (r0, s0, m0)"
        by (rule prod_cases3)
      note hf = wrapper_trampoline [OF h "1.prems"(2)]
      show ?thesis
      proof (cases "r0 < 0")
        case True
        with "1.prems" step lt sep h hf show ?thesis by auto
      next
        case False
        let ?b = "b\<lparr>lb_buf := m0, lb_truncated := False, lb_afsep := i + 1\<rparr>"
        have "replay_loop ?b sep ?h s0 (i + 1) = (r, b', s')" using "1.prems"(1) step lt sep h False by simp
        from "1.hyps"(1) [OF lt sep h [symmetric] refl False this] hf show ?thesis by auto
      qed
    next
      case False
      then have "replay_loop b sep ?h s (i + 1) = (r, b', s')" using "1.prems"(1) step lt by simp
      from "1.hyps"(2) [OF lt False this] "1.prems"(2,3) show ?thesis by simp
    qed
  next
    case False
    then show ?thesis using "1.prems" step by auto
  qed
qed

lemma replay_while_ends:
  assumes "io_good s" "0 \<le> lb_n b" "lb_afsep b \<le> lb_start b" "\<not> armed s"
  shows "replay_while e cfg TRAMPOLINE b s = Some (line_buf_replay b (sep_char cfg) (command_loop_line_handler_wrapper e cfg) s) \<and>
    fst (line_buf_replay b (sep_char cfg) (command_loop_line_handler_wrapper e cfg) s) \<noteq> TRAMPOLINE"
proof -
  obtain r b' s' where run: "line_buf_replay b (sep_char cfg) (command_loop_line_handler_wrapper e cfg) s = (r, b', s')"
    by (rule prod_cases3)
  have "r \<noteq> TRAMPOLINE"
    using replay_loop_trampoline [OF run [unfolded line_buf_replay_def] assms(1,3)] assms(2,4) by (auto simp: TRAMPOLINE_def)
  with run show ?thesis by (simp add: replay_while.simps [of e cfg TRAMPOLINE] replay_while.simps [of e cfg r])
qed

lemma lb_read_answers: "lb_read script k \<noteq> None \<Longrightarrow>
    (\<exists>data rest. lb_read script n = Some (Read_bytes data, rest) \<and> length data \<le> n) \<or> (\<exists>rest. lb_read script n = Some (Read_error (-1), rest))"
  by (induction script k rule: lb_read.induct) (auto split: sum.splits if_splits)

text \<open>
  C12: The loop after the thread state was replaced ends. When a read has been answered and no
  other thread changes the listener meanwhile, the handlers ask for a replay only if a replacement was
  ready when the bytes came, and then the bytes are replayed exactly once: the loop returns what that
  replay returned, which does not ask again.
\<close>

theorem trampoline_ends:
  assumes "lb_ready (sep_char cfg) b" "io_ok l" "lb_read script 0 \<noteq> None"
    and "line_buf_read b (sep_char cfg) (\<lambda>n. fst (the (lb_read script n))) (command_loop_line_handler_wrapper e cfg) (Some l) = (r0, b1, s1)"
  shows "\<exists>r b2 s2. replay_while e cfg r0 b1 s1 = Some (r, b2, s2) \<and> r \<noteq> TRAMPOLINE \<and>
    (r0 = TRAMPOLINE \<longrightarrow> armed (Some l) \<and>
       line_buf_replay b1 (sep_char cfg) (command_loop_line_handler_wrapper e cfg) s1 = (r, b2, s2))"
proof (cases "r0 = TRAMPOLINE")
  case False
  then show ?thesis by (simp add: replay_while.simps [of e cfg r0])
next
  case True
  let ?h = "command_loop_line_handler_wrapper e cfg"
  let ?n = "if lb_size b - lb_start b = 0 then lb_size b else lb_size b - lb_start b"
  let ?b1 = "if lb_size b - lb_start b = 0 then b\<lparr>lb_start := 0, lb_afsep := 0, lb_truncated := True\<rparr> else b"
  note run = assms(4) [unfolded line_buf_read_def Let_def]
  obtain data rest where data: "lb_read script ?n = Some (Read_bytes data, rest)"
    using lb_read_answers [OF assms(3), of ?n] run True by (auto simp: TRAMPOLINE_def)
  let ?b2 = "?b1\<lparr>lb_buf := poke (lb_buf ?b1) (lb_start ?b1) data, lb_n := int (length data)\<rparr>"
  have "data \<noteq> []" using run True data by (auto simp: TRAMPOLINE_def LINE_BUF_READ_EOF_def)
  then have rep: "replay_loop ?b2 (sep_char cfg) ?h (Some l) (lb_start ?b2) = (r0, b1, s1)"
    using run data by (simp add: line_buf_replay_def)
  have af: "lb_afsep ?b2 \<le> lb_start ?b2" using assms(1) by (simp add: lb_ready_def)
  have good: "io_good (Some l)" using assms(2) by (simp add: io_good_def)
  have t: "io_good s1" "armed (Some l)" "\<not> armed s1" "0 \<le> lb_n b1" "lb_afsep b1 \<le> lb_start b1"
    using replay_loop_trampoline [OF rep good af] True by (auto simp: TRAMPOLINE_def)
  obtain r b2 s2 where r: "line_buf_replay b1 (sep_char cfg) ?h s1 = (r, b2, s2)" by (rule prod_cases3)
  from replay_while_ends [OF t(1,4,5,3), of e cfg] r t(2) True show ?thesis by simp
qed

definition demo_armed :: "(nat, string) listener" where
  "demo_armed = (demo_listener 0 JS_UNDEFINED)\<lparr>
     l_ts := (l_ts (demo_listener 0 JS_UNDEFINED))\<lparr>ts_replacement_thread_state := REPLACEMENT_THREAD_STATE_INIT_COMPLETE\<rparr>,
     l_repl := Some (l_ts (demo_listener 0 JS_UNDEFINED))\<rparr>"

definition demo_line_buf :: line_buf where
  "demo_line_buf = \<lparr>lb_buf = ''    '', lb_size = 4, lb_start = 0, lb_afsep = 0, lb_truncated = False, lb_n = 0\<rparr>"

lemma demo_trampoline:
  "fst (line_buf_read demo_line_buf NL (\<lambda>n. fst (the (lb_read [Inl (''u'' @ [NL])] n)))
     (command_loop_line_handler_wrapper demo_engine demo_config) (Some demo_armed)) = TRAMPOLINE"
  by (simp add: line_buf_read_def line_buf_replay_def replay_loop.simps demo_line_buf_def command_loop_line_handler_wrapper_def
      line_handler_def special_command_def strcmp_eq_def handle_line_1_message_uid_def demo_armed_def demo_listener_def demo_sender_def
      demo_world_def zeroed_ThreadState_def poke_def cells_def TRAMPOLINE_def)

theorem trampoline_ends_witness:
  "\<exists>b1 s1 r b2 s2. line_buf_read demo_line_buf NL (\<lambda>n. fst (the (lb_read [Inl (''u'' @ [NL])] n)))
       (command_loop_line_handler_wrapper demo_engine demo_config) (Some demo_armed) = (TRAMPOLINE, b1, s1) \<and>
     replay_while demo_engine demo_config TRAMPOLINE b1 s1 = Some (r, b2, s2) \<and> r \<noteq> TRAMPOLINE"
proof -
  have "char_of (10 :: nat) = NL" by code_simp
  then have sep: "sep_char demo_config = NL" by (simp add: demo_config_def zeroed_args_def)
  obtain b1 s1 where run: "line_buf_read demo_line_buf (sep_char demo_config) (\<lambda>n. fst (the (lb_read [Inl (''u'' @ [NL])] n)))
       (command_loop_line_handler_wrapper demo_engine demo_config) (Some demo_armed) = (TRAMPOLINE, b1, s1)"
    using demo_trampoline unfolding sep by (metis prod.exhaust_sel)
  have h: "lb_ready (sep_char demo_config) demo_line_buf" "io_ok demo_armed" "lb_read [Inl (''u'' @ [NL])] 0 \<noteq> None"
    by (simp_all add: lb_ready_def lb_pending_def demo_line_buf_def io_ok_def demo_armed_def demo_listener_def init_socket_state_def)
  from trampoline_ends [OF h run] run show ?thesis unfolding sep by blast
qed

end
