(* ===== verification/Server_Stream.thy ===== *)
theory Server_Stream
  imports Server_Correct
begin

text \<open>
  The command handler under the line reader. While a command waits for the answer to a message, the answer
  is read into the buffer the line reader scans, so the two are independent only when no script sends
  messages. Then the handler is a client of the reader, and what the server does depends on the lines
  it was sent and not on the reads that brought them.
\<close>

section \<open>Handlers and the buffer\<close>

definition rebuf :: "char list \<Rightarrow> ('j, 'v) listener \<Rightarrow> ('j, 'v) listener" where
  "rebuf m l = l\<lparr>l_buf := m\<rparr>"

lemma rebuf_simps [simp]:
  "l_ts (rebuf m l) = l_ts l" "l_repl (rebuf m l) = l_repl l" "l_sock (rebuf m l) = l_sock l" "l_buf (rebuf m l) = m"
  "l_w (rebuf m l) = l_w l" "rebuf m (rebuf n l) = rebuf m l"
  by (simp_all add: rebuf_def)

lemma rebuf_updates [simp]:
  "l_ts_update f (rebuf m l) = rebuf m (l_ts_update f l)" "l_repl_update g (rebuf m l) = rebuf m (l_repl_update g l)"
  "l_sock_update h (rebuf m l) = rebuf m (l_sock_update h l)" "l_w_update k (rebuf m l) = rebuf m (l_w_update k l)"
  "l_buf_update b (rebuf m l) = rebuf (b m) l" "rebuf m (l_buf_update b l) = rebuf m l"
  by (simp_all add: rebuf_def)

text \<open>A handler that neither reads nor writes the buffer.\<close>

definition buf_free :: "(('j, 'v) listener \<Rightarrow> (int \<times> ('j, 'v) listener) option) \<Rightarrow> bool" where
  "buf_free f \<longleftrightarrow> (\<forall>m l. f (rebuf m l) = map_option (apsnd (rebuf m)) (f l))"

lemma stream_result_rebuf: "stream_result res (rebuf m l) = rebuf m (stream_result res l)"
  by (simp add: stream_result_def split: prod.split)

lemma write_rebuf [simp]: "write_to_stream t (rebuf m l) = map_option (rebuf m) (write_to_stream t l)"
  by (simp add: write_to_stream_def stream_result_rebuf option.map_comp comp_def)

lemma writev_rebuf [simp]: "writev_to_stream iov (rebuf m l) = map_option (rebuf m) (writev_to_stream iov l)"
  by (simp add: writev_to_stream_def stream_result_rebuf option.map_comp comp_def)

lemma buf_free_exception_reply: "buf_free (exception_reply t)"
  by (auto simp: buf_free_def exception_reply_def split: Option.bind_split)

lemma buf_free_check_memory: "buf_free (check_memory e cfg)"
  by (auto simp: buf_free_def check_memory_def Let_def split: option.split)

lemmas buf_free_replies = buf_free_exception_reply [unfolded buf_free_def, rule_format]
  buf_free_check_memory [unfolded buf_free_def, rule_format]

lemma buf_free_command_returned: "buf_free (command_returned e cfg start ret j)"
  unfolding buf_free_def
proof (intro allI)
  fix m and l :: "('a, 'b) listener"
  show "command_returned e cfg start ret j (rebuf m l) = map_option (apsnd (rebuf m)) (command_returned e cfg start ret j l)"
  proof (cases "ret = JS_EXCEPTION")
    case True
    obtain pieces j1 where "print_exception e j = (pieces, j1)" by fastforce
    with True show ?thesis by (auto simp: command_returned_def split: Option.bind_split)
  next
    case False
    obtain str j1 where s: "JS_JSONStringify e ret JS_UNDEFINED JS_UNDEFINED j = (str, j1)" by fastforce
    obtain now w1 where c: "clock_gettime (l_w l) = (now, w1)" by fastforce
    obtain txt0 j2 where t: "JS_ToCStringLen e str j1 = (txt0, j2)" by fastforce
    show ?thesis
      using False s c t
      by (cases now; cases txt0; cases str)
        (simp_all add: command_returned_def Let_def buf_free_replies split: Option.bind_split)
  qed
qed

lemma buf_free_line_truncated: "buf_free line_truncated"
  by (auto simp: buf_free_def line_truncated_def option.map_comp comp_def)

lemma buf_free_line_1: "buf_free (handle_line_1_message_uid line)"
  by (auto simp: buf_free_def handle_line_1_message_uid_def Let_def split: option.split)

lemma special_rebuf:
  "special_command e cfg line (rebuf m l) = map_option (map_option (apsnd (rebuf m))) (special_command e cfg line l)"
  by (simp add: special_command_def Let_def option.map_comp comp_def split: option.split prod.split)

section \<open>Scripts that send no messages\<close>

primrec silent :: "('j, 'v) js_run \<Rightarrow> bool" where
  "silent (Js_done v j) = True"
| "silent (Js_send argv j k) = False"

definition quiet :: "('j, 'v) engine \<Rightarrow> bool" where
  "quiet e \<longleftrightarrow> (\<forall>f args j. silent (JS_Call e f args j)) \<and> (\<forall>v j. silent (eval_function e v j))"

locale quiet_engine =
  fixes e :: "('j, 'v) engine" and cfg :: config
  assumes quiet: "quiet e"
begin

lemma run_silent: "silent run \<Longrightarrow> run_js e cfg ts run m w = map_option (\<lambda>(v, j, b, w). (v, j, m, w)) (run_js e cfg ts run m' w)"
  by (cases run) simp_all

lemma func_from_bytecode_buf:
  "func_from_bytecode e cfg ts bc j m w = map_option (\<lambda>(v, j, b, w). (v, j, m, w)) (func_from_bytecode e cfg ts bc j m' w)"
proof -
  obtain v j1 where r: "JS_ReadObject e bc j = (v, j1)" by fastforce
  have "silent (eval_function e v j1)" using quiet by (simp add: quiet_def)
  then obtain u j2 where u: "eval_function e v j1 = Js_done u j2" by (cases "eval_function e v j1") auto
  obtain p j3 where "JS_GetPropertyStr e u ''value'' j2 = (p, j3)" by fastforce
  with r u show ?thesis by (simp add: func_from_bytecode_def)
qed

lemma buf_free_line_2: "buf_free (handle_line_2_query e cfg line)"
  unfolding buf_free_def
proof (intro allI)
  fix m and l :: "('j, 'v) listener"
  show "handle_line_2_query e cfg line (rebuf m l) = map_option (apsnd (rebuf m)) (handle_line_2_query e cfg line l)"
    unfolding handle_line_2_query_def Let_def rebuf_simps func_from_bytecode_buf [where m = m and m' = "l_buf l"]
    by (auto simp: query_done_def rebuf_def split: option.split prod.split Option.bind_split)
qed

lemma buf_free_helper: "buf_free (handle_line_3_parameter_helper e cfg line)"
  unfolding buf_free_def
proof (intro allI)
  fix m and l :: "('j, 'v) listener"
  let ?now = "w_clock (l_w l) (w_tick (l_w l))"
  note returned = buf_free_command_returned [unfolded buf_free_def, rule_format]
  show "handle_line_3_parameter_helper e cfg line (rebuf m l) =
      map_option (apsnd (rebuf m)) (handle_line_3_parameter_helper e cfg line l)"
  proof (cases "ts_compiled_query (l_ts l) = JS_EXCEPTION \<or> ?now = None \<or> ts_rt (l_ts l) = None")
    case True
    then show ?thesis by (auto simp: handle_line_3_parameter_helper_def buf_free_replies split: option.split)
  next
    case False
    then obtain t j where t: "?now = Some t" "ts_rt (l_ts l) = Some j" by auto
    obtain arg j1 where a: "JS_ParseJSON e line j = (arg, j1)" by fastforce
    have "silent (JS_Call e (ts_compiled_query (l_ts l)) [ts_compiled_module (l_ts l), arg] j1)"
      using quiet by (simp add: quiet_def)
    then obtain v j2 where v: "JS_Call e (ts_compiled_query (l_ts l)) [ts_compiled_module (l_ts l), arg] j1 = Js_done v j2"
      by (cases "JS_Call e (ts_compiled_query (l_ts l)) [ts_compiled_module (l_ts l), arg] j1") auto
    have "l\<lparr>l_ts := ts, l_buf := l_buf l, l_w := w\<rparr> = l\<lparr>l_ts := ts, l_w := w\<rparr>" for ts w by simp
    then show ?thesis
      using False t a v by (simp add: handle_line_3_parameter_helper_def Let_def buf_free_replies returned)
  qed
qed

lemma buf_free_line_3: "buf_free (handle_line_3_parameter e cfg line)"
  using buf_free_helper [of line]
  by (auto simp: buf_free_def handle_line_3_parameter_def split: Option.bind_split prod.split)

lemma buf_free_line_handler: "buf_free (line_handler e cfg line t)"
  using buf_free_line_truncated buf_free_line_1 [of line] buf_free_line_2 [of line] buf_free_line_3 [of line]
  by (auto simp: buf_free_def line_handler_def Let_def special_rebuf split: option.split prod.split)

end

section \<open>The handler as a client of the reader\<close>

text \<open>The handler without the buffer.\<close>

definition line_step :: "('j, 'v) engine \<Rightarrow> config \<Rightarrow> ('j, 'v) listener option \<Rightarrow> string \<Rightarrow> bool \<Rightarrow> int \<times> ('j, 'v) listener option" where
  "line_step e cfg s line t =
     (case s of
        None \<Rightarrow> (-1, None)
      | Some l \<Rightarrow> (case line_handler e cfg line t l of None \<Rightarrow> (-1, None) | Some (r, l') \<Rightarrow> (r, Some (rebuf [] l'))))"

definition stream_handler :: "('j, 'v) engine \<Rightarrow> config \<Rightarrow> ('j, 'v) listener option line_handler" where
  "stream_handler e cfg s m off len t = (case line_step e cfg s (cells off (off + len) m) t of (r, s') \<Rightarrow> (r, s', m))"

interpretation stream: line_client "stream_handler e cfg" "line_step e cfg" for e cfg
  by unfold_locales (simp add: stream_handler_def)

sublocale quiet_engine \<subseteq> unbuffered: handler_view "command_loop_line_handler_wrapper e cfg" "stream_handler e cfg" "map_option (rebuf [])"
proof
  fix s :: "('j, 'v) listener option" and m off len t r s' m'
  assume h: "command_loop_line_handler_wrapper e cfg s m off len t = (r, s', m')"
  show "stream_handler e cfg (map_option (rebuf []) s) m off len t = (r, map_option (rebuf []) s', m')"
  proof (cases s)
    case None
    with h show ?thesis by (auto simp: stream_handler_def line_step_def command_loop_line_handler_wrapper_def)
  next
    case (Some l)
    let ?line = "cells off (off + len) m"
    have "line_handler e cfg ?line t (l\<lparr>l_buf := m\<rparr>) = map_option (apsnd (rebuf m)) (line_handler e cfg ?line t (rebuf [] l))"
      using buf_free_line_handler [of ?line t, unfolded buf_free_def, rule_format, of m "rebuf [] l"] by (simp add: rebuf_def)
    with h Some show ?thesis
      by (auto simp: stream_handler_def line_step_def command_loop_line_handler_wrapper_def split: option.splits)
  qed
qed

text \<open>The reference: the handler called on line after line.\<close>

primrec serve_lines :: "('j, 'v) engine \<Rightarrow> config \<Rightarrow> string list \<Rightarrow> ('j, 'v) listener \<Rightarrow> ('j, 'v) listener option" where
  "serve_lines e cfg [] l = Some l"
| "serve_lines e cfg (line # lines) l = do { (r, l') \<leftarrow> line_handler e cfg line False l; serve_lines e cfg lines l' }"

lemma deliver_none: "deliver_all (line_step e cfg) None calls = None"
  by (induction calls) (auto simp: deliver_all_def line_step_def)

context quiet_engine
begin

lemma deliver_serve:
  "deliver_all (line_step e cfg) (Some (rebuf [] l)) (map (\<lambda>l. (l, False)) lines) = map_option (rebuf []) (serve_lines e cfg lines l)"
proof (induction lines arbitrary: l)
  case (Cons line lines)
  have h: "line_handler e cfg line False (rebuf [] l) = map_option (apsnd (rebuf [])) (line_handler e cfg line False l)"
    using buf_free_line_handler by (simp add: buf_free_def)
  show ?case
  proof (cases "line_handler e cfg line False l")
    case None
    then show ?thesis using h deliver_none [of e cfg] by (simp add: deliver_all_def line_step_def)
  next
    case (Some p)
    then show ?thesis using h Cons.IH [of "snd p"] by (simp add: deliver_all_def line_step_def case_prod_beta)
  qed
qed (simp add: deliver_all_def)

lemma serves_stream:
  assumes "feeds (sep_char cfg) (command_loop_line_handler_wrapper e cfg) (fresh_line_buf m) (Some l) xs b s'"
    and "m \<noteq> []" "lines_fit (length m) (sep_char cfg) xs"
  shows "\<exists>l' l''. s' = Some l' \<and> serve_lines e cfg (fst (split_lines (sep_char cfg) [] xs)) l = Some l'' \<and>
    l' = l''\<lparr>l_buf := l_buf l'\<rparr> \<and> lb_pending b = snd (split_lines (sep_char cfg) [] xs) \<and> \<not> lb_truncated b"
proof -
  have "s' \<noteq> None"
    by (rule feeds_keeps [OF assms(1), where P = "\<lambda>s. s \<noteq> None"])
      (auto simp: command_loop_line_handler_wrapper_def split: option.splits prod.splits)
  then obtain l' where l': "s' = Some l'" by blast
  note fed = stream.feeds_untruncated [OF unbuffered.feeds_view [OF assms(1)]]
  note fresh = fresh_line_buf_ready(1) [OF assms(2)] fresh_line_buf_ready(2-4)
  have "map_option (rebuf []) s' = map_option (rebuf []) (serve_lines e cfg (fst (split_lines (sep_char cfg) [] xs)) l)"
    using fed fresh assms(3) deliver_serve by simp
  then obtain l'' where l'': "serve_lines e cfg (fst (split_lines (sep_char cfg) [] xs)) l = Some l''" "rebuf [] l' = rebuf [] l''"
    using l' by (auto simp: map_option_case split: option.splits)
  from arg_cong [OF l''(2), of "rebuf (l_buf l')"] have "l' = rebuf (l_buf l') l''" by (simp add: rebuf_def)
  then show ?thesis using l' l''(1) fed fresh assms(3) by (simp add: rebuf_def)
qed

end

section \<open>Properties\<close>

text \<open>
  C5: The server does not see the reads. When no script sends messages and every line is shorter than the
  input buffer, then however the reads cut the stream, as long as no handler stops the listener, the
  listener is in the state that calling \<open>line_handler\<close> on the lines of the stream one by one gives, up to
  the contents of the input buffer, so it has written the same output; the buffer keeps exactly
  the unfinished line.
\<close>

theorem server_chunk_independent:
  assumes "quiet e" and "m \<noteq> []"
    and "feeds (sep_char cfg) (command_loop_line_handler_wrapper e cfg) (fresh_line_buf m) (Some l) xs b s'"
    and "lines_fit (length m) (sep_char cfg) xs"
  shows "\<exists>l' l''. s' = Some l' \<and> serve_lines e cfg (fst (split_lines (sep_char cfg) [] xs)) l = Some l'' \<and>
    l' = l''\<lparr>l_buf := l_buf l'\<rparr> \<and> lb_pending b = snd (split_lines (sep_char cfg) [] xs) \<and> \<not> lb_truncated b"
  by (rule quiet_engine.serves_stream [OF quiet_engine.intro [OF assms(1)] assms(3,2,4)])

definition quiet_demo :: "(nat, string) engine" where
  "quiet_demo = demo_engine\<lparr>JS_Call := (\<lambda>f args j. Js_done (args ! 1) j)\<rparr>"

interpretation demo: quiet_engine quiet_demo demo_config
  by unfold_locales (simp add: quiet_def quiet_demo_def demo_engine_def)

lemma sep_char_demo: "sep_char demo_config = NL"
proof -
  have "char_of (10 :: nat) = NL" by code_simp
  then show ?thesis by (simp add: demo_config_def zeroed_args_def)
qed

lemma quiet_reply:
  "\<exists>l'. line_handler quiet_demo demo_config ''7'' False ((demo_listener 2 (Js ''f''))\<lparr>l_buf := m\<rparr>) = Some (0, l') \<and>
     w_sent (l_w l') = ''u ok 7'' @ [NL] \<and> l_buf l' = m"
proof -
  have w: "writev_all (replicate 20 (1000, False)) [''u'', '' ok '', ''7'', [NL]] '''' = Some (0, replicate 19 (1000, False), ''u ok 7'' @ [NL])"
    by code_simp
  show ?thesis
    by (simp add: line_handler_def special_command_def strcmp_eq_def handle_line_3_parameter_def handle_line_3_parameter_helper_def
        command_returned_def writev_to_stream_def stream_result_def check_memory_def manual_reset_def cleanup_command_state_def
        free_bytecode_def MEMORY_CHECK_INTERVAL_def demo_listener_def demo_sender_def zeroed_ThreadState_def demo_config_def zeroed_args_def
        demo_engine_def quiet_demo_def demo_world_def init_socket_state_def uuid_text_def w)
qed

text \<open>A parameter line and its separator that arrive in two reads.\<close>

lemma quiet_feeds:
  "\<exists>b l'. feeds (sep_char demo_config) (command_loop_line_handler_wrapper quiet_demo demo_config) (fresh_line_buf (replicate 4 NUL))
       (Some (demo_listener 2 (Js ''f''))) (''7'' @ [NL]) b (Some l') \<and> w_sent (l_w l') = ''u ok 7'' @ [NL]"
proof -
  let ?h = "command_loop_line_handler_wrapper quiet_demo demo_config" and ?l = "demo_listener 2 (Js ''f'')"
  define b1 where "b1 = \<lparr>lb_buf = [CHR ''7'', NUL, NUL, NUL], lb_size = 4, lb_start = 1, lb_afsep = 0, lb_truncated = False, lb_n = 1\<rparr>"
  obtain l' where l': "line_handler quiet_demo demo_config ''7'' False (?l\<lparr>l_buf := [CHR ''7'', NUL, NUL, NUL]\<rparr>) = Some (0, l')"
    "w_sent (l_w l') = ''u ok 7'' @ [NL]" "l_buf l' = [CHR ''7'', NUL, NUL, NUL]" using quiet_reply by blast
  have 1: "line_buf_read (fresh_line_buf (replicate 4 NUL)) NL (\<lambda>_. Read_bytes ''7'') ?h (Some ?l) = (1, b1, Some ?l)"
    by (simp add: line_buf_read_def line_buf_replay_def replay_loop.simps fresh_line_buf_def b1_def poke_def cells_def numeral_eq_Suc)
  have 2: "\<exists>b2. line_buf_read b1 NL (\<lambda>_. Read_bytes [NL]) ?h (Some ?l) = (1, b2, Some l')"
    using l' by (simp add: line_buf_read_def line_buf_replay_def replay_loop.simps b1_def poke_def cells_def command_loop_line_handler_wrapper_def)
  then obtain b2 where b2: "line_buf_read b1 NL (\<lambda>_. Read_bytes [NL]) ?h (Some ?l) = (1, b2, Some l')" by blast
  have "feeds NL ?h (fresh_line_buf (replicate 4 NUL)) (Some ?l) ([] @ ''7'') b1 (Some ?l)"
    by (rule feeds_read [OF feeds_start _ _ 1]) (simp_all add: fresh_line_buf_def room_of_def)
  from feeds_read [OF this _ _ b2] l'(2) show ?thesis unfolding sep_char_demo by (auto simp: room_of_def b1_def)
qed

theorem server_chunk_independent_witness:
  "\<exists>b l' l''. feeds (sep_char demo_config) (command_loop_line_handler_wrapper quiet_demo demo_config) (fresh_line_buf (replicate 4 NUL))
       (Some (demo_listener 2 (Js ''f''))) (''7'' @ [NL]) b (Some l') \<and>
     serve_lines quiet_demo demo_config [''7''] (demo_listener 2 (Js ''f'')) = Some l'' \<and> w_sent (l_w l'') = ''u ok 7'' @ [NL]"
proof -
  obtain b l' where f: "feeds (sep_char demo_config) (command_loop_line_handler_wrapper quiet_demo demo_config) (fresh_line_buf (replicate 4 NUL))
       (Some (demo_listener 2 (Js ''f''))) (''7'' @ [NL]) b (Some l')" and w: "w_sent (l_w l') = ''u ok 7'' @ [NL]"
    using quiet_feeds by blast
  have ne: "replicate 4 NUL \<noteq> []" by simp
  have fit: "lines_fit (length (replicate 4 NUL)) (sep_char demo_config) (''7'' @ [NL])"
    unfolding sep_char_demo by (simp add: lines_fit_def)
  obtain l'' where "serve_lines quiet_demo demo_config (fst (split_lines (sep_char demo_config) [] (''7'' @ [NL]))) (demo_listener 2 (Js ''f'')) = Some l''"
    and "l' = l''\<lparr>l_buf := l_buf l'\<rparr>"
    using server_chunk_independent [OF demo.quiet ne f fit] by blast
  moreover from this(2) have "l_w l'' = l_w l'" by (metis listener.select_convs(5) listener.update_convs(4) listener.cases_scheme)
  ultimately show ?thesis using f w unfolding sep_char_demo by (auto simp del: serve_lines.simps)
qed

text \<open>
  Why scripts must send no messages here: the line after the parameter of a command, here \<open>vv\<close>, is already in the
  buffer when the command runs, and the answer to its message is read over it, so that the reader goes on with
  the payload of the answer as the next line.
\<close>

lemma answer_overwrites_next_line:
  "map_option (\<lambda>(r, v, buf, j, w). (r, cells 2 5 buf))
     (send_message demo_engine demo_config demo_sender ''hi'' (''7'' @ [NUL] @ ''vv'' @ [NL] @ replicate 11 NUL) 0
       (demo_dialogue (answers [''u'' @ [NL] @ ''{}'' @ [NL]]))) = Some (0, ''{}'' @ [NL])"
  by (simp add: demo_run demo_wr cells_def)

end
