(* ===== verification/Server_Safety.thy ===== *)
theory Server_Safety
  imports Server_Correct "HOL-Library.Multiset"
begin

text \<open>
  The invariant of a listener that shares the bytecode cache with others: the bytecode of the cache and of
  its thread states is allocated, nobody owns a block twice and none is freed twice, the entries hold
  what compiling a script with their key gave. Every step of the listener keeps it: a line, a tick, a
  background thread, waking up, and what the system does meanwhile; so does the whole loop.
\<close>

section \<open>Ownership\<close>

text \<open>The bytecode comes from compiling a script that has this key.\<close>

definition made :: "('j, 'v) engine \<Rightarrow> config \<Rightarrow> u128 \<Rightarrow> byte list \<Rightarrow> bool" where
  "made e cfg k bc \<longleftrightarrow> (\<exists>s j j'. get_hash_cache_uid (xxh3 cfg) s = k \<and> compile_script e s j = (Some bc, j'))"

abbreviation entries :: "config \<Rightarrow> world \<Rightarrow> nat \<Rightarrow> (u128 \<times> CachedFunction) option" where
  "entries cfg w \<equiv> fc_entry (hash_bits cfg) (w_cache w)"

definition entry_ok :: "('j, 'v) engine \<Rightarrow> config \<Rightarrow> world \<Rightarrow> u128 \<Rightarrow> CachedFunction \<Rightarrow> bool" where
  "entry_ok e cfg w k v \<longleftrightarrow>
     (\<exists>a. bytecode v = Some a \<and> a < length (w_mem w) \<and> bytecode_size v = length (w_mem w ! a) \<and> made e cfg k (w_mem w ! a))"

definition cache_inv :: "('j, 'v) engine \<Rightarrow> config \<Rightarrow> world \<Rightarrow> bool" where
  "cache_inv e cfg w \<longleftrightarrow> quiescent (hash_bits cfg) (fst (w_cache w)) \<and> fc_clean (hash_bits cfg) (w_cache w) \<and>
     (\<forall>j k v. entries cfg w j = Some (k, v) \<longrightarrow> entry_ok e cfg w k v)"

text \<open>The blocks that were freed, those of the cache, and those a thread state has to free.\<close>

definition blocks :: "config \<Rightarrow> world \<Rightarrow> nat option multiset" where
  "blocks cfg w = mset (snd (w_cache w)) + live bytecode (entries cfg w)"

definition dang :: "('j, 'v) ThreadState \<Rightarrow> nat option multiset" where
  "dang ts = (case ts_dangling_bytecode ts of None \<Rightarrow> {#} | Some a \<Rightarrow> {#Some a#})"

text \<open>
  Other listeners share the cache: \<open>fr\<close> holds the blocks their thread states have to free and the buckets
  they refer to.
\<close>

type_synonym others = "nat option multiset \<times> nat set"

definition owned :: "config \<Rightarrow> others \<Rightarrow> ('j, 'v) listener \<Rightarrow> nat option multiset" where
  "owned cfg fr l = fst fr + blocks cfg (l_w l) + dang (l_ts l) + (case l_repl l of None \<Rightarrow> {#} | Some t \<Rightarrow> dang t)"

definition allocated :: "world \<Rightarrow> nat option multiset" where
  "allocated w = mset (map Some [0 ..< length (w_mem w)])"

definition ts_inv :: "config \<Rightarrow> world \<Rightarrow> ('j, 'v) ThreadState \<Rightarrow> bool" where
  "ts_inv cfg w ts \<longleftrightarrow> ts_line_n ts \<in> {0, 1, 2} \<and> length (ts_current_uuid ts) = MESSAGE_UUID_MAX_BYTES + 1 \<and>
     ts_current_uuid_len ts \<le> MESSAGE_UUID_MAX_BYTES \<and>
     (\<forall>b. ts_cached_function_in_use ts = Some b \<longrightarrow> entries cfg w b \<noteq> None)"

definition pinned :: "config \<Rightarrow> world \<Rightarrow> nat set \<Rightarrow> bool" where
  "pinned cfg w B \<longleftrightarrow> (\<forall>b \<in> B. entries cfg w b \<noteq> None)"

definition l_inv :: "('j, 'v) engine \<Rightarrow> config \<Rightarrow> others \<Rightarrow> ('j, 'v) listener \<Rightarrow> bool" where
  "l_inv e cfg fr l \<longleftrightarrow> cache_inv e cfg (l_w l) \<and> owned cfg fr l \<subseteq># allocated (l_w l) \<and>
     pinned cfg (l_w l) (snd fr) \<and> ts_inv cfg (l_w l) (l_ts l) \<and>
     (\<forall>t. l_repl l = Some t \<longrightarrow> ts_inv cfg (l_w l) t) \<and>
     (ts_replacement_thread_state (l_ts l) \<in> {REPLACEMENT_THREAD_STATE_INIT_COMPLETE, REPLACEMENT_THREAD_STATE_CLEANUP} \<longrightarrow>
        l_repl l \<noteq> None)"

text \<open>Only the cache and the memory of the world matter.\<close>

lemma same_world:
  assumes "w_cache w' = w_cache w" "w_mem w' = w_mem w"
  shows "cache_inv e cfg w' = cache_inv e cfg w" "blocks cfg w' = blocks cfg w" "allocated w' = allocated w"
    "ts_inv cfg w' ts = ts_inv cfg w ts" "pinned cfg w' B = pinned cfg w B"
  using assms by (simp_all add: cache_inv_def entry_ok_def blocks_def allocated_def ts_inv_def pinned_def)

lemma l_inv_keep:
  assumes "l_inv e cfg fr l" "w_cache (l_w l') = w_cache (l_w l)" "w_mem (l_w l') = w_mem (l_w l)" "l_repl l' = l_repl l"
    and "ts_dangling_bytecode (l_ts l') = ts_dangling_bytecode (l_ts l)"
    and "ts_cached_function_in_use (l_ts l') = ts_cached_function_in_use (l_ts l)"
    and "length (ts_current_uuid (l_ts l')) = length (ts_current_uuid (l_ts l))"
    and "ts_current_uuid_len (l_ts l') \<le> MESSAGE_UUID_MAX_BYTES" "ts_line_n (l_ts l') \<in> {0, 1, 2}"
    and "ts_replacement_thread_state (l_ts l') = ts_replacement_thread_state (l_ts l) \<or>
      ts_replacement_thread_state (l_ts l') \<notin> {REPLACEMENT_THREAD_STATE_INIT_COMPLETE, REPLACEMENT_THREAD_STATE_CLEANUP}"
  shows "l_inv e cfg fr l'"
proof -
  have d: "dang (l_ts l') = dang (l_ts l)" using assms(5) by (simp add: dang_def)
  have t: "ts_inv cfg (l_w l') (l_ts l')"
    using assms(1,2,6-9) unfolding l_inv_def ts_inv_def by simp
  have o: "owned cfg fr l' = owned cfg fr l" using same_world [OF assms(2,3)] d assms(4) by (simp add: owned_def)
  show ?thesis using assms(1,4,10) t o by (auto simp: l_inv_def same_world [OF assms(2,3)])
qed

section \<open>Cleaning up\<close>

lemma cleanup_command_inv:
  assumes "cleanup_command_state ts w = (ts', w')" "cache_inv e cfg w" "ts_inv cfg w ts"
  shows "cache_inv e cfg w' \<and> blocks cfg w' = blocks cfg w + dang ts \<and> dang ts' = {#} \<and> w_mem w' = w_mem w \<and>
    entries cfg w' = entries cfg w \<and> ts_inv cfg w' ts' \<and> ts_replacement_thread_state ts' = ts_replacement_thread_state ts"
proof -
  let ?w = "free_bytecode (ts_dangling_bytecode ts) w"
  have 1: "fst (w_cache ?w) = fst (w_cache w)" "w_mem ?w = w_mem w" "entries cfg ?w = entries cfg w"
    "mset (snd (w_cache ?w)) = mset (snd (w_cache w)) + dang ts"
    by (auto simp: free_bytecode_def dang_def fc_entry_def split: option.splits)
  have q: "quiescent (hash_bits cfg) (fst (w_cache ?w))" using assms(2) 1 by (simp add: cache_inv_def)
  have i: "cache_inv e cfg ?w" "blocks cfg ?w = blocks cfg w + dang ts"
    using assms(2) 1 by (simp_all add: cache_inv_def entry_ok_def blocks_def fc_clean_def ac_simps)
  show ?thesis
  proof (cases "ts_cached_function_in_use ts")
    case None
    with assms(1) have "ts' = ts\<lparr>ts_dangling_bytecode := None, ts_compiled_query := JS_UNDEFINED\<rparr>" "w' = ?w"
      by (auto simp: cleanup_command_state_def Let_def)
    then show ?thesis using i 1 assms(3) None by (simp add: dang_def ts_inv_def)
  next
    case (Some b)
    with assms(1) have r: "ts' = ts\<lparr>ts_dangling_bytecode := None, ts_compiled_query := JS_UNDEFINED, ts_cached_function_in_use := None\<rparr>"
      "w' = ?w\<lparr>w_cache := release_cached_function (w_cache ?w) b\<rparr>"
      by (auto simp: cleanup_command_state_def Let_def)
    have "entries cfg ?w b \<noteq> None" using assms(3) Some 1(3) by (simp add: ts_inv_def)
    note rel = fc.release_law [OF q this]
    have "cache_inv e cfg w'" "blocks cfg w' = blocks cfg ?w" "entries cfg w' = entries cfg ?w"
      using i(1) rel r fc_clean_release by (simp_all add: cache_inv_def entry_ok_def blocks_def)
    then show ?thesis using i 1 assms(3) r by (simp add: dang_def ts_inv_def)
  qed
qed

lemma cleanup_thread_inv:
  assumes "cleanup_thread_state ts w = (ts', w')" "cache_inv e cfg w" "ts_inv cfg w ts"
  shows "cache_inv e cfg w' \<and> blocks cfg w' + dang ts' = blocks cfg w + dang ts \<and> w_mem w' = w_mem w \<and>
    entries cfg w' = entries cfg w \<and> ts_inv cfg w' ts' \<and> ts_replacement_thread_state ts' = ts_replacement_thread_state ts \<and>
    ts_rt ts' = None \<and> (ts_rt ts \<noteq> None \<longrightarrow> dang ts' = {#} \<and> ts_cached_function_in_use ts' = None)"
proof (cases "ts_rt ts = None")
  case True
  then show ?thesis using assms by (simp add: cleanup_thread_state_def)
next
  case False
  obtain ts1 w1 where c: "cleanup_command_state ts w = (ts1, w1)" by fastforce
  with False assms(1) have "ts' = ts1\<lparr>ts_rt := None\<rparr>" "w' = w1" by (auto simp: cleanup_thread_state_def)
  then show ?thesis using cleanup_command_inv [OF c assms(2,3)] cleanup_command_state_idle [OF c] by (simp add: dang_def ts_inv_def)
qed

lemma ts_inv_entries:
  assumes "entries cfg w' = entries cfg w"
  shows "ts_inv cfg w' ts = ts_inv cfg w ts" "pinned cfg w' B = pinned cfg w B"
  using assms by (simp_all add: ts_inv_def pinned_def)

text \<open>A cleanup of the thread state inside the listener.\<close>

lemma l_inv_cleanup:
  assumes "l_inv e cfg fr l" "cache_inv e cfg w'" "blocks cfg w' + dang ts' = blocks cfg (l_w l) + dang (l_ts l)"
    "w_mem w' = w_mem (l_w l)" "entries cfg w' = entries cfg (l_w l)" "ts_inv cfg w' ts'"
    "ts_replacement_thread_state ts' = ts_replacement_thread_state (l_ts l)"
    and "w_cache (l_w l') = w_cache w'" "w_mem (l_w l') = w_mem w'" "l_ts l' = ts'" "l_repl l' = l_repl l"
  shows "l_inv e cfg fr l'"
proof -
  note s = same_world [OF assms(8,9)]
  have "owned cfg fr l' = owned cfg fr l" using assms(3,10,11) by (simp add: owned_def s ac_simps)
  moreover have "allocated (l_w l') = allocated (l_w l)" using assms(4,9) by (simp add: allocated_def)
  ultimately show ?thesis
    using assms(1,2,6,7,10,11) by (auto simp: l_inv_def s ts_inv_entries [OF assms(5)])
qed

lemma l_inv_bounds:
  assumes "l_inv e cfg fr l"
  shows "ts_line_n (l_ts l) \<in> {0, 1, 2} \<and> length (ts_current_uuid (l_ts l)) = MESSAGE_UUID_MAX_BYTES + 1 \<and>
    ts_current_uuid_len (l_ts l) \<le> MESSAGE_UUID_MAX_BYTES"
  using assms by (simp add: l_inv_def ts_inv_def)

section \<open>Lines\<close>

lemma special_cases:
  assumes "special_command e cfg line l = Some (Some (r, l'))"
  obtains (reset) ts' w' where "cleanup_command_state (l_ts l) (l_w l) = (ts', w')"
      "l_ts l' = ts'\<lparr>ts_line_n := 0, ts_truncated := False\<rparr>" "w_cache (l_w l') = w_cache w'" "w_mem (l_w l') = w_mem w'" "l_repl l' = l_repl l"
  | (other) q m where "l_ts l' = (l_ts l)\<lparr>ts_compiled_query := q, ts_manually_trigger_thread_state_reset := m\<rparr>"
      "w_cache (l_w l') = w_cache (l_w l)" "w_mem (l_w l') = w_mem (l_w l)" "l_repl l' = l_repl l"
proof -
  consider (quit) "cstr line = ''?quit''" | (reset) "cstr line = ''?reset''" | (exectime) "cstr line = ''?exectime''"
    | (memusage) "cstr line = ''?memusage''" | (rest) "cstr line \<notin> {''?quit'', ''?reset'', ''?exectime'', ''?memusage''}" by auto
  then show thesis
  proof cases
    case quit
    let ?m = "l\<lparr>l_ts := (l_ts l)\<lparr>ts_compiled_query := JS_UNDEFINED\<rparr>, l_w := (l_w l)\<lparr>g_interrupted_or_error := True\<rparr>\<rparr>"
    have "write_to_stream (''quit'' @ [NL]) ?m = Some l'"
      using quit assms by (auto simp: special_command_def strcmp_eq_def Let_def)
    from write_to_stream_keeps [OF this] show thesis
      by (intro other [of "ts_manually_trigger_thread_state_reset (l_ts l)" JS_UNDEFINED]) auto
  next
    case r: reset
    obtain ts' w' where c: "cleanup_command_state (l_ts l) (l_w l) = (ts', w')" by fastforce
    let ?m = "l\<lparr>l_ts := ts'\<lparr>ts_line_n := 0, ts_truncated := False\<rparr>, l_w := w'\<rparr>"
    have "write_to_stream (''reset'' @ [NL]) ?m = Some l'"
      using r assms c by (auto simp: special_command_def strcmp_eq_def Let_def)
    from write_to_stream_keeps [OF this] show thesis by (intro reset [OF c]) auto
  next
    case exectime
    then obtain iov where "writev_to_stream iov l = Some l'" using assms by (auto simp: special_command_def strcmp_eq_def Let_def)
    from writev_to_stream_keeps_world [OF this] show thesis
      by (intro other [of "ts_manually_trigger_thread_state_reset (l_ts l)" "ts_compiled_query (l_ts l)"]) auto
  next
    case memusage
    then obtain t iov where "write_to_stream t l = Some l' \<or> writev_to_stream iov l = Some l'"
      using assms by (auto simp: special_command_def strcmp_eq_def Let_def split: option.splits)
    then show thesis
      using write_to_stream_keeps [of t l l'] writev_to_stream_keeps_world [of iov l l']
      by (intro other [of "ts_manually_trigger_thread_state_reset (l_ts l)" "ts_compiled_query (l_ts l)"]) auto
  next
    case rest
    then obtain t b where "write_to_stream t (l\<lparr>l_ts := (l_ts l)\<lparr>ts_manually_trigger_thread_state_reset := b\<rparr>\<rparr>) = Some l'"
    proof (cases "debug cfg \<and> cstr line = ''?tsreset''")
      case True
      with rest assms that [of "''tsreset'' @ [NL]" True] show ?thesis by (auto simp: special_command_def strcmp_eq_def Let_def)
    next
      case False
      with rest assms that [of "''bad command'' @ [NL]" "ts_manually_trigger_thread_state_reset (l_ts l)"] show ?thesis
        by (auto simp: special_command_def strcmp_eq_def Let_def split: if_splits)
    qed
    from write_to_stream_keeps [OF this] show thesis by (intro other [of b "ts_compiled_query (l_ts l)"]) auto
  qed
qed

lemma blocks_add:
  assumes "cache_inv e cfg w" "add_cached_function (hash_bits cfg) (w_cache w) k v = (Some j, c)" "w_cache w' = c"
  shows "blocks cfg w' = blocks cfg w + {#bytecode v#} \<and> entries cfg w' = (entries cfg w)(j := Some (k, v)) \<and>
    quiescent (hash_bits cfg) (fst (w_cache w')) \<and> fc_clean (hash_bits cfg) (w_cache w')"
proof -
  note a = fc.add_Some [OF _ assms(2)]
  have q: "quiescent (hash_bits cfg) (fst (w_cache w))" using assms(1) by (simp add: cache_inv_def)
  have "mset (snd c) + live bytecode (fc_entry (hash_bits cfg) c) =
      mset (snd (w_cache w)) + (live bytecode ((entries cfg w)(j := Some (k, v))) + mset (old_value bytecode (entries cfg w j)))"
    using a [OF q] by (simp add: ac_simps)
  also have "\<dots> = blocks cfg w + {#bytecode v#}"
    by (subst live_update [OF finite_entries]) (simp add: blocks_def ac_simps)
  finally show ?thesis using a [OF q] assms fc_clean_add [OF q _ assms(2)] by (simp add: blocks_def cache_inv_def)
qed

lemma cache_inv_grow:
  assumes "cache_inv e cfg w" "w_mem w' = w_mem w @ [bc]"
    and q: "quiescent (hash_bits cfg) (fst (w_cache w'))" "fc_clean (hash_bits cfg) (w_cache w')"
    and "\<And>j k v. entries cfg w' j = Some (k, v) \<Longrightarrow> entries cfg w j = Some (k, v) \<or>
      v = \<lparr>bytecode = Some (length (w_mem w)), bytecode_size = length bc\<rparr> \<and> made e cfg k bc"
  shows "cache_inv e cfg w'"
  unfolding cache_inv_def
proof (intro conjI allI impI)
  fix j k v assume "entries cfg w' j = Some (k, v)"
  from assms(5) [OF this] show "entry_ok e cfg w' k v"
  proof
    assume "entries cfg w j = Some (k, v)"
    then have "entry_ok e cfg w k v" using assms(1) by (simp add: cache_inv_def)
    then show ?thesis using assms(2) by (auto simp: entry_ok_def nth_append)
  next
    assume "v = \<lparr>bytecode = Some (length (w_mem w)), bytecode_size = length bc\<rparr> \<and> made e cfg k bc"
    then show ?thesis using assms(2) by (simp add: entry_ok_def nth_append)
  qed
qed (rule q)+

lemma allocated_grow: "w_mem w' = w_mem w @ [bc] \<Longrightarrow> allocated w' = allocated w + {#Some (length (w_mem w))#}"
  by (simp add: allocated_def)

lemma line_2_inv:
  assumes "handle_line_2_query e cfg line l = Some (r, l')" "l_inv e cfg fr l" "ts_line_n (l_ts l) = 1"
  shows "l_inv e cfg fr l'"
proof -
  have q: "quiescent (hash_bits cfg) (fst (w_cache (l_w l)))" and ci: "cache_inv e cfg (l_w l)"
    using assms(2) by (simp_all add: l_inv_def cache_inv_def)
  note b = l_inv_bounds [OF assms(2)]
  have state: "ts_replacement_thread_state (l_ts l') = ts_replacement_thread_state (l_ts l)" "l_repl l' = l_repl l"
    "ts_current_uuid (l_ts l') = ts_current_uuid (l_ts l)" "ts_current_uuid_len (l_ts l') = ts_current_uuid_len (l_ts l)"
    "ts_line_n (l_ts l') = 2" if "same_but_query l l'"
    using that assms(3) by (simp_all add: same_but_query_def)
  show ?thesis
    using assms(1)
  proof (cases rule: line_2_cases)
    case (hit j c1 bc)
    note g = fc.get_Some [OF q hit(3)]
    note st = state [OF hit(2)]
    have e: "entries cfg (l_w l') = entries cfg (l_w l)" "snd (w_cache (l_w l')) = snd (w_cache (l_w l))"
      using g hit(4) by simp_all
    have "cache_inv e cfg (l_w l')" using ci g hit(4,5) e fc_clean_get [OF q _ hit(3)] by (simp add: cache_inv_def entry_ok_def)
    moreover have "owned cfg fr l' = owned cfg fr l" using e hit(6) st(2) by (simp add: owned_def blocks_def dang_def)
    moreover have "allocated (l_w l') = allocated (l_w l)" using hit(5) by (simp add: allocated_def)
    ultimately show ?thesis
      using assms(2) st hit(7) by (simp add: l_inv_def ts_inv_def pinned_def e)
  next
    case (bad c1 j j1)
    have "c1 = w_cache (l_w l)" by (rule fc.get_None [OF q bad(3)])
    then show ?thesis using bad state [OF bad(2)] b by (intro l_inv_keep [OF assms(2)]) auto
  next
    case (miss bc c1 in_use c2 j j1)
    let ?a = "length (w_mem (l_w l))" and ?k = "get_hash_cache_uid (xxh3 cfg) line"
    have c1: "c1 = w_cache (l_w l)" by (rule fc.get_None [OF q miss(3)])
    have made: "made e cfg ?k bc" using miss(9) by (auto simp: made_def)
    note st = state [OF miss(2)]
    note al = allocated_grow [OF miss(6)]
    show ?thesis
    proof (cases in_use)
      case None
      have c2: "w_cache (l_w l') = w_cache (l_w l)"
        using fc.add_None [OF q miss(4) [unfolded c1 None]] miss(5) by simp
      have "cache_inv e cfg (l_w l')" by (rule cache_inv_grow [OF ci miss(6)]) (use c2 q ci in \<open>auto simp: cache_inv_def\<close>)
      moreover have "owned cfg fr l' \<subseteq># owned cfg fr l + {#Some ?a#}"
        using c2 None miss(7) st(2) by (simp add: owned_def blocks_def dang_def ac_simps split: option.split)
      moreover have "entries cfg (l_w l') = entries cfg (l_w l)" using c2 by simp
      ultimately show ?thesis
        using assms(2) st miss(8) None al by (auto simp: l_inv_def ts_inv_def pinned_def intro: subset_mset.order_trans)
    next
      case (Some b)
      note ba = blocks_add [OF ci miss(4) [unfolded c1 Some] miss(5)]
      have "cache_inv e cfg (l_w l')"
        by (rule cache_inv_grow [OF ci miss(6)]) (use ba made in \<open>auto split: if_splits\<close>)
      moreover have "owned cfg fr l' = owned cfg fr l + {#Some ?a#}"
        using ba Some miss(7) st(2) by (simp add: owned_def dang_def)
      ultimately show ?thesis
        using assms(2) st miss(8) Some al ba by (auto simp: l_inv_def ts_inv_def pinned_def)
    qed
  qed
qed

lemma length_store_uuid:
  assumes "length (ts_current_uuid ts) = MESSAGE_UUID_MAX_BYTES + 1"
  shows "length (ts_current_uuid (store_uuid line ts)) = MESSAGE_UUID_MAX_BYTES + 1 \<and>
    ts_current_uuid_len (store_uuid line ts) \<le> MESSAGE_UUID_MAX_BYTES"
proof -
  have "length (strncpy_cells line n) = n" for n by (simp add: strncpy_cells_def)
  then show ?thesis using assms by (simp add: store_uuid_def Let_def)
qed

lemma line_1_inv:
  assumes "handle_line_1_message_uid line l = Some (r, l')" "l_inv e cfg fr l" "ts_line_n (l_ts l) = 0"
  shows "l_inv e cfg fr l'"
proof -
  note b = l_inv_bounds [OF assms(2)]
  have swapped: "l_inv e cfg fr (l\<lparr>l_ts := repl\<lparr>ts_replacement_thread_state := s\<rparr>, l_repl := Some (l_ts l)\<rparr>)"
    if "l_repl l = Some repl" for repl s
    using assms(2) that by (auto simp: l_inv_def owned_def ts_inv_def dang_def ac_simps)
  have stored: "l_inv e cfg fr (l\<lparr>l_ts := store_uuid line ts\<rparr>)"
    if "ts = l_ts l \<or> ts = (l_ts l)\<lparr>ts_replacement_thread_state := REPLACEMENT_THREAD_STATE_NONE\<rparr>" for ts
  proof (rule l_inv_keep [OF assms(2)])
    have u: "length (ts_current_uuid ts) = MESSAGE_UUID_MAX_BYTES + 1" using b that by auto
    note n = length_store_uuid [OF u, of line]
    show "length (ts_current_uuid (l_ts (l\<lparr>l_ts := store_uuid line ts\<rparr>))) = length (ts_current_uuid (l_ts l))" using n b by simp
    show "ts_current_uuid_len (l_ts (l\<lparr>l_ts := store_uuid line ts\<rparr>)) \<le> MESSAGE_UUID_MAX_BYTES" using n by simp
  qed (use that assms(3) in \<open>auto simp: store_uuid_def Let_def\<close>)
  show ?thesis
    using assms(1)
  proof (cases rule: line_1_cases)
    case (swap repl)
    from swapped [OF swap(3)] show ?thesis unfolding swap(4) .
  next
    case (failed_create repl)
    have "l' = l\<lparr>l_ts := repl\<lparr>ts_replacement_thread_state := REPLACEMENT_THREAD_STATE_NONE\<rparr>, l_repl := Some (l_ts l)\<rparr>"
      by (simp add: failed_create(3))
    with swapped [OF failed_create(2)] show ?thesis by simp
  next
    case failed_join
    then show ?thesis using assms(2) by simp
  next
    case failed_late_join
    then show ?thesis using b by (intro l_inv_keep [OF assms(2)]) auto
  next
    case joined
    from stored show ?thesis unfolding joined(3) by blast
  next
    case plain
    from stored show ?thesis unfolding plain(3) by blast
  qed
qed

lemma keeps_inv:
  assumes "keeps l l'" "l_inv e cfg fr l"
  shows "l_inv e cfg fr l'"
  using assms(1) l_inv_bounds [OF assms(2)] by (intro l_inv_keep [OF assms(2)]) (auto simp: keeps_def)

lemma line_3_inv:
  assumes "handle_line_3_parameter e cfg line l = Some (r, l')" "l_inv e cfg fr l"
  shows "l_inv e cfg fr l'"
proof -
  obtain l2 ts' w' where h: "handle_line_3_parameter_helper e cfg line l = Some (r, l2)"
    and c: "cleanup_command_state ((l_ts l2)\<lparr>ts_line_n := 0\<rparr>) (l_w l2) = (ts', w')" and l': "l' = l2\<lparr>l_ts := ts', l_w := w'\<rparr>"
    using assms(1) by (rule line_3_cases)
  have i: "l_inv e cfg fr l2" using keeps_inv helper_keeps [OF h] assms(2) by blast
  have i0: "l_inv e cfg fr (l2\<lparr>l_ts := (l_ts l2)\<lparr>ts_line_n := 0\<rparr>\<rparr>)"
    using l_inv_bounds [OF i] by (intro l_inv_keep [OF i]) auto
  then have "cache_inv e cfg (l_w l2)" "ts_inv cfg (l_w l2) ((l_ts l2)\<lparr>ts_line_n := 0\<rparr>)" by (simp_all add: l_inv_def)
  note cl = cleanup_command_inv [OF c this]
  show ?thesis by (rule l_inv_cleanup [OF i0, of w' ts']) (use cl l' in auto)
qed

lemma line_truncated_inv:
  assumes "line_truncated l = Some (r, l')" "l_inv e cfg fr l"
  shows "l_inv e cfg fr l'"
proof (cases "ts_line_n (l_ts l) = 2")
  case True
  let ?l = "l\<lparr>l_ts := (l_ts l)\<lparr>ts_truncated := False, ts_line_n := 0, ts_compiled_query := JS_UNDEFINED\<rparr>\<rparr>"
  obtain iov where w: "writev_to_stream iov ?l = Some l'" using assms(1) True by (auto simp: line_truncated_def)
  have "l_inv e cfg fr ?l" using l_inv_bounds [OF assms(2)] by (intro l_inv_keep [OF assms(2)]) auto
  with keeps_inv writev_keeps [OF w] show ?thesis by blast
next
  case False
  then show ?thesis using assms(1) l_inv_bounds [OF assms(2)]
    by (intro l_inv_keep [OF assms(2)]) (auto simp: line_truncated_def)
qed

lemma special_inv:
  assumes "special_command e cfg line l = Some (Some (r, l'))" "l_inv e cfg fr l"
  shows "l_inv e cfg fr l'"
  using assms(1)
proof (cases rule: special_cases)
  case (reset ts' w')
  have "cache_inv e cfg (l_w l)" "ts_inv cfg (l_w l) (l_ts l)" using assms(2) by (simp_all add: l_inv_def)
  note cl = cleanup_command_inv [OF reset(1) this]
  have "ts_inv cfg w' (l_ts l')" "dang (l_ts l') = {#}" "ts_replacement_thread_state (l_ts l') = ts_replacement_thread_state (l_ts l)"
    using cl reset(2) by (auto simp: ts_inv_def dang_def)
  with cl reset show ?thesis by (intro l_inv_cleanup [OF assms(2), of w' "l_ts l'"]) auto
next
  case (other q m)
  then show ?thesis using l_inv_bounds [OF assms(2)] by (intro l_inv_keep [OF assms(2)]) auto
qed

lemma line_handler_inv:
  assumes "line_handler e cfg line truncated l = Some (r, l')" "l_inv e cfg fr l"
  shows "l_inv e cfg fr l'"
proof -
  note b = l_inv_bounds [OF assms(2)]
  have n: "l_inv e cfg fr (noted cfg line t now l)" "ts_line_n (l_ts (noted cfg line t now l)) = ts_line_n (l_ts l)" for t now
    using b by (auto simp: noted_def intro!: l_inv_keep [OF assms(2)])
  show ?thesis
    using assms(1)
  proof (cases rule: line_handler_cases)
    case clock
    then show ?thesis using b by (intro l_inv_keep [OF assms(2)]) auto
  next
    case (cut now)
    from line_truncated_inv [OF this n(1)] show ?thesis .
  next
    case (special now)
    from special_inv [OF this n(1)] show ?thesis .
  next
    case (line1 now)
    from line_1_inv [OF line1(2) n(1)] line1(1) n(2) show ?thesis by simp
  next
    case (line2 now)
    from line_2_inv [OF line2(2) n(1)] line2(1) n(2) show ?thesis by simp
  next
    case (line3 now)
    from line_3_inv [OF line3(2) n(1)] show ?thesis .
  next
    case (bad now)
    then show ?thesis using n(1) by simp
  qed
qed

section \<open>The other steps\<close>

lemma l_inv_parts:
  assumes "l_inv e cfg fr l"
  shows "cache_inv e cfg (l_w l)" "owned cfg fr l \<subseteq># allocated (l_w l)" "ts_inv cfg (l_w l) (l_ts l)"
    "l_repl l = Some t \<Longrightarrow> ts_inv cfg (l_w l) t" "pinned cfg (l_w l) (snd fr)"
  using assms by (simp_all add: l_inv_def)

lemma idle_dang: "ts_idle ts \<Longrightarrow> dang ts = {#}"
  by (simp add: ts_idle_def dang_def)

text \<open>A thread state that was just set up replaces the current one or becomes the replacement.\<close>

lemma init_ts_inv:
  assumes "init_thread_state e cfg i ts w = Some (r, ts', w')" "length (ts_current_uuid ts) = MESSAGE_UUID_MAX_BYTES + 1"
  shows "ts_inv cfg w' ts' \<and> dang ts' = {#} \<and> w_cache w' = w_cache w \<and> w_mem w' = w_mem w \<and>
    ts_replacement_thread_state ts' = REPLACEMENT_THREAD_STATE_NONE"
  using init_thread_state_cases [OF assms(1)] assms(2) idle_dang [of ts'] by (auto simp: ts_inv_def ts_idle_def same_shared_def)

lemma reset_thread_inv:
  assumes "reset_thread_state_thread e cfg malloced l = Some l'" "l_inv e cfg fr l"
    "length (ts_current_uuid malloced) = MESSAGE_UUID_MAX_BYTES + 1"
    "ts_replacement_thread_state (l_ts l) = REPLACEMENT_THREAD_STATE_INIT"
  shows "l_inv e cfg fr l'"
proof -
  let ?w = "(l_w l)\<lparr>g_new_thread_state_count := g_new_thread_state_count (l_w l) + 1\<rparr>"
  obtain r repl w' where i: "init_thread_state e cfg (ts_thread_index (l_ts l)) malloced ?w = Some (r, repl, w')"
    using assms(1) by (auto simp: reset_thread_state_thread_def bind_eq_Some_conv)
  note ir = init_ts_inv [OF i assms(3)]
  note p = l_inv_parts [OF assms(2)]
  have l': "l_repl l' = Some repl \<and> w_cache (l_w l') = w_cache (l_w l) \<and> w_mem (l_w l') = w_mem (l_w l) \<and>
    (\<exists>x s. l_ts l' = (l_ts l)\<lparr>ts_exit_status := x, ts_replacement_thread_state := s\<rparr>)"
  proof (cases "r = 0")
    case True
    then have "l' = l\<lparr>l_repl := Some repl, l_w := w', l_ts := (l_ts l)\<lparr>ts_replacement_thread_state := REPLACEMENT_THREAD_STATE_INIT_COMPLETE\<rparr>\<rparr>"
      using assms(1) i by (auto simp: reset_thread_state_thread_def Let_def)
    then show ?thesis
      using ir by (intro conjI exI [of _ "ts_exit_status (l_ts l)"] exI [of _ REPLACEMENT_THREAD_STATE_INIT_COMPLETE]) simp_all
  next
    case False
    then have "l' = l\<lparr>l_repl := Some repl, l_w := w'\<lparr>g_interrupted_or_error := True\<rparr>, l_ts := (l_ts l)\<lparr>ts_exit_status := 1\<rparr>\<rparr>"
      using assms(1) i by (auto simp: reset_thread_state_thread_def Let_def)
    then show ?thesis
      using ir by (intro conjI exI [of _ 1] exI [of _ "ts_replacement_thread_state (l_ts l)"]) simp_all
  qed
  then obtain x s where ts: "l_ts l' = (l_ts l)\<lparr>ts_exit_status := x, ts_replacement_thread_state := s\<rparr>" by blast
  have s: "w_cache (l_w l') = w_cache (l_w l)" "w_mem (l_w l') = w_mem (l_w l)" "w_cache w' = w_cache (l_w l)" "w_mem w' = w_mem (l_w l)"
    using l' ir by auto
  have "dang (l_ts l') = dang (l_ts l)" "ts_inv cfg (l_w l) (l_ts l')" using p(3) ts by (simp_all add: dang_def ts_inv_def)
  moreover have "ts_inv cfg (l_w l) repl" using ir by (simp add: same_world(4) [OF s(3,4)])
  moreover have "owned cfg fr l' \<subseteq># owned cfg fr l"
    using l' ir calculation(1) by (simp add: owned_def same_world [OF s(1,2)] split: option.split)
  ultimately show ?thesis
    using p l' by (auto simp: l_inv_def same_world [OF s(1,2)] intro: subset_mset.order_trans)
qed

lemma cleanup_old_inv:
  assumes "cleanup_old_runtime l = Some l'" "l_inv e cfg fr l"
  shows "l_inv e cfg fr l' \<and> l_repl l' = None \<and> ts_rt (l_ts l') = ts_rt (l_ts l) \<and>
    ts_dangling_bytecode (l_ts l') = ts_dangling_bytecode (l_ts l) \<and> l_sock l' = l_sock l"
proof -
  obtain old ts' w' where o: "l_repl l = Some old" "cleanup_thread_state old (l_w l) = (ts', w')"
    and l': "l' = l\<lparr>l_repl := None, l_w := w'\<lparr>g_new_thread_state_count := g_new_thread_state_count w' - 1\<rparr>, l_ts := (l_ts l)\<lparr>ts_replacement_thread_state := REPLACEMENT_THREAD_STATE_CLEANUP_COMPLETE\<rparr>\<rparr>"
    using assms(1) by (cases "l_repl l") (auto simp: cleanup_old_runtime_def split: prod.splits)
  note p = l_inv_parts [OF assms(2)]
  note c = cleanup_thread_inv [OF o(2) p(1) p(4) [OF o(1)]]
  let ?w = "w'\<lparr>g_new_thread_state_count := g_new_thread_state_count w' - 1\<rparr>"
  have s: "w_cache ?w = w_cache w'" "w_mem ?w = w_mem w'" by simp_all
  have d: "dang (l_ts l') = dang (l_ts l)" using l' by (simp add: dang_def)
  have "owned cfg fr l' + dang ts' = owned cfg fr l" using c o(1) l' d by (simp add: owned_def ac_simps same_world [OF s])
  then have "owned cfg fr l' \<subseteq># owned cfg fr l" by (metis mset_subset_eq_add_left)
  moreover have "allocated w' = allocated (l_w l)" using c by (simp add: allocated_def)
  moreover have "ts_inv cfg w' (l_ts l)" "pinned cfg w' (snd fr)" using p(3,5) c ts_inv_entries by metis+
  ultimately show ?thesis
    using c l' p(2) by (auto simp: l_inv_def same_world [OF s] ts_inv_def intro: subset_mset.order_trans)
qed

lemma run_background_inv:
  assumes "run_background e cfg malloced l = Some l'" "l_inv e cfg fr l" "length (ts_current_uuid malloced) = MESSAGE_UUID_MAX_BYTES + 1"
  shows "l_inv e cfg fr l'"
proof -
  consider (reset) "ts_replacement_thread_state (l_ts l) = REPLACEMENT_THREAD_STATE_INIT" "reset_thread_state_thread e cfg malloced l = Some l'"
    | (cleanup) "cleanup_old_runtime l = Some l'" | (none) "l' = l"
    using assms(1) unfolding run_background_def reset_thread_state_cleanup_old_runtime_thread_def
    by (metis option.inject)
  then show ?thesis
  proof cases
    case reset
    show ?thesis by (rule reset_thread_inv [OF reset(2) assms(2,3) reset(1)])
  next
    case cleanup
    show ?thesis by (rule cleanup_old_inv [OF cleanup assms(2), THEN conjunct1])
  next
    case none
    then show ?thesis using assms(2) by simp
  qed
qed

lemma cleanup_here_inv:
  assumes "cleanup_thread_state (l_ts l) (l_w l) = (ts', w')" "l_inv e cfg fr l" "l' = l\<lparr>l_ts := ts', l_w := w'\<rparr>"
  shows "l_inv e cfg fr l'"
  using cleanup_thread_inv [OF assms(1) l_inv_parts(1,3) [OF assms(2)]] assms(3)
  by (intro l_inv_cleanup [OF assms(2), of w' ts']) auto

lemma tick_inv: "l_inv e cfg fr l \<Longrightarrow> l_inv e cfg fr (tick_handler cfg l)"
proof -
  assume i: "l_inv e cfg fr l"
  have j: "l_inv e cfg fr (l\<lparr>l_w := (l_w l)\<lparr>w_tick := n\<rparr>\<rparr>)" for n
    using l_inv_bounds [OF i] by (intro l_inv_keep [OF i]) auto
  show ?thesis
  proof (cases "\<exists>n ts' w'. cleanup_thread_state (l_ts l) ((l_w l)\<lparr>w_tick := n\<rparr>) = (ts', w') \<and> tick_handler cfg l = l\<lparr>l_ts := ts', l_w := w'\<rparr>")
    case True
    then obtain n ts' w' where c: "cleanup_thread_state (l_ts l) ((l_w l)\<lparr>w_tick := n\<rparr>) = (ts', w')"
      "tick_handler cfg l = l\<lparr>l_ts := ts', l_w := w'\<rparr>" by blast
    show ?thesis by (rule cleanup_here_inv [OF _ j [of n]]) (use c in auto)
  next
    case False
    then have "tick_handler cfg l = l \<or> (\<exists>n. tick_handler cfg l = l\<lparr>l_w := (l_w l)\<lparr>w_tick := n\<rparr>\<rparr>)"
      by (fastforce simp: tick_handler_def Let_def split: option.splits prod.splits)
    with i j show ?thesis by auto
  qed
qed

section \<open>Steps of a listener\<close>

text \<open>
  What can happen to a listener, in any order: a line is handled, a background thread finishes, a tick,
  a runtime that was shut down is set up again, and whatever leaves its thread state, the cache
  and the bytecode alone (the clock, the socket, other processes, the fields that say when it was active and how it ends).
\<close>

inductive serve :: "('j, 'v) engine \<Rightarrow> config \<Rightarrow> ('j, 'v) listener \<Rightarrow> ('j, 'v) listener \<Rightarrow> bool" for e cfg where
  serve_line: "line_handler e cfg line truncated l = Some (r, l') \<Longrightarrow> serve e cfg l l'"
| serve_background: "run_background e cfg malloced l = Some l' \<Longrightarrow>
     length (ts_current_uuid malloced) = MESSAGE_UUID_MAX_BYTES + 1 \<Longrightarrow> serve e cfg l l'"
| serve_tick: "serve e cfg l (tick_handler cfg l)"
| serve_wake: "init_thread_state e cfg i (l_ts l) (l_w l) = Some (r, ts', w') \<Longrightarrow> ts_rt (l_ts l) = None \<Longrightarrow>
     serve e cfg l (l\<lparr>l_ts := ts', l_repl := None, l_w := w'\<rparr>)"
| serve_other: "w_cache w' = w_cache (l_w l) \<Longrightarrow> w_mem w' = w_mem (l_w l) \<Longrightarrow>
     serve e cfg l (l\<lparr>l_w := w', l_sock := sock, l_buf := buf, l_ts := (l_ts l)\<lparr>ts_exit_status := x, ts_last_active_time := t\<rparr>\<rparr>)"

lemma serve_inv: "serve e cfg l l' \<Longrightarrow> l_inv e cfg fr l \<Longrightarrow> l_inv e cfg fr l'"
proof (induction rule: serve.induct)
  case (serve_line line truncated l r l')
  then show ?case by (rule line_handler_inv)
next
  case (serve_background malloced l l')
  show ?case by (rule run_background_inv [OF serve_background(1,3,2)])
next
  case (serve_tick l)
  then show ?case by (rule tick_inv)
next
  case (serve_wake i l r ts' w')
  note p = l_inv_parts [OF serve_wake(3)]
  have "length (ts_current_uuid (l_ts l)) = MESSAGE_UUID_MAX_BYTES + 1" using p(3) by (simp add: ts_inv_def)
  note i = init_ts_inv [OF serve_wake(1) this]
  have s: "w_cache w' = w_cache (l_w l)" "w_mem w' = w_mem (l_w l)" using i by auto
  have "owned cfg fr (l\<lparr>l_ts := ts', l_repl := None, l_w := w'\<rparr>) \<subseteq># owned cfg fr l"
    using i by (simp add: owned_def same_world [OF s])
  then show ?case using p(1,2,5) i by (auto simp: l_inv_def same_world(1,3,5) [OF s] intro: subset_mset.order_trans)
next
  case (serve_other w' l sock buf x t)
  then show ?case using l_inv_bounds [OF serve_other(3)] by (intro l_inv_keep [OF serve_other(3)]) auto
qed

lemma serves_inv: "(serve e cfg)\<^sup>*\<^sup>* l l' \<Longrightarrow> l_inv e cfg fr l \<Longrightarrow> l_inv e cfg fr l'"
  by (induction rule: rtranclp_induct) (auto intro: serve_inv)

text \<open>The shapes of \<open>serve_other\<close> the loop uses.\<close>

lemma serve_equality: "l1 = l2 \<Longrightarrow> serve e cfg l l2 \<Longrightarrow> serve e cfg l l1"
  by simp

lemma serve_buf: "serve e cfg l (l\<lparr>l_buf := m\<rparr>)"
  using serve_other [where w' = "l_w l" and l = l and sock = "l_sock l" and buf = m and x = "ts_exit_status (l_ts l)"
    and t = "ts_last_active_time (l_ts l)"] by simp

lemma serve_exit: "serve e cfg l (l\<lparr>l_ts := (l_ts l)\<lparr>ts_exit_status := x\<rparr>\<rparr>)"
  using serve_other [where w' = "l_w l" and l = l and sock = "l_sock l" and buf = "l_buf l" and x = x
    and t = "ts_last_active_time (l_ts l)"] by simp

lemma serve_sock: "serve e cfg l (l\<lparr>l_sock := ss\<rparr>)"
  using serve_other [where w' = "l_w l" and l = l and sock = ss and buf = "l_buf l" and x = "ts_exit_status (l_ts l)"
    and t = "ts_last_active_time (l_ts l)"] by simp

lemma serve_clock: "serve e cfg l (l\<lparr>l_w := (l_w l)\<lparr>w_tick := n\<rparr>, l_ts := (l_ts l)\<lparr>ts_last_active_time := t\<rparr>\<rparr>)"
  using serve_other [where w' = "(l_w l)\<lparr>w_tick := n\<rparr>" and l = l and sock = "l_sock l" and buf = "l_buf l"
    and x = "ts_exit_status (l_ts l)" and t = t] by simp

lemma serve_end: "serve e cfg l (snd (command_loop_end l))"
  by (rule serve_equality [OF _ serve_other [where w' = "(l_w l)\<lparr>g_interrupted_or_error := True\<rparr>"
    and sock = "(l_sock l)\<lparr>streamfd := -1, sockfd := -1\<rparr>" and buf = "l_buf l" and x = "ts_exit_status (l_ts l)"
    and t = "ts_last_active_time (l_ts l)"]]) (simp_all add: command_loop_end_def)

section \<open>The loops only make steps\<close>

lemma wrapper_serves:
  assumes "command_loop_line_handler_wrapper e cfg s m off len t = (r, Some l', m')"
  shows "\<exists>l. s = Some l \<and> (serve e cfg)\<^sup>*\<^sup>* l l'"
proof (cases s)
  case None
  then show ?thesis using assms by (simp add: command_loop_line_handler_wrapper_def)
next
  case (Some l)
  then have h: "line_handler e cfg (cells off (off + len) m) t (l\<lparr>l_buf := m\<rparr>) = Some (r, l')"
    using assms by (auto simp: command_loop_line_handler_wrapper_def split: option.splits prod.splits)
  have "(serve e cfg)\<^sup>*\<^sup>* l (l\<lparr>l_buf := m\<rparr>)" by (rule r_into_rtranclp [where r = "serve e cfg", OF serve_buf])
  then have "(serve e cfg)\<^sup>*\<^sup>* l l'" by (rule rtranclp.rtrancl_into_rtrancl) (rule serve_line [OF h])
  then show ?thesis using Some by blast
qed

lemma replay_loop_serves:
  assumes "replay_loop b sep (command_loop_line_handler_wrapper e cfg) s i = (r, b', Some l')"
  shows "\<exists>l. s = Some l \<and> (serve e cfg)\<^sup>*\<^sup>* l l'"
  using assms
proof (induction b sep "command_loop_line_handler_wrapper e cfg" s i rule: replay_loop.induct)
  case (1 b sep s i)
  let ?h = "command_loop_line_handler_wrapper e cfg"
  note step = replay_loop.simps [of b sep ?h s i]
  show ?case
  proof (cases "int i < int (lb_start b) + lb_n b")
    case lt: True
    show ?thesis
    proof (cases "lb_buf b ! i = sep")
      case sep: True
      obtain r0 s0 m0 where h: "?h s ((lb_buf b)[i := NUL]) (lb_afsep b) (i - lb_afsep b) (lb_truncated b) = (r0, s0, m0)"
        by (rule prod_cases3)
      show ?thesis
      proof (cases "r0 < 0")
        case True
        then have "s0 = Some l'" using "1.prems" step lt sep h by simp
        with wrapper_serves h show ?thesis by blast
      next
        case False
        then have "replay_loop (b\<lparr>lb_buf := m0, lb_truncated := False, lb_afsep := i + 1\<rparr>) sep ?h s0 (i + 1) = (r, b', Some l')"
          using "1.prems"(1) step lt sep h by simp
        from "1.hyps"(1) [OF lt sep h [symmetric] refl False this] obtain l0 where l0: "s0 = Some l0" "(serve e cfg)\<^sup>*\<^sup>* l0 l'" by blast
        from wrapper_serves [OF h [unfolded l0(1)]] l0(2) show ?thesis by (auto intro: rtranclp_trans)
      qed
    next
      case False
      then have "replay_loop b sep ?h s (i + 1) = (r, b', Some l')" using "1.prems"(1) step lt by simp
      from "1.hyps"(2) [OF lt False this] show ?thesis .
    qed
  next
    case False
    then show ?thesis using "1.prems" step by auto
  qed
qed

lemma replay_while_serves:
  assumes "replay_while e cfg r0 b s = Some (r, b', Some l')"
  shows "\<exists>l. s = Some l \<and> (serve e cfg)\<^sup>*\<^sup>* l l'"
proof -
  have "snd (snd y) = Some l' \<longrightarrow> (\<exists>l. s = Some l \<and> (serve e cfg)\<^sup>*\<^sup>* l l')"
    if "replay_while e cfg r0 b s = Some y" for e cfg r0 b s y
    using that
  proof (rule replay_while.raw_induct [rotated])
    fix f e cfg r0 b s y
    assume IH: "\<And>e cfg r0 b s y. f e cfg r0 b s = Some y \<Longrightarrow> snd (snd y) = Some l' \<longrightarrow> (\<exists>l. s = Some l \<and> (serve e cfg)\<^sup>*\<^sup>* l l')"
      and run: "(if r0 = TRAMPOLINE
        then case line_buf_replay b (sep_char cfg) (command_loop_line_handler_wrapper e cfg) s of (r, b', s') \<Rightarrow> f e cfg r b' s'
        else Some (r0, b, s)) = Some y"
    show "snd (snd y) = Some l' \<longrightarrow> (\<exists>l. s = Some l \<and> (serve e cfg)\<^sup>*\<^sup>* l l')"
    proof (cases "r0 = TRAMPOLINE")
      case False
      then show ?thesis using run by auto
    next
      case True
      obtain r1 b1 s1 where l: "line_buf_replay b (sep_char cfg) (command_loop_line_handler_wrapper e cfg) s = (r1, b1, s1)"
        by (rule prod_cases3)
      then have "f e cfg r1 b1 s1 = Some y" using run True by simp
      note i = IH [OF this]
      show ?thesis
      proof
        assume "snd (snd y) = Some l'"
        with i obtain l1 where l1: "s1 = Some l1" "(serve e cfg)\<^sup>*\<^sup>* l1 l'" by blast
        from replay_loop_serves [OF l [unfolded line_buf_replay_def l1(1)]] l1(2)
        show "\<exists>l. s = Some l \<and> (serve e cfg)\<^sup>*\<^sup>* l l'" by (auto intro: rtranclp_trans)
      qed
    qed
  qed
  from this [OF assms] show ?thesis by simp
qed

lemma line_buf_read_serves:
  assumes "line_buf_read b sep readf (command_loop_line_handler_wrapper e cfg) s = (r, b', Some l')"
  shows "\<exists>l. s = Some l \<and> (serve e cfg)\<^sup>*\<^sup>* l l'"
  using assms by (auto simp: line_buf_read_def Let_def line_buf_replay_def split: read_result.splits if_splits dest: replay_loop_serves)

lemma read_round_serves:
  assumes "read_round e cfg script b l = Some res"
  shows "(serve e cfg)\<^sup>*\<^sup>* l (case res of Inl l' \<Rightarrow> l' | Inr (b', l') \<Rightarrow> l')"
proof -
  let ?h = "command_loop_line_handler_wrapper e cfg"
  obtain l1 where wake: "(if ts_rt (l_ts l) = None then
        if debug cfg \<and> ts_replacement_thread_state (l_ts l) \<noteq> REPLACEMENT_THREAD_STATE_NONE then None
        else do { (r, ts', w') \<leftarrow> init_thread_state e cfg (ts_thread_index (l_ts l)) (l_ts l) (l_w l);
                  Some (l\<lparr>l_ts := ts', l_repl := None, l_w := w'\<rparr>) }
      else Some l) = Some l1"
    using assms unfolding read_round_def by (auto simp: bind_eq_Some_conv)
  obtain r0 b0 s0 where rd0: "line_buf_read b (sep_char cfg) (\<lambda>n. fst (the (lb_read script n))) ?h (Some l1) = (r0, b0, s0)"
    by (rule prod_cases3)
  obtain r b1 l2 where rd: "line_buf_read b (sep_char cfg) (\<lambda>n. fst (the (lb_read script n))) ?h (Some l1) = (r0, b0, s0)"
      "replay_while e cfg r0 b0 s0 = Some (r, b1, Some l2)"
    and res: "res = (if r < 0 then Inl (if r \<noteq> LINE_BUF_READ_EOF \<and> r \<noteq> EXIT_ON_QUIT_COMMAND
        then l2\<lparr>l_ts := (l_ts l2)\<lparr>ts_exit_status := -1\<rparr>\<rparr> else l2) else Inr (b1, l2))"
    using assms rd0 unfolding read_round_def wake by (auto simp: bind_eq_Some_conv)
  have "(serve e cfg)\<^sup>*\<^sup>* l l1"
  proof (cases "ts_rt (l_ts l) = None")
    case True
    with wake obtain r ts' w' where i: "init_thread_state e cfg (ts_thread_index (l_ts l)) (l_ts l) (l_w l) = Some (r, ts', w')"
      "l1 = l\<lparr>l_ts := ts', l_repl := None, l_w := w'\<rparr>"
      by (auto simp: bind_eq_Some_conv split: if_splits)
    from serve_wake [OF i(1) True] show ?thesis unfolding i(2) by (rule r_into_rtranclp)
  qed (use wake in auto)
  also obtain l3 where l3: "s0 = Some l3" "(serve e cfg)\<^sup>*\<^sup>* l3 l2" using replay_while_serves [OF rd(2)] by blast
  have "(serve e cfg)\<^sup>*\<^sup>* l1 l3" using line_buf_read_serves [OF rd(1) [unfolded l3(1)]] by simp
  also note l3(2)
  finally have 2: "(serve e cfg)\<^sup>*\<^sup>* l l2" .
  moreover have "(serve e cfg)\<^sup>*\<^sup>* l (l2\<lparr>l_ts := (l_ts l2)\<lparr>ts_exit_status := -1\<rparr>\<rparr>)"
    using 2 serve_exit by (rule rtranclp.rtrancl_into_rtrancl)
  ultimately show ?thesis using res by simp
qed

text \<open>Memory a background thread gets from \<open>malloc\<close> has the size of a thread state.\<close>

definition well_sized :: "('j, 'v) turn list \<Rightarrow> bool" where
  "well_sized turns \<longleftrightarrow> (\<forall>t \<in> set turns. \<forall>m. background t = Some m \<longrightarrow> length (ts_current_uuid m) = MESSAGE_UUID_MAX_BYTES + 1)"

text \<open>The start of a turn: a background thread may finish, then the tick.\<close>

lemma turn_start_serves:
  assumes "(case background t of None \<Rightarrow> Some l | Some malloced \<Rightarrow> run_background e cfg malloced l) = Some l0" "well_sized [t]"
  shows "(serve e cfg)\<^sup>*\<^sup>* l (tick_handler cfg l0)"
proof -
  have "(serve e cfg)\<^sup>*\<^sup>* l l0"
  proof (cases "background t")
    case (Some m)
    then have "serve e cfg l l0" using assms by (intro serve_background [of _ _ m]) (auto simp: well_sized_def)
    then show ?thesis by (rule r_into_rtranclp)
  qed (use assms in simp)
  then show ?thesis using serve_tick by (rule rtranclp.rtrancl_into_rtrancl)
qed

lemma read_loop_serves:
  "read_loop e cfg turns b l = Some l' \<Longrightarrow> well_sized turns \<Longrightarrow> (serve e cfg)\<^sup>*\<^sup>* l l'"
proof (induction turns arbitrary: b l)
  case (Cons t turns)
  obtain l0 where bg: "(case background t of None \<Rightarrow> Some l | Some malloced \<Rightarrow> run_background e cfg malloced l) = Some l0"
    using Cons.prems(1) by (auto simp: bind_eq_Some_conv)
  let ?l1 = "tick_handler cfg l0"
  have 1: "(serve e cfg)\<^sup>*\<^sup>* l ?l1" using Cons.prems(2) by (intro turn_start_serves [OF bg]) (simp add: well_sized_def)
  have ws: "well_sized turns" using Cons.prems(2) by (simp add: well_sized_def)
  have run: "(case poll_fd (poll_ret t) (interrupted t) of
        GO_AROUND \<Rightarrow> read_loop e cfg turns b ?l1
      | SIG_INTERRUPT_OR_ERROR \<Rightarrow> Some ?l1
      | READY \<Rightarrow> do { res \<leftarrow> read_round e cfg (reads t) b ?l1;
                    case res of Inl l2 \<Rightarrow> Some l2 | Inr (b2, l2) \<Rightarrow> read_loop e cfg turns b2 l2 }) = Some l'"
    using Cons.prems(1) bg by (simp add: Let_def)
  show ?case
  proof (cases "poll_fd (poll_ret t) (interrupted t)")
    case READY
    then obtain res where res: "read_round e cfg (reads t) b ?l1 = Some res"
      and nxt: "(case res of Inl l2 \<Rightarrow> Some l2 | Inr (b2, l2) \<Rightarrow> read_loop e cfg turns b2 l2) = Some l'"
      using run by (auto simp: bind_eq_Some_conv)
    note 2 = rtranclp_trans [OF 1 read_round_serves [OF res]]
    show ?thesis
    proof (cases res)
      case (Inl l2)
      then show ?thesis using 2 nxt by simp
    next
      case (Inr p)
      then obtain b2 l2 where p: "res = Inr (b2, l2)" by (cases p) simp
      from Cons.IH [of b2 l2] nxt p ws 2 show ?thesis by (auto intro: rtranclp_trans)
    qed
  next
    case GO_AROUND
    with run Cons.IH [OF _ ws] 1 show ?thesis by (auto intro: rtranclp_trans)
  next
    case SIG_INTERRUPT_OR_ERROR
    with run 1 show ?thesis by simp
  qed
qed simp

lemma command_loop_serves:
  assumes "command_loop e cfg sr inc_r polls accepted turns l = Some (n, calls, l')" "well_sized turns"
  shows "\<exists>m. (n, calls, l') = (1, command_loop_end m) \<and> (serve e cfg)\<^sup>*\<^sup>* l m"
proof -
  let ?R = "(serve e cfg)\<^sup>*\<^sup>*"
  let ?fail = "\<lambda>l. l\<lparr>l_ts := (l_ts l)\<lparr>ts_exit_status := -1\<rparr>\<rparr>"
  have fail: "?R l (?fail m)" if "?R l m" for m
    using that serve_exit by (rule rtranclp.rtrancl_into_rtrancl)
  have sock: "?R l (l\<lparr>l_sock := s\<rparr>)" for s by (rule r_into_rtranclp [where r = "serve e cfg", OF serve_sock])
  obtain r ss where i: "initialize_and_listen_on_unix_socket sr (l_sock l) = (r, ss)" by fastforce
  note run = assms(1) [unfolded command_loop_def Let_def i prod.case]
  show ?thesis
  proof (cases "r \<noteq> 0 \<or> inc_r \<noteq> 0")
    case True
    then have "(n, calls, l') = (1, command_loop_end (?fail (l\<lparr>l_sock := ss\<rparr>)))" using run by (auto split: if_splits)
    with fail [OF sock] show ?thesis by blast
  next
    case False
    let ?l2 = "l\<lparr>l_sock := ss\<lparr>streamfd := -1\<rparr>\<rparr>" and ?l3 = "l\<lparr>l_sock := ss\<lparr>streamfd := accepted\<rparr>\<rparr>"
    obtain ready where ready: "accept_loop polls = Some ready" using run False by (auto simp: bind_eq_Some_conv)
    show ?thesis
    proof (cases "ready \<and> \<not> accepted < 0")
      case no: False
      then have "(n, calls, l') = (1, command_loop_end ?l2) \<or> (n, calls, l') = (1, command_loop_end (?fail ?l3))"
        using run False ready by (auto split: if_splits)
      with sock fail [OF sock] show ?thesis by blast
    next
      case ok: True
      let ?w = "(l_w l)\<lparr>w_tick := w_tick (l_w l) + 1\<rparr>"
      have clock: "?R l (?l3\<lparr>l_w := ?w, l_ts := (l_ts l)\<lparr>ts_last_active_time := t\<rparr>\<rparr>)" for t
      proof (rule rtranclp.rtrancl_into_rtrancl [OF sock])
        show "serve e cfg ?l3 (?l3\<lparr>l_w := ?w, l_ts := (l_ts l)\<lparr>ts_last_active_time := t\<rparr>\<rparr>)"
          by (rule serve_equality [OF _ serve_clock [where n = "w_tick (l_w l) + 1" and t = t]]) simp
      qed
      show ?thesis
      proof (cases "w_clock (l_w l) (w_tick (l_w l))")
        case None
        have "(n, calls, l') = (1, command_loop_end (?fail (?l3\<lparr>l_w := ?w, l_ts := (l_ts l)\<lparr>ts_last_active_time := ts_last_active_time (l_ts l)\<rparr>\<rparr>)))"
          using run False ready ok None by auto
        with fail [OF clock] show ?thesis by blast
      next
        case (Some now)
        obtain b l5 where l5: "read_loop e cfg turns b (?l3\<lparr>l_w := ?w, l_ts := (l_ts l)\<lparr>ts_last_active_time := now\<rparr>\<rparr>) = Some l5"
          "(n, calls, l') = (1, command_loop_end l5)"
          using run False ready ok Some by (auto simp: bind_eq_Some_conv)
        from rtranclp_trans [OF clock read_loop_serves [OF l5(1) assms(2)]] l5(2) show ?thesis by blast
      qed
    qed
  qed
qed

section \<open>Properties\<close>

text \<open>
  A listener as \<open>main\<close> starts it when it is the only one: an empty cache, nothing in flight, no
  replacement.
\<close>

definition listener_start :: "config \<Rightarrow> ('j, 'v) listener \<Rightarrow> bool" where
  "listener_start cfg l \<longleftrightarrow> hash_bits cfg < 64 \<and> w_cache (l_w l) = fc_empty (hash_bits cfg) \<and> l_repl l = None \<and> ts_idle (l_ts l) \<and>
     length (ts_current_uuid (l_ts l)) = MESSAGE_UUID_MAX_BYTES + 1 \<and> ts_current_uuid_len (l_ts l) = 0 \<and>
     ts_replacement_thread_state (l_ts l) = REPLACEMENT_THREAD_STATE_NONE"

lemma start_inv: "listener_start cfg l \<Longrightarrow> l_inv e cfg ({#}, {}) l"
proof -
  assume s: "listener_start cfg l"
  have none: "entries cfg (l_w l) = (\<lambda>_. None)"
    using s by (auto simp: listener_start_def fc_entry_def fc_empty_def empty_bucket_def)
  have "quiescent (hash_bits cfg) (fst (w_cache (l_w l)))" using s quiescent_empty by (auto simp: listener_start_def fc_empty_def)
  moreover have "owned cfg ({#}, {}) l = {#}"
    using s idle_dang [of "l_ts l"] none by (simp add: listener_start_def owned_def blocks_def fc_empty_def live_def)
  ultimately show ?thesis
    using s none fc_clean_empty [of "hash_bits cfg"] by (auto simp: l_inv_def cache_inv_def ts_inv_def pinned_def listener_start_def ts_idle_def)
qed

text \<open>The invariant, spelled out.\<close>

definition memory_safe :: "('j, 'v) engine \<Rightarrow> config \<Rightarrow> ('j, 'v) listener \<Rightarrow> bool" where
  "memory_safe e cfg l \<longleftrightarrow>
     (let freed = snd (w_cache (l_w l)); mem = w_mem (l_w l) in
      distinct freed \<and> set freed \<subseteq> Some ` {..<length mem} \<and>
      (\<forall>j k v. entries cfg (l_w l) j = Some (k, v) \<longrightarrow>
         (\<exists>a < length mem. bytecode v = Some a \<and> Some a \<notin> set freed \<and> bytecode_size v = length (mem ! a) \<and> made e cfg k (mem ! a))) \<and>
      (\<forall>a. ts_dangling_bytecode (l_ts l) = Some a \<longrightarrow> a < length mem \<and> Some a \<notin> set freed \<and>
         (\<forall>j k v. entries cfg (l_w l) j = Some (k, v) \<longrightarrow> bytecode v \<noteq> Some a)))"

lemma allocated_count: "count (allocated w) x \<le> 1"
proof -
  have "distinct (map Some [0 ..< length (w_mem w)])" by (simp add: distinct_map)
  then show ?thesis unfolding allocated_def by (simp add: distinct_count_atmost_1)
qed

lemma distinct_of_count:
  assumes "\<And>x. count (mset xs) x \<le> 1"
  shows "distinct xs"
  unfolding distinct_count_atmost_1
proof
  fix x
  show "count (mset xs) x = (if x \<in> set xs then 1 else 0)"
  proof (cases "x \<in> set xs")
    case True
    then have "1 \<le> count (mset xs) x" by (metis count_greater_eq_one_iff set_mset_mset)
    with assms [of x] have "count (mset xs) x = 1" by linarith
    with True show ?thesis by simp
  qed (simp add: count_eq_zero_iff)
qed

lemma live_mem: "finite (dom f) \<Longrightarrow> f j = Some (k, v) \<Longrightarrow> res v \<in># live res f"
  by (force simp: live_def image_iff dom_def)

lemma l_inv_safe:
  assumes "l_inv e cfg fr l"
  shows "memory_safe e cfg l"
proof -
  let ?w = "l_w l" and ?d = "dang (l_ts l)"
  let ?f = "mset (snd (w_cache ?w))" and ?c = "live bytecode (entries cfg ?w)"
  note p = l_inv_parts [OF assms]
  have "?f + ?c + ?d \<subseteq># owned cfg fr l" by (simp add: owned_def blocks_def)
  then have sub: "?f + ?c + ?d \<subseteq># allocated ?w" using p(2) by (rule subset_mset.order_trans)
  have cnt: "count ?f x + count ?c x + count ?d x \<le> 1" for x
    using mset_subset_eq_count [OF sub, of x] allocated_count [of ?w x] by simp
  have in_alloc: "x \<in> Some ` {..<length (w_mem ?w)}" if "x \<in># ?f + ?c + ?d" for x
    using mset_subset_eqD [OF sub that] by (auto simp: allocated_def)
  have "count ?f x \<le> 1" for x using cnt [of x] by linarith
  then have "distinct (snd (w_cache ?w))" by (rule distinct_of_count)
  moreover have "\<exists>a < length (w_mem ?w). bytecode v = Some a \<and> Some a \<notin> set (snd (w_cache ?w)) \<and>
      bytecode_size v = length (w_mem ?w ! a) \<and> made e cfg k (w_mem ?w ! a)" if ent: "entries cfg ?w j = Some (k, v)" for j k v
  proof -
    obtain a where a: "bytecode v = Some a" "a < length (w_mem ?w)" "bytecode_size v = length (w_mem ?w ! a)" "made e cfg k (w_mem ?w ! a)"
      using p(1) ent unfolding cache_inv_def entry_ok_def by blast
    have "0 < count ?c (Some a)" using live_mem [OF finite_entries that, of bytecode] a(1) by simp
    with cnt [of "Some a"] have "count ?f (Some a) = 0" by linarith
    then have "Some a \<notin> set (snd (w_cache ?w))" by (simp add: count_eq_zero_iff)
    with a show ?thesis by blast
  qed
  moreover have "a < length (w_mem ?w) \<and> Some a \<notin> set (snd (w_cache ?w)) \<and> (\<forall>j k v. entries cfg ?w j = Some (k, v) \<longrightarrow> bytecode v \<noteq> Some a)"
    if "ts_dangling_bytecode (l_ts l) = Some a" for a
  proof -
    have d: "count ?d (Some a) = 1" "Some a \<in># ?f + ?c + ?d" using that by (simp_all add: dang_def)
    with cnt [of "Some a"] have z: "count ?f (Some a) = 0" "count ?c (Some a) = 0" by auto
    have "bytecode v \<noteq> Some a" if "entries cfg ?w j = Some (k, v)" for j k v
      using live_mem [OF finite_entries that, of bytecode] z(2) by (auto simp: count_eq_zero_iff)
    with z(1) in_alloc [OF d(2)] show ?thesis by (auto simp: count_eq_zero_iff)
  qed
  ultimately show ?thesis using in_alloc by (auto simp: memory_safe_def Let_def)
qed

definition demo_start :: "(nat, string) listener" where
  "demo_start = \<lparr>l_ts = zeroed_ThreadState\<lparr>ts_rt := Some 0, ts_current_uuid := replicate 33 NUL\<rparr>, l_repl = None,
     l_sock = init_socket_state ''/tmp/a'', l_buf = replicate 16 NUL, l_w = demo_world\<rparr>"

lemma demo_start_ok: "listener_start demo_config demo_start"
  by (simp add: listener_start_def demo_start_def demo_config_def demo_world_def zeroed_ThreadState_def ts_idle_def MESSAGE_UUID_MAX_BYTES_def)

lemma cleanup_exit_status: "cleanup_thread_state ts w = (ts', w') \<Longrightarrow> ts_exit_status ts' = ts_exit_status ts"
  by (auto simp: cleanup_thread_state_def cleanup_command_state_def Let_def split: if_splits option.splits)

lemma destroy_inv:
  assumes "l_inv e cfg fr l"
  shows "\<exists>l'. destroy_thread_state l = Some (cleanup_socket_state (Some (l_sock l)), l') \<and> l_inv e cfg fr l' \<and> ts_rt (l_ts l') = None \<and>
    ts_exit_status (l_ts l') = ts_exit_status (l_ts l) \<and>
    (ts_rt (l_ts l) \<noteq> None \<longrightarrow> ts_dangling_bytecode (l_ts l') = None \<and> ts_cached_function_in_use (l_ts l') = None)"
proof -
  let ?rts = "ts_replacement_thread_state (l_ts l)"
  obtain l1 where l1: "(if ?rts = REPLACEMENT_THREAD_STATE_INIT_COMPLETE \<or> ?rts = REPLACEMENT_THREAD_STATE_CLEANUP
      then cleanup_old_runtime l else Some l) = Some l1" and inv1: "l_inv e cfg fr l1"
    and same: "ts_rt (l_ts l1) = ts_rt (l_ts l)" "l_sock l1 = l_sock l" "ts_exit_status (l_ts l1) = ts_exit_status (l_ts l)"
  proof (cases "?rts = REPLACEMENT_THREAD_STATE_INIT_COMPLETE \<or> ?rts = REPLACEMENT_THREAD_STATE_CLEANUP")
    case True
    then obtain old where old: "l_repl l = Some old" using assms by (auto simp: l_inv_def)
    obtain t w where "cleanup_thread_state old (l_w l) = (t, w)" by fastforce
    with old obtain l1 where c: "cleanup_old_runtime l = Some l1" "ts_exit_status (l_ts l1) = ts_exit_status (l_ts l)"
      by (simp add: cleanup_old_runtime_def)
    from cleanup_old_inv [OF c(1) assms] that [of l1] c True show ?thesis by simp
  qed (use assms that in auto)
  obtain ts' w' where c: "cleanup_thread_state (l_ts l1) (l_w l1) = (ts', w')" by fastforce
  let ?l = "l1\<lparr>l_ts := ts', l_w := w'\<rparr>"
  have "destroy_thread_state l = Some (cleanup_socket_state (Some (l_sock l)), ?l)"
    using l1 c same(2) by (simp add: destroy_thread_state_def Let_def)
  moreover have "l_inv e cfg fr ?l" by (rule cleanup_here_inv [OF c inv1 refl])
  moreover note ct = cleanup_thread_inv [OF c l_inv_parts(1,3) [OF inv1]]
  ultimately show ?thesis using ct same cleanup_exit_status [OF c] by (auto simp: dang_def split: option.splits)
qed


definition demo_socket_results :: socket_results where
  "demo_socket_results = \<lparr>sr_socket = 3, sr_fchmod = 0, sr_unlink = 0, sr_enoent = False, sr_bind = 0, sr_listen = 0, sr_chmod = 0, sun_path_size = 108\<rparr>"

lemma demo_loop:
  "\<exists>calls l'. command_loop demo_engine demo_config demo_socket_results 0 [(1, False)] 4 [Turn None 0 True []] demo_start = Some (1, calls, l')"
  by (simp add: command_loop_def initialize_and_listen_on_unix_socket_def demo_socket_results_def demo_start_def init_socket_state_def
      poll_fd_def demo_world_def command_loop_end_def tick_handler_def zeroed_ThreadState_def)


text \<open>
  The second line of a command in a listener that keeps the invariant: the query is what evaluating the
  script's own bytecode gives, found in the cache or compiled.
\<close>

lemma query_evaluates:
  assumes "l_inv e cfg fr l" "\<And>s j. fst (compile_script e s j) = compiled s"
    and "\<And>s. get_hash_cache_uid (xxh3 cfg) s = get_hash_cache_uid (xxh3 cfg) line \<Longrightarrow> compiled s \<noteq> None \<Longrightarrow> compiled s = compiled line"
    and "handle_line_2_query e cfg line l = Some (r, l')"
  shows "r = 0 \<and> (case compiled line of
      None \<Rightarrow> ts_compiled_query (l_ts l') = JS_EXCEPTION
    | Some bc \<Rightarrow> evaluates e cfg bc (l_buf l) (ts_compiled_query (l_ts l')))"
proof -
  let ?k = "get_hash_cache_uid (xxh3 cfg) line"
  have q: "quiescent (hash_bits cfg) (fst (w_cache (l_w l)))" using assms(1) by (simp add: l_inv_def cache_inv_def)
  show ?thesis
    using assms(4)
  proof (cases rule: line_2_cases)
    case (hit b c1 bc)
    note g = fc.get_Some [OF q hit(3)]
    then obtain v where v: "entries cfg (l_w l) b = Some (?k, v)" by blast
    moreover have "fc_entry (hash_bits cfg) c1 b = entries cfg (l_w l) b" "snd c1 = snd (w_cache (l_w l))" using g by simp_all
    ultimately have pay: "b_payload (fst c1 ! b) = v" by (auto simp: fc_entry_def split: if_splits)
    obtain a where a: "a < length (w_mem (l_w l))" "bytecode v = Some a" "bytecode_size v = length (w_mem (l_w l) ! a)"
      "made e cfg ?k (w_mem (l_w l) ! a)"
      using l_inv_safe [OF assms(1)] v unfolding memory_safe_def Let_def by blast
    have "bc = w_mem (l_w l) ! a" using hit(8) a pay by (auto simp: read_bytecode_def split: if_splits)
    moreover obtain s j j' where s: "get_hash_cache_uid (xxh3 cfg) s = ?k" "compile_script e s j = (Some (w_mem (l_w l) ! a), j')"
      using a(4) by (auto simp: made_def)
    moreover have "compiled s = Some (w_mem (l_w l) ! a)" using assms(2) [of s j] s(2) by simp
    ultimately have "compiled line = Some bc" using assms(3) [of s] by simp
    with hit(1,9) show ?thesis by simp
  next
    case (bad c1 j j1)
    have "compiled line = None" using assms(2) [of line j] bad(8) by simp
    with bad(1,9) show ?thesis by simp
  next
    case (miss bc c1 in_use c2 j j1)
    have "compiled line = Some bc" using assms(2) [of line j] miss(9) by simp
    with miss(1,10) show ?thesis by simp
  qed
qed

section \<open>What is never given back\<close>

text \<open>
  A cache hit references the entry but does not note it in \<open>cached_function_in_use\<close>, so the cleanup
  at the end of the command does not release it: the reference count stays one higher, and the
  entry can never be replaced again.
\<close>

lemma hit_keeps_reference:
  assumes "handle_line_2_query e cfg line l = Some (r, l')" "quiescent (hash_bits cfg) (fst (w_cache (l_w l)))"
    and "get_cached_function (hash_bits cfg) (w_cache (l_w l)) (get_hash_cache_uid (xxh3 cfg) line) = (Some b, c1)"
    and "ts_cached_function_in_use (l_ts l) = None" "cleanup_command_state (l_ts l') (l_w l') = (ts'', w'')"
  shows "fc_pins (hash_bits cfg) (w_cache w'') b = fc_pins (hash_bits cfg) (w_cache (l_w l)) b + 1"
proof -
  have "w_cache (l_w l') = c1" "ts_cached_function_in_use (l_ts l') = None"
    using assms(1) by (cases rule: line_2_cases; use assms(3,4) in auto)+
  moreover from this(2) have "fc_pins (hash_bits cfg) (w_cache w'') b = fc_pins (hash_bits cfg) (w_cache (l_w l')) b"
    using assms(5) by (auto simp: cleanup_command_state_def free_bytecode_def Let_def fc_pins_def split: option.splits)
  ultimately show ?thesis using fc.get_Some [OF assms(2,3)] by simp
qed

text \<open>
  A third line that is too long ends the command without the cleanup: its bytecode is not freed and
  its cache entry stays referenced. In a debug build the next command that needs bytecode of its own
  then fails an assertion.
\<close>

lemma long_parameter_skips_cleanup:
  assumes "line_truncated l = Some (r, l')" "ts_line_n (l_ts l) = 2"
  shows "ts_line_n (l_ts l') = 0 \<and> ts_dangling_bytecode (l_ts l') = ts_dangling_bytecode (l_ts l) \<and>
    ts_cached_function_in_use (l_ts l') = ts_cached_function_in_use (l_ts l)"
  using assms by (auto simp: line_truncated_def dest!: writev_to_stream_keeps)

lemma leftover_bytecode_fails_assert:
  assumes "debug cfg" "ts_dangling_bytecode (l_ts l) = Some a" "ts_rt (l_ts l) = Some j"
    and "get_cached_function (hash_bits cfg) (w_cache (l_w l)) (get_hash_cache_uid (xxh3 cfg) line) = (None, c1)"
    and "compile_script e line j = (Some bc, j1)"
    and "add_cached_function (hash_bits cfg) c1 (get_hash_cache_uid (xxh3 cfg) line)
      \<lparr>bytecode = Some (length (w_mem (l_w l))), bytecode_size = length bc\<rparr> = (None, c2)"
  shows "handle_line_2_query e cfg line l = None"
  using assms by (simp add: handle_line_2_query_def compile_buf_def Let_def)

end
