(* ===== verification/Listeners.thy ===== *)
theory Listeners
  imports Server_Safety
begin

text \<open>
  All listeners of a server: they share the world, with the bytecode cache in it, and take their steps in any
  order. What a listener owns is what it keeps from the others, so the invariant of each, with
  the blocks and buckets of the others as its surroundings, gives the invariant of the whole.
\<close>

section \<open>Listeners that share a world\<close>

abbreviation in_world :: "world \<Rightarrow> ('j, 'v) listener \<Rightarrow> ('j, 'v) listener" where
  "in_world w l \<equiv> l\<lparr>l_w := w\<rparr>"

text \<open>Any listener takes a step; the world it leaves is the world of all.\<close>

inductive any_serves ::
  "('j, 'v) engine \<Rightarrow> config \<Rightarrow> ('j, 'v) listener list \<times> world \<Rightarrow> ('j, 'v) listener list \<times> world \<Rightarrow> bool" for e cfg where
  any_serves: "i < length ls \<Longrightarrow> serve e cfg (in_world w (ls ! i)) l' \<Longrightarrow> any_serves e cfg (ls, w) (ls[i := l'], l_w l')"

inductive_cases any_servesE: "any_serves e cfg (ls, w) s"

definition private_blocks :: "('j, 'v) listener \<Rightarrow> nat option multiset" where
  "private_blocks l = dang (l_ts l) + (case l_repl l of None \<Rightarrow> {#} | Some t \<Rightarrow> dang t)"

definition buckets_of :: "('j, 'v) listener \<Rightarrow> nat set" where
  "buckets_of l = set_option (ts_cached_function_in_use (l_ts l)) \<union>
     (case l_repl l of None \<Rightarrow> {} | Some t \<Rightarrow> set_option (ts_cached_function_in_use t))"

definition others_of :: "('j, 'v) listener list \<Rightarrow> nat \<Rightarrow> others" where
  "others_of ls i =
     (sum_list (map private_blocks (take i ls @ drop (Suc i) ls)), \<Union>j \<in> {..<length ls} - {i}. buckets_of (ls ! j))"

definition all_inv :: "('j, 'v) engine \<Rightarrow> config \<Rightarrow> ('j, 'v) listener list \<times> world \<Rightarrow> bool" where
  "all_inv e cfg s \<longleftrightarrow> (\<forall>i < length (fst s). l_inv e cfg (others_of (fst s) i) (in_world (snd s) (fst s ! i)))"

lemma in_world_same [simp]: "private_blocks (in_world w l) = private_blocks l" "buckets_of (in_world w l) = buckets_of l"
  by (simp_all add: private_blocks_def buckets_of_def)

lemma owned_private: "owned cfg fr l = fst fr + blocks cfg (l_w l) + private_blocks l"
  by (simp add: owned_def private_blocks_def)

lemma others_of_update [simp]: "others_of (ls[i := l]) i = others_of ls i"
  by (simp add: others_of_def)

lemma others_private:
  assumes "i < length ls"
  shows "fst (others_of ls i) + private_blocks (ls ! i) = sum_list (map private_blocks ls)"
  by (subst (3) id_take_nth_drop [OF assms]) (simp add: others_of_def)

lemma others_buckets: "j < length ls \<Longrightarrow> i \<noteq> j \<Longrightarrow> buckets_of (ls ! j) \<subseteq> snd (others_of ls i)"
  by (auto simp: others_of_def)

text \<open>
  The rest of a listener's invariant survives what the others do to the world: entries may be replaced, but a
  bucket that is in use keeps an entry.
\<close>

lemma ts_inv_pinned:
  assumes "ts_inv cfg w ts" "pinned cfg w' B" "set_option (ts_cached_function_in_use ts) \<subseteq> B"
  shows "ts_inv cfg w' ts"
  using assms by (auto simp: ts_inv_def pinned_def)

lemma l_inv_transfer:
  assumes "l_inv e cfg fr0 (in_world w l)" "cache_inv e cfg w'" "owned cfg fr (in_world w' l) \<subseteq># allocated w'"
    "pinned cfg w' (snd fr)" "pinned cfg w' (buckets_of l)"
  shows "l_inv e cfg fr (in_world w' l)"
proof -
  have "ts_inv cfg w' (l_ts l)"
    using l_inv_parts(3) [OF assms(1)] assms(5) by (auto intro!: ts_inv_pinned [of cfg w "l_ts l" w' "buckets_of l"] simp: buckets_of_def)
  moreover have "ts_inv cfg w' t" if "l_repl l = Some t" for t
    using l_inv_parts(4) [OF assms(1), of t] assms(5) that
    by (auto intro!: ts_inv_pinned [of cfg w t w' "buckets_of l"] simp: buckets_of_def)
  ultimately show ?thesis using assms by (simp add: l_inv_def)
qed

lemma l_inv_buckets: "l_inv e cfg fr l \<Longrightarrow> pinned cfg (l_w l) (buckets_of l)"
  by (auto simp: l_inv_def ts_inv_def pinned_def buckets_of_def split: option.splits)

text \<open>A step of one listener that keeps its own invariant keeps that of all.\<close>

lemma all_inv_update:
  assumes "all_inv e cfg (ls, w)" "i < length ls" "l_inv e cfg (others_of ls i) l'"
  shows "all_inv e cfg (ls[i := l'], l_w l')"
  unfolding all_inv_def
proof (intro allI impI)
  fix j assume j: "j < length (fst (ls[i := l'], l_w l'))"
  let ?ls = "ls[i := l']"
  note p = l_inv_parts [OF assms(3)]
  have own: "fst (others_of ?ls j) + private_blocks (?ls ! j) = fst (others_of ls i) + private_blocks l'"
    using others_private [of j ?ls] others_private [of i ?ls] assms(2) j by simp
  have pins: "pinned cfg (l_w l') (buckets_of (?ls ! k))" if "k < length ls" for k
  proof (cases "k = i")
    case True
    then show ?thesis using l_inv_buckets [OF assms(3)] assms(2) by simp
  next
    case False
    then show ?thesis using p(5) others_buckets [of k ls i] that by (auto simp: pinned_def)
  qed
  show "l_inv e cfg (others_of (fst (?ls, l_w l')) j) (in_world (snd (?ls, l_w l')) (fst (?ls, l_w l') ! j))"
  proof (cases "j = i")
    case True
    then show ?thesis using assms(2,3) by simp
  next
    case False
    have "l_inv e cfg (others_of ls j) (in_world w (ls ! j))" using assms(1) j by (simp add: all_inv_def)
    then have "l_inv e cfg (others_of ?ls j) (in_world (l_w l') (ls ! j))"
    proof (rule l_inv_transfer)
      show "owned cfg (others_of ?ls j) (in_world (l_w l') (ls ! j)) \<subseteq># allocated (l_w l')"
      proof -
        have "owned cfg (others_of ?ls j) (in_world (l_w l') (ls ! j)) = owned cfg (others_of ls i) l'"
          using arg_cong [OF own, of "\<lambda>x. x + blocks cfg (l_w l')"] False by (simp add: owned_private ac_simps)
        then show ?thesis using p(2) by simp
      qed
      show "pinned cfg (l_w l') (snd (others_of ?ls j))"
        using pins by (auto simp: others_of_def pinned_def)
      show "pinned cfg (l_w l') (buckets_of (ls ! j))" using pins [of j] j False by simp
    qed (rule p(1))
    then show ?thesis using False by simp
  qed
qed

lemma any_serves_inv: "any_serves e cfg s s' \<Longrightarrow> all_inv e cfg s \<Longrightarrow> all_inv e cfg s'"
proof (induction rule: any_serves.induct)
  case (any_serves i ls w l')
  have "l_inv e cfg (others_of ls i) (in_world w (ls ! i))" using any_serves by (simp add: all_inv_def)
  from all_inv_update [OF any_serves(3,1) serve_inv [OF any_serves(2) this]] show ?case .
qed

lemma anys_serve_inv: "(any_serves e cfg)\<^sup>*\<^sup>* s s' \<Longrightarrow> all_inv e cfg s \<Longrightarrow> all_inv e cfg s'"
  by (induction rule: rtranclp_induct) (auto intro: any_serves_inv)

definition listeners_start :: "config \<Rightarrow> ('j, 'v) listener list \<Rightarrow> world \<Rightarrow> bool" where
  "listeners_start cfg ls w \<longleftrightarrow> list_all (\<lambda>l. listener_start cfg (in_world w l)) ls"

lemma all_start:
  assumes "listeners_start cfg ls w"
  shows "all_inv e cfg (ls, w)"
  unfolding all_inv_def
proof (intro allI impI)
  fix i assume i: "i < length (fst (ls, w))"
  have start: "listener_start cfg (in_world w l)" if "l \<in> set ls" for l
    using assms that by (simp add: listeners_start_def list_all_iff)
  have priv: "private_blocks l = {#}" "buckets_of l = {}" if "l \<in> set ls" for l
    using start [OF that] by (auto simp: listener_start_def private_blocks_def buckets_of_def ts_idle_def dang_def)
  have "sum_list (map private_blocks xs) = {#}" if "set xs \<subseteq> set ls" for xs
    using that priv by (induction xs) auto
  then have "others_of ls i = ({#}, {})"
    using priv(2) by (auto simp: others_of_def set_take_subset set_drop_subset)
  then show "l_inv e cfg (others_of (fst (ls, w)) i) (in_world (snd (ls, w)) (fst (ls, w) ! i))"
    using start_inv [OF start [of "ls ! i"]] i by simp
qed

section \<open>Properties\<close>

text \<open>The invariant of one listener, spelled out.\<close>

definition in_order :: "('j, 'v) engine \<Rightarrow> config \<Rightarrow> ('j, 'v) listener \<Rightarrow> bool" where
  "in_order e cfg l \<longleftrightarrow> memory_safe e cfg l \<and> ts_line_n (l_ts l) \<in> {0, 1, 2} \<and>
     length (ts_current_uuid (l_ts l)) = MESSAGE_UUID_MAX_BYTES + 1 \<and> ts_current_uuid_len (l_ts l) \<le> MESSAGE_UUID_MAX_BYTES \<and>
     (ts_replacement_thread_state (l_ts l) \<in> {REPLACEMENT_THREAD_STATE_INIT_COMPLETE, REPLACEMENT_THREAD_STATE_CLEANUP} \<longrightarrow> l_repl l \<noteq> None)"

lemma l_inv_in_order: "l_inv e cfg fr l \<Longrightarrow> in_order e cfg l"
  using l_inv_safe [of e cfg fr l] l_inv_bounds [of e cfg fr l] by (simp add: in_order_def l_inv_def)

lemma private_apart:
  assumes "all_inv e cfg (ls, w)" "i < length ls" "j < length ls" "i \<noteq> j"
    and "ts_dangling_bytecode (l_ts (ls ! i)) = Some a"
  shows "ts_dangling_bytecode (l_ts (ls ! j)) \<noteq> Some a"
proof
  assume d: "ts_dangling_bytecode (l_ts (ls ! j)) = Some a"
  have i: "l_inv e cfg (others_of ls i) (in_world w (ls ! i))" using assms(1,2) by (simp add: all_inv_def)
  let ?rest = "take i ls @ drop (Suc i) ls"
  have "ls ! j \<in> set ?rest"
    using assms(2-4) nth_mem [of j "take i ls"] nth_mem [of "j - Suc i" "drop (Suc i) ls"] by (cases "j < i") auto
  then have "private_blocks (ls ! j) \<subseteq># sum_list (map private_blocks ?rest)"
    by (metis (no_types, lifting) in_set_conv_decomp list.map(2) map_append mset_subset_eq_add_left mset_subset_eq_add_right
        subset_mset.order_trans sum_list.Cons sum_list_append)
  from mset_subset_eq_count [OF this, of "Some a"]
  have "1 \<le> count (sum_list (map private_blocks ?rest)) (Some a)" using d by (simp add: private_blocks_def dang_def)
  moreover have "1 \<le> count (private_blocks (ls ! i)) (Some a)" using assms(5) by (simp add: private_blocks_def dang_def)
  moreover have "count (owned cfg (others_of ls i) (in_world w (ls ! i))) (Some a) =
      count (sum_list (map private_blocks ?rest)) (Some a) + count (blocks cfg w) (Some a) + count (private_blocks (ls ! i)) (Some a)"
    by (simp add: owned_private others_of_def)
  moreover have "count (owned cfg (others_of ls i) (in_world w (ls ! i))) (Some a) \<le> 1"
    using mset_subset_eq_count [OF l_inv_parts(2) [OF i], of "Some a"] allocated_count [of w "Some a"] by simp
  ultimately show False by linarith
qed

text \<open>
  C2: Memory safety of the listeners. They start with an empty cache and nothing in flight, share the cache, and take
  steps in any order: lines, ticks, background threads, wake-ups, and whatever leaves their state alone. Then no
  block of bytecode has been freed twice and only allocated blocks have been freed; every cache entry
  points to the whole of a block that is allocated, not freed and holds the bytecode of a script with
  the key of the entry; the bytecode a command in flight has to free is allocated, not freed, in no entry, and that
  of no other listener; each line number is one of the three, each identifier fits its field, and a
  replacement exists whenever the state says so.
\<close>

theorem listeners_memory_safe:
  assumes "listeners_start cfg ls0 w0" "(any_serves e cfg)\<^sup>*\<^sup>* (ls0, w0) (ls, w)" "i < length ls"
  shows "in_order e cfg (in_world w (ls ! i)) \<and>
    (\<forall>a j. ts_dangling_bytecode (l_ts (ls ! i)) = Some a \<and> j < length ls \<and> j \<noteq> i \<longrightarrow> ts_dangling_bytecode (l_ts (ls ! j)) \<noteq> Some a)"
proof -
  have all: "all_inv e cfg (ls, w)" by (rule anys_serve_inv [OF assms(2) all_start [OF assms(1)]])
  then have "l_inv e cfg (others_of ls i) (in_world w (ls ! i))" using assms(3) by (simp add: all_inv_def)
  from l_inv_in_order [OF this] private_apart [OF all assms(3)] show ?thesis by auto
qed

lemma demo_listeners_start: "listeners_start demo_config [demo_start, demo_start] demo_world"
  using demo_start_ok by (simp add: listeners_start_def demo_start_def)

theorem listeners_memory_safe_witness:
  "\<exists>l. line_handler demo_engine demo_config ''?tsreset'' True demo_start = Some (0, l) \<and> ts_line_n (l_ts l) = 1 \<and>
     in_order demo_engine demo_config l \<and> in_order demo_engine demo_config (in_world (l_w l) demo_start)"
proof -
  obtain l where l: "line_handler demo_engine demo_config ''?tsreset'' True demo_start = Some (0, l)" "ts_line_n (l_ts l) = 1"
    by (simp add: line_handler_def line_truncated_def demo_start_def demo_world_def zeroed_ThreadState_def)
  have w: "in_world demo_world demo_start = demo_start" by (simp add: demo_start_def)
  have "any_serves demo_engine demo_config ([demo_start, demo_start], demo_world) ([demo_start, demo_start][0 := l], l_w l)"
    by (rule any_serves) (simp_all add: w serve_line [OF l(1)])
  then have s: "(any_serves demo_engine demo_config)\<^sup>*\<^sup>* ([demo_start, demo_start], demo_world) ([l, demo_start], l_w l)" by auto
  from listeners_memory_safe [OF demo_listeners_start s, of 0] listeners_memory_safe [OF demo_listeners_start s, of 1] l
  show ?thesis by simp
qed


text \<open>A hash function that separates the script \<open>f\<close> from all others.\<close>

definition demo_hash_config :: config where
  "demo_hash_config = demo_config\<lparr>xxh3 := (\<lambda>s. if s = ''f'' then (0, 1) else (0, 2))\<rparr>"

lemma demo_query:
  "\<exists>l'. handle_line_2_query demo_engine demo_hash_config ''f'' demo_start = Some (0, l')"
proof -
  have "get_cached_function 1 (fc_empty 1) 1 = (None, fc_empty 1)"
    "fst (add_cached_function 1 (fc_empty 1) 1 \<lparr>bytecode = Some 0, bytecode_size = 1\<rparr>) = Some 1"
    "snd (snd (add_cached_function 1 (fc_empty 1) 1 \<lparr>bytecode = Some 0, bytecode_size = 1\<rparr>)) = []"
    by code_simp+
  moreover obtain c where "add_cached_function 1 (fc_empty 1) 1 \<lparr>bytecode = Some 0, bytecode_size = 1\<rparr> = (Some 1, c)" "snd c = []"
    using calculation(2,3) by (metis prod.collapse)
  ultimately show ?thesis
    by (simp add: handle_line_2_query_def demo_start_def demo_hash_config_def demo_config_def demo_world_def zeroed_ThreadState_def
        get_hash_cache_uid_def compile_buf_def demo_engine_def read_bytecode_def func_from_bytecode_def query_done_def)
qed


end
