(* ===== verification/Threads.thy ===== *)
theory Threads
  imports Listeners Wait_Group
begin

text \<open>
  A listener thread between two points where it waits for the system: \<open>command_loop\<close> cut into its setup, its
  polls for a client and the turns of its read loop, so that the threads of a server can be
  interleaved. A thread that runs alone does exactly what \<open>command_loop\<close> does.
\<close>

section \<open>A thread by turns\<close>

text \<open>Where a thread is in \<open>command_loop\<close>; \<open>Absent\<close> before it was created.\<close>

datatype phase = Absent | Created | Accepting | Reading line_buf | Ended

text \<open>
  What happens to a thread: the results of setting up its socket and of the three calls of \<open>wait_group_inc\<close>; a poll for a
  client, with the descriptor \<open>accept\<close> gives; a turn of the read loop.
\<close>

datatype ('j, 'v) happening =
    Setup socket_results int int int
  | Poll_accept int bool int
  | Poll_stream "('j, 'v) turn"

definition loop_ends :: "('j, 'v) listener \<Rightarrow> socket_call list \<times> phase \<times> ('j, 'v) listener" where
  "loop_ends l = (case command_loop_end l of (calls, l') \<Rightarrow> (calls, Ended, l'))"

definition loop_fails :: "('j, 'v) listener \<Rightarrow> socket_call list \<times> phase \<times> ('j, 'v) listener" where
  "loop_fails l = loop_ends (l\<lparr>l_ts := (l_ts l)\<lparr>ts_exit_status := -1\<rparr>\<rparr>)"

definition loop_setup :: "socket_results \<Rightarrow> int \<Rightarrow> ('j, 'v) listener \<Rightarrow> socket_call list \<times> phase \<times> ('j, 'v) listener" where
  "loop_setup sr inc_r l =
     (case initialize_and_listen_on_unix_socket sr (l_sock l) of (r, ss) \<Rightarrow>
      if r \<noteq> 0 \<or> inc_r \<noteq> 0 then loop_fails (l\<lparr>l_sock := ss\<rparr>)
      else ([], Accepting, l\<lparr>l_sock := ss\<lparr>streamfd := -1\<rparr>\<rparr>))"

definition loop_accept :: "config \<Rightarrow> int \<Rightarrow> bool \<Rightarrow> int \<Rightarrow> ('j, 'v) listener \<Rightarrow> socket_call list \<times> phase \<times> ('j, 'v) listener" where
  "loop_accept cfg r intr accepted l =
     (case poll_fd r intr of
        GO_AROUND \<Rightarrow> ([], Accepting, l)
      | SIG_INTERRUPT_OR_ERROR \<Rightarrow> loop_ends l
      | READY \<Rightarrow>
          let l1 = l\<lparr>l_sock := (l_sock l)\<lparr>streamfd := accepted\<rparr>\<rparr> in
          if accepted < 0 then loop_fails l1
          else case clock_gettime (l_w l1) of
            (None, w1) \<Rightarrow> loop_fails (l1\<lparr>l_w := w1\<rparr>)
          | (Some now, w1) \<Rightarrow>
              let l2 = l1\<lparr>l_w := w1, l_ts := (l_ts l1)\<lparr>ts_last_active_time := now\<rparr>\<rparr>
              in ([], Reading \<lparr>lb_buf = l_buf l2, lb_size = input_buf_bytes cfg, lb_start = 0, lb_afsep = 0, lb_truncated = False, lb_n = 0\<rparr>, l2))"

definition loop_turn ::
  "('j, 'v) engine \<Rightarrow> config \<Rightarrow> ('j, 'v) turn \<Rightarrow> line_buf \<Rightarrow> ('j, 'v) listener
     \<Rightarrow> (socket_call list \<times> phase \<times> ('j, 'v) listener) option" where
  "loop_turn e cfg t b l = do {
     l0 \<leftarrow> (case background t of None \<Rightarrow> Some l | Some malloced \<Rightarrow> run_background e cfg malloced l);
     let l1 = tick_handler cfg l0;
     (case poll_fd (poll_ret t) (interrupted t) of
        GO_AROUND \<Rightarrow> Some ([], Reading b, l1)
      | SIG_INTERRUPT_OR_ERROR \<Rightarrow> Some (loop_ends l1)
      | READY \<Rightarrow> do {
          res \<leftarrow> read_round e cfg (reads t) b l1;
          Some (case res of Inl l2 \<Rightarrow> loop_ends l2 | Inr (b2, l2) \<Rightarrow> ([], Reading b2, l2))
        })
   }"

text \<open>
  The counter of the wait group goes down at the setup, once, whether it succeeds or not. \<open>None\<close> when
  the thread is not at this point.
\<close>

fun thread_turn ::
  "('j, 'v) engine \<Rightarrow> config \<Rightarrow> ('j, 'v) happening \<Rightarrow> int \<times> phase \<times> ('j, 'v) listener
     \<Rightarrow> (socket_call list \<times> int \<times> phase \<times> ('j, 'v) listener) option" where
  "thread_turn e cfg (Setup sr lock_r signal_r unlock_r) (n, Created, l) =
     (case wait_group_inc lock_r signal_r unlock_r n 1 of (inc_r, n', _) \<Rightarrow>
      case loop_setup sr inc_r l of (calls, ph, l') \<Rightarrow> Some (calls, n', ph, l'))"
| "thread_turn e cfg (Poll_accept r intr accepted) (n, Accepting, l) =
     (case loop_accept cfg r intr accepted l of (calls, ph, l') \<Rightarrow> Some (calls, n, ph, l'))"
| "thread_turn e cfg (Poll_stream t) (n, Reading b, l) =
     map_option (\<lambda>(calls, ph, l'). (calls, n, ph, l')) (loop_turn e cfg t b l)"
| "thread_turn e cfg _ _ = None"

primrec thread_run ::
  "('j, 'v) engine \<Rightarrow> config \<Rightarrow> ('j, 'v) happening list \<Rightarrow> int \<times> phase \<times> ('j, 'v) listener
     \<Rightarrow> (socket_call list \<times> int \<times> phase \<times> ('j, 'v) listener) option" where
  "thread_run e cfg [] s = Some ([], s)"
| "thread_run e cfg (h # hs) s = do {
     (calls, s1) \<leftarrow> thread_turn e cfg h s;
     (calls', s2) \<leftarrow> thread_run e cfg hs s1;
     Some (calls @ calls', s2)
   }"

section \<open>Alone it is the loop\<close>

lemma thread_run_append:
  "thread_run e cfg (xs @ ys) s = do {
     (c1, s1) \<leftarrow> thread_run e cfg xs s;
     (c2, s2) \<leftarrow> thread_run e cfg ys s1;
     Some (c1 @ c2, s2)
   }"
  by (induction xs arbitrary: s) (auto split: Option.bind_split)

lemma read_turns:
  "read_loop e cfg turns b l = Some l' \<Longrightarrow>
     \<exists>k. thread_run e cfg (map Poll_stream (take k turns)) (n, Reading b, l) =
       Some (fst (command_loop_end l'), n, Ended, snd (command_loop_end l'))"
proof (induction turns arbitrary: b l)
  case (Cons t turns)
  obtain l0 where bg: "(case background t of None \<Rightarrow> Some l | Some malloced \<Rightarrow> run_background e cfg malloced l) = Some l0"
    using Cons.prems by (auto simp: bind_eq_Some_conv)
  let ?l1 = "tick_handler cfg l0"
  have last_turn: ?case if "loop_turn e cfg t b l = Some (loop_ends l')"
    using that by (intro exI [of _ 1]) (simp add: loop_ends_def split: prod.split)
  have more: ?case if one: "loop_turn e cfg t b l = Some ([], Reading b2, l2)" and rest: "read_loop e cfg turns b2 l2 = Some l'" for b2 l2
  proof -
    obtain k where "thread_run e cfg (map Poll_stream (take k turns)) (n, Reading b2, l2) =
        Some (fst (command_loop_end l'), n, Ended, snd (command_loop_end l'))" using Cons.IH [OF rest] by blast
    then show ?thesis using one by (intro exI [of _ "Suc k"]) simp
  qed
  show ?case
  proof (cases "poll_fd (poll_ret t) (interrupted t)")
    case READY
    then obtain res where res: "read_round e cfg (reads t) b ?l1 = Some res"
      and nxt: "(case res of Inl l2 \<Rightarrow> Some l2 | Inr (b2, l2) \<Rightarrow> read_loop e cfg turns b2 l2) = Some l'"
      using Cons.prems bg by (auto simp: bind_eq_Some_conv Let_def)
    show ?thesis
    proof (cases res)
      case (Inl l2)
      then show ?thesis using last_turn READY res nxt bg by (simp add: loop_turn_def Let_def)
    next
      case (Inr p)
      then obtain b2 l2 where "res = Inr (b2, l2)" by (cases p) simp
      then show ?thesis using more [of b2 l2] READY res nxt bg by (simp add: loop_turn_def Let_def)
    qed
  next
    case GO_AROUND
    then show ?thesis using more [of b ?l1] Cons.prems bg by (simp add: loop_turn_def Let_def)
  next
    case SIG_INTERRUPT_OR_ERROR
    then show ?thesis using last_turn Cons.prems bg by (simp add: loop_turn_def Let_def)
  qed
qed simp

text \<open>The polls for a client: all but the last go around.\<close>

lemma accept_turns:
  "accept_loop polls = Some ready \<Longrightarrow> \<exists>k r intr. poll_fd r intr = (if ready then READY else SIG_INTERRUPT_OR_ERROR) \<and>
     thread_run e cfg (map (\<lambda>(r, intr). Poll_accept r intr accepted) (take k polls)) (n, Accepting, l) =
       thread_turn e cfg (Poll_accept r intr accepted) (n, Accepting, l)"
proof (induction polls rule: accept_loop.induct)
  case (2 r intr polls)
  show ?case
  proof (cases "poll_fd r intr")
    case GO_AROUND
    then obtain k r' intr' where "poll_fd r' intr' = (if ready then READY else SIG_INTERRUPT_OR_ERROR)"
      "thread_run e cfg (map (\<lambda>(r, intr). Poll_accept r intr accepted) (take k polls)) (n, Accepting, l) =
        thread_turn e cfg (Poll_accept r' intr' accepted) (n, Accepting, l)"
      using 2 by auto
    with GO_AROUND show ?thesis
      by (intro exI [of _ "Suc k"] exI [of _ r'] exI [of _ intr']) (auto simp: loop_accept_def split: Option.bind_split)
  qed (use 2 in \<open>intro exI [of _ 1] exI [of _ r] exI [of _ intr], auto split: prod.split\<close>)+
qed simp

lemma wait_group_inc_counter: "\<exists>r sig. wait_group_inc lock_r signal_r unlock_r n k = (r, n - k, sig)"
  by (auto simp: wait_group_inc_def Let_def)

lemma loop_ends_end: "loop_ends l = (fst (command_loop_end l), Ended, snd (command_loop_end l))"
  by (simp add: loop_ends_def split: prod.split)

text \<open>The loop from the point where it waits for a client.\<close>

definition after_setup ::
  "('j, 'v) engine \<Rightarrow> config \<Rightarrow> (int \<times> bool) list \<Rightarrow> int \<Rightarrow> ('j, 'v) turn list \<Rightarrow> ('j, 'v) listener
     \<Rightarrow> (socket_call list \<times> ('j, 'v) listener) option" where
  "after_setup e cfg polls accepted turns l = do {
     ready \<leftarrow> accept_loop polls;
     case loop_accept cfg (if ready then 1 else 0) (\<not> ready) accepted l of
       (calls, Reading b, l4) \<Rightarrow> map_option command_loop_end (read_loop e cfg turns b l4)
     | (calls, _, l4) \<Rightarrow> Some (calls, l4)
   }"

lemma command_loop_setup:
  assumes "command_loop e cfg sr inc_r polls accepted turns l = Some (m, calls, l')"
  shows "loop_setup sr inc_r l = (calls, Ended, l') \<or>
    (\<exists>l2. loop_setup sr inc_r l = ([], Accepting, l2) \<and> after_setup e cfg polls accepted turns l2 = Some (calls, l'))"
proof -
  obtain r ss where i: "initialize_and_listen_on_unix_socket sr (l_sock l) = (r, ss)" by fastforce
  show ?thesis
  proof (cases "r \<noteq> 0 \<or> inc_r \<noteq> 0")
    case True
    then show ?thesis
      using assms i by (auto simp: command_loop_def loop_setup_def loop_fails_def loop_ends_end Let_def split: if_splits prod.splits)
  next
    case False
    have ready: "poll_fd 1 False = READY" "poll_fd 0 True = SIG_INTERRUPT_OR_ERROR" by (simp_all add: poll_fd_def)
    let ?l2 = "l\<lparr>l_sock := ss\<lparr>streamfd := -1\<rparr>\<rparr>"
    note run = assms [unfolded command_loop_def Let_def i prod.case]
    obtain rd where rd: "accept_loop polls = Some rd" using run False by (auto simp: bind_eq_Some_conv)
    have "after_setup e cfg polls accepted turns ?l2 = Some (calls, l')"
    proof (cases "rd \<and> \<not> accepted < 0")
      case no: False
      then show ?thesis
        using run False rd by (cases rd) (auto simp: after_setup_def loop_accept_def loop_fails_def loop_ends_end ready Let_def)
    next
      case ok: True
      show ?thesis
      proof (cases "w_clock (l_w l) (w_tick (l_w l))")
        case None
        then show ?thesis
          using run False rd ok by (auto simp: after_setup_def loop_accept_def loop_fails_def loop_ends_end ready Let_def)
      next
        case (Some now)
        then show ?thesis
          using run False rd ok by (auto simp: after_setup_def loop_accept_def ready Let_def bind_eq_Some_conv)
      qed
    qed
    then show ?thesis using i False by (simp add: loop_setup_def)
  qed
qed



section \<open>Turns are steps of the listener\<close>

fun sized :: "('j, 'v) happening \<Rightarrow> bool" where
  "sized (Poll_stream t) \<longleftrightarrow> well_sized [t]"
| "sized _ \<longleftrightarrow> True"

lemma loop_ends_serves: "(serve e cfg)\<^sup>*\<^sup>* l m \<Longrightarrow> loop_ends m = (calls, ph, l') \<Longrightarrow> (serve e cfg)\<^sup>*\<^sup>* l l'"
  using serve_end [of e cfg m] by (auto simp: loop_ends_end intro: rtranclp.rtrancl_into_rtrancl)

lemma loop_fails_serves: "(serve e cfg)\<^sup>*\<^sup>* l m \<Longrightarrow> loop_fails m = (calls, ph, l') \<Longrightarrow> (serve e cfg)\<^sup>*\<^sup>* l l'"
  unfolding loop_fails_def by (rule loop_ends_serves) (erule rtranclp.rtrancl_into_rtrancl, rule serve_exit)

lemma sock_serves: "(serve e cfg)\<^sup>*\<^sup>* l (l\<lparr>l_sock := ss\<rparr>)"
  by (rule r_into_rtranclp) (rule serve_sock)

lemma loop_accept_serves:
  assumes "loop_accept cfg r intr accepted l = (calls, ph, l')"
  shows "(serve e cfg)\<^sup>*\<^sup>* l l'"
proof (cases "poll_fd r intr")
  case READY
  let ?l1 = "l\<lparr>l_sock := (l_sock l)\<lparr>streamfd := accepted\<rparr>\<rparr>"
  have clock: "(serve e cfg)\<^sup>*\<^sup>* l (?l1\<lparr>l_w := (l_w l)\<lparr>w_tick := w_tick (l_w l) + 1\<rparr>, l_ts := (l_ts l)\<lparr>ts_last_active_time := t\<rparr>\<rparr>)" for t
  proof (rule rtranclp.rtrancl_into_rtrancl [OF sock_serves])
    show "serve e cfg ?l1 (?l1\<lparr>l_w := (l_w l)\<lparr>w_tick := w_tick (l_w l) + 1\<rparr>, l_ts := (l_ts l)\<lparr>ts_last_active_time := t\<rparr>\<rparr>)"
      by (rule serve_equality [OF _ serve_clock [where n = "w_tick (l_w l) + 1" and t = t]]) simp
  qed
  have still: "(serve e cfg)\<^sup>*\<^sup>* l (?l1\<lparr>l_w := (l_w l)\<lparr>w_tick := w_tick (l_w l) + 1\<rparr>\<rparr>)"
    using clock [of "ts_last_active_time (l_ts l)"] by simp
  show ?thesis
    using assms READY loop_fails_serves [OF sock_serves, where calls = calls and ph = ph and l' = l']
      loop_fails_serves [OF still, where calls = calls and ph = ph and l' = l'] clock
    by (auto simp: loop_accept_def Let_def split: if_splits option.splits)
qed (use assms loop_ends_serves [OF rtranclp.rtrancl_refl] in \<open>auto simp: loop_accept_def\<close>)

lemma loop_turn_serves:
  assumes "loop_turn e cfg t b l = Some (calls, ph, l')" "well_sized [t]"
  shows "(serve e cfg)\<^sup>*\<^sup>* l l' \<and> ph \<notin> {Absent, Created}"
proof -
  obtain l0 where bg: "(case background t of None \<Rightarrow> Some l | Some malloced \<Rightarrow> run_background e cfg malloced l) = Some l0"
    using assms(1) by (auto simp: loop_turn_def bind_eq_Some_conv)
  note 1 = turn_start_serves [OF bg assms(2)]
  show ?thesis
  proof (cases "poll_fd (poll_ret t) (interrupted t)")
    case READY
    then obtain res where res: "read_round e cfg (reads t) b (tick_handler cfg l0) = Some res"
      "(calls, ph, l') = (case res of Inl l2 \<Rightarrow> loop_ends l2 | Inr (b2, l2) \<Rightarrow> ([], Reading b2, l2))"
      using assms(1) bg by (auto simp: loop_turn_def bind_eq_Some_conv Let_def)
    note 2 = rtranclp_trans [OF 1 read_round_serves [OF res(1)]]
    show ?thesis
    proof (cases res)
      case (Inl l2)
      then show ?thesis using 2 res(2) loop_ends_serves [OF 2, of calls ph l'] by (simp add: loop_ends_end)
    next
      case (Inr p)
      then show ?thesis using 2 res(2) by (cases p) simp
    qed
  qed (use assms(1) bg 1 loop_ends_serves [OF 1] in \<open>auto simp: loop_turn_def loop_ends_end Let_def\<close>)
qed

lemma thread_turn_serves:
  assumes "thread_turn e cfg h (n, ph, l) = Some (calls, n', ph', l')" "sized h"
  shows "(serve e cfg)\<^sup>*\<^sup>* l l' \<and> ph \<notin> {Absent, Ended} \<and> ph' \<notin> {Absent, Created} \<and> n' = (if ph = Created then n - 1 else n)"
proof (cases h)
  case (Setup sr lock_r signal_r unlock_r)
  obtain inc_r sig where inc: "wait_group_inc lock_r signal_r unlock_r n 1 = (inc_r, n - 1, sig)"
    using wait_group_inc_counter by blast
  then have c: "ph = Created" "loop_setup sr inc_r l = (calls, ph', l')" "n' = n - 1"
    using assms(1) Setup by (cases ph; auto split: prod.splits)+
  have "(serve e cfg)\<^sup>*\<^sup>* l l'"
    using c(2) loop_fails_serves [OF sock_serves, where calls = calls and ph = ph' and l' = l'] sock_serves
    by (auto simp: loop_setup_def split: prod.splits if_splits)
  moreover have "ph' \<notin> {Absent, Created}" using c(2) by (auto simp: loop_setup_def loop_fails_def loop_ends_end split: prod.splits if_splits)
  ultimately show ?thesis using c by simp
next
  case (Poll_accept r intr accepted)
  then have c: "ph = Accepting" "loop_accept cfg r intr accepted l = (calls, ph', l')" "n' = n"
    using assms(1) by (cases ph; auto split: prod.splits)+
  have "ph' \<notin> {Absent, Created}" using c(2)
    by (auto simp: loop_accept_def loop_fails_def loop_ends_end Let_def split: PollFdResult.splits if_splits option.splits)
  with loop_accept_serves [OF c(2)] c show ?thesis by simp
next
  case (Poll_stream t)
  then obtain b where c: "ph = Reading b" "loop_turn e cfg t b l = Some (calls, ph', l')" "n' = n"
    using assms(1) by (cases ph) auto
  with loop_turn_serves [OF c(2)] assms(2) Poll_stream c show ?thesis by simp
qed

end
