(* ===== verification/Program.thy ===== *)
theory Program
  imports Threads Module_File
begin

text \<open>
  The program: \<open>main\<close>, the signal handler and what surrounds the listeners in \<open>main.c\<close>. The arrays
  of thread states, sockets and input buffers are lists, an index beyond them makes the run \<open>None\<close>. From its
  creation on, a listener thread takes its turns (\<open>Threads\<close>) in any order with the others and with the
  steps of \<open>main\<close>: a schedule says which thread takes which turn.
\<close>

section \<open>Signals and environment\<close>

definition SIGINT :: int where "SIGINT = 2"
definition SIGTERM :: int where "SIGTERM = 15"

record signal_state =
  already_called :: int
  g_sig_triggered :: int
  sig_interrupted :: bool

definition SIGINT_and_SIGTERM_handler :: "int \<Rightarrow> signal_state \<Rightarrow> signal_state" where
  "SIGINT_and_SIGTERM_handler sig s =
     (let n = already_called s; s1 = s\<lparr>already_called := n + 1\<rparr>
      in if n > 0 then s1 else s1\<lparr>g_sig_triggered := sig, sig_interrupted := True\<rparr>)"

definition set_log_prefix :: "string option \<Rightarrow> string option \<Rightarrow> string option" where
  "set_log_prefix env g_log_prefix =
     (case env of None \<Rightarrow> g_log_prefix
      | Some lp \<Rightarrow> if lp \<noteq> [] \<and> NL \<notin> set lp \<and> CHR 0x0D \<notin> set lp then Some lp else g_log_prefix)"

definition CACHED_FUNCTIONS_HASH_BITS_DEBUG :: nat where
  "CACHED_FUNCTIONS_HASH_BITS_DEBUG = 6"

text \<open>The number of hash bits, \<open>None\<close> for an override that is not valid.\<close>

definition cached_function_hash_bits :: "bool \<Rightarrow> string option \<Rightarrow> nat option" where
  "cached_function_hash_bits dbg override =
     (if \<not> dbg then Some CACHED_FUNCTIONS_HASH_BITS_RELEASE
      else case override of None \<Rightarrow> Some CACHED_FUNCTIONS_HASH_BITS_DEBUG
      | Some s \<Rightarrow>
          if s = [] then Some CACHED_FUNCTIONS_HASH_BITS_DEBUG
          else case strtoll s of (v, rest, erange) \<Rightarrow>
            if rest \<noteq> [] \<or> v < 1 \<or> v > 64 \<or> v > int CACHED_FUNCTIONS_HASH_BITS_DEBUG \<or> v > 2 ^ 31 - 1 then None
            else Some (nat v))"

section \<open>Modes\<close>

datatype strip_flags = Strip_nothing | JS_STRIP_DEBUG | JS_STRIP_SOURCE

datatype main_mode =
    Print_version
  | Eval_mode
  | Compile_module string "string option" string strip_flags
  | Output_keys string
  | Serve

definition main_mode_of :: "CmdArgs \<Rightarrow> main_mode" where
  "main_mode_of c =
     (if version c then Print_version
      else if eval c then Eval_mode
      else case mod_to_compile c of
        Some m \<Rightarrow> Compile_module m (private_key_file c) (the (mod_output_file c))
          (case compile_opts c of COMPILE_OPTS_STRIP_DEBUG \<Rightarrow> JS_STRIP_DEBUG
           | COMPILE_OPTS_STRIP_SOURCE \<Rightarrow> JS_STRIP_SOURCE | COMPILE_OPTS_NONE \<Rightarrow> Strip_nothing)
      | None \<Rightarrow> (case key_file_prefix c of Some p \<Rightarrow> Output_keys p | None \<Rightarrow> Serve))"

text \<open>
  The files a server maps: the module, which has to load, and the source map, without
  which it goes on. \<open>map_file\<close> is \<open>mmap_file\<close> for each name.
\<close>

definition load_globals ::
  "string \<Rightarrow> (byte list \<Rightarrow> byte list \<Rightarrow> byte list \<Rightarrow> bool) \<Rightarrow> byte list \<Rightarrow> string option \<Rightarrow> (string \<Rightarrow> (int, byte list) sum) \<Rightarrow> config
     \<Rightarrow> config option" where
  "load_globals VERSION ed25519_verify junk env_pubkey map_file cfg =
     (let source_map = (case source_map_file (g_cmd_args cfg) of
            None \<Rightarrow> []
          | Some f \<Rightarrow> (case map_file f of Inl e \<Rightarrow> [] | Inr bytes \<Rightarrow> map (\<lambda>b. char_of (unat b)) bytes));
          cfg1 = cfg\<lparr>g_source_map := source_map, g_n_threads := n_sockets (g_cmd_args cfg)\<rparr>
      in case es6_module_bytecode_file (g_cmd_args cfg) of
        None \<Rightarrow> Some (cfg1\<lparr>g_module_bytecode := None\<rparr>)
      | Some f \<Rightarrow>
          (case load_module_bytecode (debug cfg) VERSION ed25519_verify junk env_pubkey (map_file f) of
             Inl e \<Rightarrow> None
           | Inr (bytes, n) \<Rightarrow> Some (cfg1\<lparr>g_module_bytecode := Some (take n bytes)\<rparr>)))"

section \<open>The server around its listeners\<close>

datatype mapping = Module_mapping | Source_map_mapping

datatype main_call = Munmap mapping nat | Socket_calls "socket_call list" | Free_input_buffer nat | Wait_group_destroy | Ready nat

record ('j, 'v) program =
  p_ts :: "('j, 'v) ThreadState list"
  p_repl :: "('j, 'v) ThreadState option list"
  p_sock :: "SocketState list"
  p_buf :: "char list list"
  p_phase :: "phase list"
  p_remaining :: int
  p_w :: world
  p_calls :: "main_call list"

abbreviation did :: "main_call list \<Rightarrow> ('j, 'v) program \<Rightarrow> ('j, 'v) program" where
  "did calls p \<equiv> p\<lparr>p_calls := p_calls p @ calls\<rparr>"

definition n_threads :: "config \<Rightarrow> nat" where
  "n_threads cfg = min (n_sockets (g_cmd_args cfg)) MAX_THREADS"

text \<open>The arrays as \<open>calloc\<close> gives them.\<close>

definition calloc_program :: "config \<Rightarrow> world \<Rightarrow> ('j, 'v) program" where
  "calloc_program cfg w =
     \<lparr>p_ts = replicate (n_threads cfg) zeroed_ThreadState, p_repl = replicate (n_threads cfg) None,
      p_sock = replicate (n_threads cfg) \<lparr>unix_socket_filename = [], sockfd = 0, streamfd = 0, stream_io_err = 0, sun_path = []\<rparr>,
      p_buf = replicate (n_threads cfg) [], p_phase = replicate (n_threads cfg) Absent, p_remaining = 0, p_w = w, p_calls = []\<rparr>"

definition listener_at :: "nat \<Rightarrow> ('j, 'v) program \<Rightarrow> ('j, 'v) listener" where
  "listener_at i p = \<lparr>l_ts = p_ts p ! i, l_repl = p_repl p ! i, l_sock = p_sock p ! i, l_buf = p_buf p ! i, l_w = p_w p\<rparr>"

definition put_listener :: "nat \<Rightarrow> ('j, 'v) listener \<Rightarrow> ('j, 'v) program \<Rightarrow> ('j, 'v) program" where
  "put_listener i l p = p\<lparr>p_ts := (p_ts p)[i := l_ts l], p_repl := (p_repl p)[i := l_repl l], p_sock := (p_sock p)[i := l_sock l],
     p_buf := (p_buf p)[i := l_buf l], p_w := l_w l\<rparr>"

text \<open>The length given to \<open>munmap\<close> is that of the bytecode and the signature.\<close>

definition unmap_module :: "config \<Rightarrow> ('j, 'v) program \<Rightarrow> ('j, 'v) program" where
  "unmap_module cfg p =
     (case g_module_bytecode cfg of
        None \<Rightarrow> p
      | Some m \<Rightarrow> if m \<noteq> [] then did [Munmap Module_mapping (length m + ED25519_SIGNATURE_SIZE)] p else p)"

definition unmap_source_map :: "config \<Rightarrow> ('j, 'v) program \<Rightarrow> ('j, 'v) program" where
  "unmap_source_map cfg p =
     (if g_source_map cfg \<noteq> [] \<and> \<not> source_map_unmapped (p_w p)
      then did [Munmap Source_map_mapping (length (g_source_map cfg))] p else p)"

definition global_cleanup :: "config \<Rightarrow> ('j, 'v) program \<Rightarrow> ('j, 'v) program" where
  "global_cleanup cfg p =
     (let c = w_cache (p_w p); freed = map (\<lambda>b. bytecode (b_payload b)) (fst c)
      in unmap_source_map cfg (unmap_module cfg
           (did [Wait_group_destroy] (p\<lparr>p_w := (p_w p)\<lparr>w_cache := (fst c, snd c @ freed)\<rparr>\<rparr>))))"

text \<open>
  Thread \<open>i\<close> takes a turn. The counter of the wait group, \<open>p_remaining\<close>, is shared by the threads and \<open>main\<close>.
\<close>

type_synonym ('j, 'v) schedule = "(nat \<times> ('j, 'v) happening) list"

definition program_turn :: "('j, 'v) engine \<Rightarrow> config \<Rightarrow> nat \<times> ('j, 'v) happening \<Rightarrow> ('j, 'v) program \<Rightarrow> ('j, 'v) program option" where
  "program_turn e cfg ih p =
     (case ih of (i, h) \<Rightarrow>
      if i < length (p_ts p) then do {
        (calls, n, ph, l) \<leftarrow> thread_turn e cfg h (p_remaining p, p_phase p ! i, listener_at i p);
        Some (did [Socket_calls calls] ((put_listener i l p)\<lparr>p_phase := (p_phase p)[i := ph], p_remaining := n\<rparr>))
      } else None)"

primrec run_schedule :: "('j, 'v) engine \<Rightarrow> config \<Rightarrow> ('j, 'v) schedule \<Rightarrow> ('j, 'v) program \<Rightarrow> ('j, 'v) program option" where
  "run_schedule e cfg [] p = Some p"
| "run_schedule e cfg (ih # sched) p = do {
     p1 \<leftarrow> program_turn e cfg ih p;
     run_schedule e cfg sched p1
   }"

text \<open>
  The loop that sets up the threads, \<open>k\<close> of them left: \<open>thread_init_n\<close>, whether all were created, and the program. The results
  for each thread are those of \<open>pthread_attr_init\<close>, \<open>pthread_attr_setstacksize\<close> and \<open>pthread_create\<close>, with the turns
  the threads take once this one was created.
\<close>

primrec init_threads ::
  "('j, 'v) engine \<Rightarrow> config \<Rightarrow> (nat \<Rightarrow> int \<times> int \<times> int \<times> ('j, 'v) schedule) \<Rightarrow> nat \<Rightarrow> nat \<Rightarrow> ('j, 'v) program
     \<Rightarrow> (nat \<times> bool \<times> ('j, 'v) program) option" where
  "init_threads e cfg results 0 i p = Some (i, True, p)"
| "init_threads e cfg results (Suc k) i p = do {
     let (attr_r, stack_r, create_r, sched) = results i;
     (r, ts, w) \<leftarrow> init_thread_state e cfg i (p_ts p ! i) (p_w p);
     let p1 = p\<lparr>p_ts := (p_ts p)[i := ts], p_sock := (p_sock p)[i := init_socket_state (socket_path (g_cmd_args cfg) ! i)],
                p_buf := (p_buf p)[i := replicate (input_buf_bytes cfg) NUL], p_w := w\<rparr>;
     if r \<noteq> 0 then Some (i, False, unmap_module cfg p1)
     else if attr_r \<noteq> 0 then Some (i, False, p1)
     else if stack_r \<noteq> 0 then Some (i, False, p1)
     else if create_r \<noteq> 0 then Some (i, False, p1)
     else do {
       p2 \<leftarrow> run_schedule e cfg sched (p1\<lparr>p_phase := (p_phase p1)[i := Created]\<rparr>);
       init_threads e cfg results k (i + 1) p2
     }
   }"

text \<open>The counters \<open>main\<close> loads each time it is woken, with the turns the threads take in between.\<close>

primrec seen :: "('j, 'v) engine \<Rightarrow> config \<Rightarrow> ('j, 'v) schedule list \<Rightarrow> ('j, 'v) program \<Rightarrow> (int list \<times> ('j, 'v) program) option" where
  "seen e cfg [] p = Some ([], p)"
| "seen e cfg (sched # scheds) p = do {
     p1 \<leftarrow> run_schedule e cfg sched p;
     (ns, p2) \<leftarrow> seen e cfg scheds p1;
     Some (p_remaining p1 # ns, p2)
   }"

text \<open>
  What the system answers while \<open>main\<close> runs, and the turns the threads take: the five results of
  \<open>wait_group_init\<close>; those of setting up each thread; for the wait, the results of locking and unlocking, the clock, the result
  of each \<open>pthread_cond_timedwait\<close> for a deadline and the turns during it; for each join the
  turns before it returns, its result and the block the replacement thread allocates; the signal that was caught.
\<close>

record ('j, 'v) main_script =
  s_wait_init :: "int \<times> int \<times> int \<times> int \<times> int"
  s_threads :: "nat \<Rightarrow> int \<times> int \<times> int \<times> ('j, 'v) schedule"
  s_lock :: int
  s_now :: "timespec option"
  s_timedwait :: "timespec \<Rightarrow> int list"
  s_meanwhile :: "('j, 'v) schedule list"
  s_unlock :: int
  s_join :: "nat \<Rightarrow> ('j, 'v) schedule \<times> int \<times> ('j, 'v) ThreadState"
  s_sig :: int

text \<open>The threads are created and \<open>main\<close> waits for them: \<open>thread_init_n\<close> and whether all are ready.\<close>

definition start_threads ::
  "('j, 'v) engine \<Rightarrow> config \<Rightarrow> ('j, 'v) main_script \<Rightarrow> ('j, 'v) program \<Rightarrow> (nat \<times> bool \<times> ('j, 'v) program) option" where
  "start_threads e cfg s p = do {
     (thread_init_n, all_created, p1) \<leftarrow> init_threads e cfg (s_threads s) (n_threads cfg) 0 p;
     if \<not> all_created then Some (thread_init_n, False, p1)
     else do {
       (ns, p2) \<leftarrow> seen e cfg (s_meanwhile s) p1;
       (wait_r, held) \<leftarrow> wait_group_timed_wait (Timedwait (s_now s) (\<lambda>deadline. zip (s_timedwait s deadline) ns)) 10000000000
         (s_lock s) (s_unlock s) (p_remaining p1);
       Some (thread_init_n, wait_r = 0, p2)
     }
   }"

definition destroy_at :: "nat \<Rightarrow> ('j, 'v) program \<Rightarrow> ('j, 'v) program option" where
  "destroy_at i p =
     (if i < length (p_ts p) then do {
        (calls, l) \<leftarrow> destroy_thread_state (listener_at i p);
        Some (did [Socket_calls calls] (put_listener i l p))
      } else None)"

text \<open>The two loops that destroy the thread states: after an error the buffer is freed first.\<close>

primrec thread_init_error :: "nat list \<Rightarrow> ('j, 'v) program \<Rightarrow> ('j, 'v) program option" where
  "thread_init_error [] p = Some p"
| "thread_init_error (i # is) p = do {
     p1 \<leftarrow> destroy_at i (did [Free_input_buffer i] p);
     thread_init_error is p1
   }"

primrec destroy_threads :: "nat list \<Rightarrow> ('j, 'v) program \<Rightarrow> ('j, 'v) program option" where
  "destroy_threads [] p = Some p"
| "destroy_threads (i # is) p = do {
     p1 \<leftarrow> destroy_at i p;
     destroy_threads is (did [Free_input_buffer i] p1)
   }"

text \<open>
  The joins: \<open>pthread_join\<close> returns 0 once the thread has ended; the replacement thread that may still be running
  is joined after it.
\<close>

primrec join_threads ::
  "('j, 'v) engine \<Rightarrow> config \<Rightarrow> (nat \<Rightarrow> ('j, 'v) schedule \<times> int \<times> ('j, 'v) ThreadState) \<Rightarrow> nat list \<Rightarrow> ('j, 'v) program
     \<Rightarrow> ('j, 'v) program option" where
  "join_threads e cfg joins [] p = Some p"
| "join_threads e cfg joins (i # is) p = do {
     let (sched, join_r, malloced) = joins i;
     p1 \<leftarrow> run_schedule e cfg sched p;
     if \<not> i < length (p_ts p1) then None
     else if join_r \<noteq> 0 then join_threads e cfg joins is p1
     else if p_phase p1 ! i \<noteq> Ended then None
     else if ts_replacement_thread_state (p_ts p1 ! i) \<noteq> REPLACEMENT_THREAD_STATE_NONE then do {
       l \<leftarrow> run_background e cfg malloced (listener_at i p1);
       join_threads e cfg joins is (put_listener i l p1)
     }
     else join_threads e cfg joins is p1
   }"

text \<open>The server part of \<open>main\<close>: the exit status and the program at the end.\<close>

definition server_main ::
  "('j, 'v) engine \<Rightarrow> config \<Rightarrow> ('j, 'v) main_script \<Rightarrow> ('j, 'v) program \<Rightarrow> (int \<times> ('j, 'v) program) option" where
  "server_main e cfg s p =
     (case s_wait_init s of (attr_init, setclock, cond_init, attr_destroy, mutex_init) \<Rightarrow>
      case wait_group_init attr_init setclock cond_init attr_destroy mutex_init (int (n_threads cfg)) of (r, n) \<Rightarrow>
      if r \<noteq> 0 then Some (1, global_cleanup cfg (unmap_module cfg p))
      else do {
        n_waiting_for \<leftarrow> n;
        (thread_init_n, all_ready, p1) \<leftarrow> start_threads e cfg s (p\<lparr>p_remaining := n_waiting_for\<rparr>);
        if \<not> all_ready then do {
          p2 \<leftarrow> thread_init_error [0 ..< thread_init_n + 1] p1;
          Some (1, global_cleanup cfg p2)
        }
        else do {
          p2 \<leftarrow> join_threads e cfg (s_join s) [0 ..< g_n_threads cfg] (did [Ready (n_threads cfg)] p1);
          p3 \<leftarrow> destroy_threads [0 ..< g_n_threads cfg] p2;
          let p4 = global_cleanup cfg p3;
          if debug cfg \<and> g_new_thread_state_count (p_w p4) \<noteq> 0 then Some (1, p4)
          else if list_ex (\<lambda>ts. ts_exit_status ts \<noteq> 0) (p_ts p4) then Some (1, p4)
          else if s_sig s \<noteq> 0 \<and> s_sig s \<noteq> SIGTERM then Some (1, p4)
          else Some (0, p4)
        }
      })"

section \<open>Dispatch\<close>

text \<open>\<open>main\<close>: the exit status, with the four modes that do work as arguments.\<close>

definition main_dispatch ::
  "(string \<Rightarrow> string) \<Rightarrow> (string \<Rightarrow> string) \<Rightarrow> bool \<Rightarrow> string option \<Rightarrow> (CmdArgs \<Rightarrow> nat \<Rightarrow> int) \<Rightarrow>
     (string \<Rightarrow> string option \<Rightarrow> string \<Rightarrow> strip_flags \<Rightarrow> int) \<Rightarrow> (string \<Rightarrow> int) \<Rightarrow> (CmdArgs \<Rightarrow> nat \<Rightarrow> int) \<Rightarrow> string list \<Rightarrow> int" where
  "main_dispatch basename usage dbg override eval_f compile_f keys_f serve_f argv =
     (case parse_cmd_args basename usage argv of
        Inl messages \<Rightarrow> 1
      | Inr c \<Rightarrow>
          (case cached_function_hash_bits dbg override of
             None \<Rightarrow> 1
           | Some bits \<Rightarrow>
               (case main_mode_of c of
                  Print_version \<Rightarrow> 0
                | Eval_mode \<Rightarrow> eval_f c bits
                | Compile_module m key_file out strip \<Rightarrow> compile_f m key_file out strip
                | Output_keys key_prefix \<Rightarrow> keys_f key_prefix
                | Serve \<Rightarrow> serve_f c bits)))"

section \<open>What a shutdown frees\<close>

text \<open>The bytecode of the buckets is the bytecode of the entries.\<close>

lemma buckets_live:
  assumes "quiescent n (fst c)" "fc_clean n c"
  shows "mset (filter (\<lambda>x. x \<noteq> None) (map (\<lambda>b. bytecode (b_payload b)) (fst c))) \<subseteq># live bytecode (fc_entry n c)"
proof -
  let ?g = "\<lambda>j. bytecode (b_payload (fst c ! j))"
  have len: "length (fst c) = 2 ^ n" using assms(1) by (simp add: quiescent_def)
  have buckets: "map (\<lambda>b. bytecode (b_payload b)) (fst c) = map ?g [0 ..< 2 ^ n]"
    by (rule nth_equalityI) (simp_all add: len)
  have dom: "dom (fc_entry n c) = {j. j < 2 ^ n \<and> b_uid (fst c ! j) \<noteq> 0}" by (auto simp: fc_entry_def split: if_splits)
  have live: "live bytecode (fc_entry n c) = image_mset ?g (mset_set (dom (fc_entry n c)))"
    unfolding live_def by (rule image_mset_cong) (use finite_entries [of n c] in \<open>auto simp: fc_entry_def split: if_splits\<close>)
  have "{j \<in> {0 ..< 2 ^ n}. ?g j \<noteq> None} \<subseteq> dom (fc_entry n c)" using assms(2) dom by (auto simp: fc_clean_def)
  then have "mset_set {j \<in> {0 ..< 2 ^ n}. ?g j \<noteq> None} \<subseteq># mset_set (dom (fc_entry n c))"
    by (rule subset_imp_msubset_mset_set) (rule finite_entries)
  then have "image_mset ?g (mset_set {j \<in> {0 ..< 2 ^ n}. ?g j \<noteq> None}) \<subseteq># live bytecode (fc_entry n c)"
    unfolding live by (rule image_mset_subseteq_mono)
  moreover have "mset (filter (\<lambda>x. x \<noteq> None) (map ?g [0 ..< 2 ^ n])) = image_mset ?g (mset_set {j \<in> {0 ..< 2 ^ n}. ?g j \<noteq> None})"
  proof -
    have "mset (filter (\<lambda>j. ?g j \<noteq> None) [0 ..< 2 ^ n]) = mset_set (set (filter (\<lambda>j. ?g j \<noteq> None) [0 ..< 2 ^ n]))"
      by (rule mset_set_set [symmetric]) simp
    then show ?thesis by (simp add: filter_map o_def)
  qed
  ultimately show ?thesis unfolding buckets by simp
qed

lemma shutdown_frees:
  assumes "l_inv e cfg fr l"
  shows "distinct (filter (\<lambda>x. x \<noteq> None) (snd (w_cache (l_w l)) @ map (\<lambda>b. bytecode (b_payload b)) (fst (w_cache (l_w l)))))"
proof (rule distinct_of_count)
  fix x
  let ?c = "w_cache (l_w l)" and ?P = "\<lambda>x. x \<noteq> (None :: nat option)"
  have ci: "quiescent (hash_bits cfg) (fst ?c)" "fc_clean (hash_bits cfg) ?c" using assms by (simp_all add: l_inv_def cache_inv_def)
  have "mset (filter ?P (snd ?c)) \<subseteq># mset (snd ?c)" by (simp add: mset_filter)
  then have "mset (filter ?P (snd ?c @ map (\<lambda>b. bytecode (b_payload b)) (fst ?c))) \<subseteq># blocks cfg (l_w l)"
    using buckets_live [OF ci] unfolding blocks_def filter_append mset_append by (rule subset_mset.add_mono)
  also have "\<dots> \<subseteq># owned cfg fr l" by (simp add: owned_def)
  also have "\<dots> \<subseteq># allocated (l_w l)" by (rule l_inv_parts(2) [OF assms])
  finally show "count (mset (filter ?P (snd ?c @ map (\<lambda>b. bytecode (b_payload b)) (fst ?c)))) x \<le> 1"
    using mset_subset_eq_count [of _ "allocated (l_w l)" x] allocated_count [of "l_w l" x] by (meson order_trans)
qed

lemma unmap_same:
  "p_w (unmap_module cfg p) = p_w p" "p_ts (unmap_module cfg p) = p_ts p" "listener_at i (unmap_module cfg p) = listener_at i p"
  "p_repl (unmap_module cfg p) = p_repl p" "p_sock (unmap_module cfg p) = p_sock p" "p_buf (unmap_module cfg p) = p_buf p"
  "p_phase (unmap_module cfg p) = p_phase p" "p_remaining (unmap_module cfg p) = p_remaining p"
  "p_w (unmap_source_map cfg p) = p_w p" "p_ts (unmap_source_map cfg p) = p_ts p"
  by (auto simp: unmap_module_def unmap_source_map_def listener_at_def split: option.splits)

lemma unmap_ready:
  "Ready n \<in> set (p_calls (unmap_module cfg p)) \<longleftrightarrow> Ready n \<in> set (p_calls p)"
  "Ready n \<in> set (p_calls (unmap_source_map cfg p)) \<longleftrightarrow> Ready n \<in> set (p_calls p)"
  by (auto simp: unmap_module_def unmap_source_map_def split: option.splits)

lemma global_cleanup_effect:
  "w_cache (p_w (global_cleanup cfg p)) =
     (fst (w_cache (p_w p)), snd (w_cache (p_w p)) @ map (\<lambda>b. bytecode (b_payload b)) (fst (w_cache (p_w p))))"
  "p_ts (global_cleanup cfg p) = p_ts p"
  "Ready n \<in> set (p_calls (global_cleanup cfg p)) \<longleftrightarrow> Ready n \<in> set (p_calls p)"
  by (simp_all add: global_cleanup_def Let_def unmap_same unmap_ready)

text \<open>What is left after the cleanup: nothing is freed twice, and everything the cache holds is freed.\<close>

definition all_freed_once :: "('j, 'v) program \<Rightarrow> bool" where
  "all_freed_once p \<longleftrightarrow> distinct (filter (\<lambda>x. x \<noteq> None) (snd (w_cache (p_w p)))) \<and>
     (\<forall>b \<in> set (fst (w_cache (p_w p))). bytecode (b_payload b) \<in> set (snd (w_cache (p_w p))))"

lemma global_cleanup_frees:
  assumes "l_inv e cfg fr l" "p_w p = l_w l"
  shows "all_freed_once (global_cleanup cfg p)"
  unfolding all_freed_once_def global_cleanup_effect
  using shutdown_frees [OF assms(1)] assms(2) by auto

text \<open>The listeners of a program with \<open>n\<close> threads.\<close>

definition listeners :: "nat \<Rightarrow> ('j, 'v) program \<Rightarrow> ('j, 'v) listener list" where
  "listeners n p = map (\<lambda>i. listener_at i p) [0 ..< n]"

definition shape :: "nat \<Rightarrow> ('j, 'v) program \<Rightarrow> bool" where
  "shape n p \<longleftrightarrow> length (p_ts p) = n \<and> length (p_repl p) = n \<and> length (p_sock p) = n \<and> length (p_buf p) = n \<and> length (p_phase p) = n"

definition program_inv :: "('j, 'v) engine \<Rightarrow> config \<Rightarrow> nat \<Rightarrow> ('j, 'v) program \<Rightarrow> bool" where
  "program_inv e cfg n p \<longleftrightarrow> shape n p \<and> all_inv e cfg (listeners n p, p_w p)"

lemma length_listeners [simp]: "length (listeners n p) = n"
  by (simp add: listeners_def)

lemma program_inv_did [simp]: "program_inv e cfg n (did calls p) = program_inv e cfg n p"
  by (simp add: program_inv_def shape_def listeners_def listener_at_def)

lemma others_of_world: "others_of (map (in_world w) ls) i = others_of ls i"
  by (auto simp: others_of_def take_map drop_map o_def)

lemma all_inv_world: "all_inv e cfg (map (in_world w') ls, w) = all_inv e cfg (ls, w)"
  by (simp add: all_inv_def others_of_world)

lemma listeners_put:
  assumes "shape n p" "i < n"
  shows "listeners n (put_listener i l p) = map (in_world (l_w l)) ((listeners n p)[i := l])"
  using assms by (intro nth_equalityI) (auto simp: listeners_def listener_at_def put_listener_def shape_def nth_list_update)

lemma program_inv_put:
  assumes "program_inv e cfg n p" "i < n" "\<And>fr. l_inv e cfg fr (listener_at i p) \<Longrightarrow> l_inv e cfg fr l"
  shows "program_inv e cfg n (put_listener i l p)"
proof -
  have all: "all_inv e cfg (listeners n p, p_w p)" and sh: "shape n p" using assms(1) by (simp_all add: program_inv_def)
  have at: "in_world (p_w p) (listeners n p ! i) = listener_at i p" using assms(2) by (simp add: listeners_def listener_at_def)
  then have "l_inv e cfg (others_of (listeners n p) i) (listener_at i p)" using all assms(2) by (auto simp: all_inv_def)
  from all_inv_update [OF all _ assms(3) [OF this]] assms(2)
  have "all_inv e cfg ((listeners n p)[i := l], l_w l)" by simp
  moreover have "shape n (put_listener i l p)" "p_w (put_listener i l p) = l_w l" using sh by (simp_all add: shape_def put_listener_def)
  ultimately show ?thesis by (simp add: program_inv_def listeners_put [OF sh assms(2)] all_inv_world)
qed

lemma program_frees:
  assumes "program_inv e cfg n p" "0 < n"
  shows "all_freed_once (global_cleanup cfg p)"
proof -
  have "l_inv e cfg (others_of (listeners n p) 0) (in_world (p_w p) (listeners n p ! 0))"
    using assms by (simp add: program_inv_def all_inv_def)
  from global_cleanup_frees [OF this, of p] show ?thesis by simp
qed

text \<open>The thread states that have no runtime.\<close>

definition gone :: "nat set \<Rightarrow> ('j, 'v) program \<Rightarrow> bool" where
  "gone I p \<longleftrightarrow> (\<forall>i \<in> I. i < length (p_ts p) \<longrightarrow> ts_rt (p_ts p ! i) = None)"

text \<open>What the steps of a shutdown keep: the invariant and what was reported; a destroyed state stays destroyed.\<close>

definition ready_calls :: "('j, 'v) program \<Rightarrow> nat set" where
  "ready_calls p = {k. Ready k \<in> set (p_calls p)}"

lemma destroy_at_inv:
  assumes "program_inv e cfg n p" "destroy_at i p = Some p'" "gone I p"
  shows "program_inv e cfg n p' \<and> gone (insert i I) p' \<and> ready_calls p' = ready_calls p"
proof -
  have i: "i < n" using assms(1,2) by (auto simp: destroy_at_def program_inv_def shape_def split: if_splits)
  obtain calls l where d: "destroy_thread_state (listener_at i p) = Some (calls, l)" and p': "p' = did [Socket_calls calls] (put_listener i l p)"
    using assms(2) by (auto simp: destroy_at_def bind_eq_Some_conv split: if_splits)
  have inv: "l_inv e cfg fr l" "ts_rt (l_ts l) = None" if "l_inv e cfg fr (listener_at i p)" for fr
    using destroy_inv [OF that] d by auto
  have "program_inv e cfg n (put_listener i l p)" by (rule program_inv_put [OF assms(1) i inv(1)])
  moreover have "ts_rt (l_ts l) = None"
  proof (rule inv(2))
    show "l_inv e cfg (others_of (listeners n p) i) (listener_at i p)"
      using assms(1) i by (simp add: program_inv_def all_inv_def) (simp add: listeners_def listener_at_def)
  qed
  then have "gone (insert i I) p'"
    using assms(1,3) p' i by (auto simp: gone_def put_listener_def program_inv_def shape_def nth_list_update)
  moreover have "ready_calls p' = ready_calls p" using p' by (auto simp: ready_calls_def put_listener_def)
  ultimately show ?thesis using p' by simp
qed

lemma gone_did [simp]: "gone I (did calls p) = gone I p"
  by (simp add: gone_def)

lemma gone_mono: "gone I p \<Longrightarrow> J \<subseteq> I \<Longrightarrow> gone J p"
  by (auto simp: gone_def)

lemma ready_calls_free [simp]: "ready_calls (did [Free_input_buffer i] p) = ready_calls p"
  by (auto simp: ready_calls_def)

lemma thread_init_error_inv:
  "thread_init_error is p = Some p' \<Longrightarrow> program_inv e cfg n p \<Longrightarrow> gone I p \<Longrightarrow>
     program_inv e cfg n p' \<and> gone (set is \<union> I) p' \<and> ready_calls p' = ready_calls p"
proof (induction "is" arbitrary: p I)
  case (Cons i "is")
  obtain p1 where p1: "destroy_at i (did [Free_input_buffer i] p) = Some p1" "thread_init_error is p1 = Some p'"
    using Cons.prems(1) by (auto simp: bind_eq_Some_conv)
  have d: "program_inv e cfg n p1 \<and> gone (insert i I) p1 \<and> ready_calls p1 = ready_calls p"
    using destroy_at_inv [OF _ p1(1), of e cfg n I] Cons.prems(2,3) by simp
  then show ?case using Cons.IH [OF p1(2), of "insert i I"] by simp
qed simp

lemma destroy_threads_inv:
  "destroy_threads is p = Some p' \<Longrightarrow> program_inv e cfg n p \<Longrightarrow> gone I p \<Longrightarrow>
     program_inv e cfg n p' \<and> gone (set is \<union> I) p' \<and> ready_calls p' = ready_calls p"
proof (induction "is" arbitrary: p I)
  case (Cons i "is")
  obtain p1 where p1: "destroy_at i p = Some p1" "destroy_threads is (did [Free_input_buffer i] p1) = Some p'"
    using Cons.prems(1) by (auto simp: bind_eq_Some_conv)
  from destroy_at_inv [OF Cons.prems(2) p1(1) Cons.prems(3)] Cons.IH [OF p1(2), of "insert i I"] show ?case by simp
qed simp

text \<open>The threads that have not reported, and those that were not set up: they are as \<open>calloc\<close> left them.\<close>

definition unreported :: "phase \<Rightarrow> bool" where
  "unreported ph \<longleftrightarrow> ph = Absent \<or> ph = Created"

definition untouched :: "nat \<Rightarrow> nat \<Rightarrow> ('j, 'v) program \<Rightarrow> bool" where
  "untouched n i p \<longleftrightarrow> (\<forall>j < n. i \<le> j \<longrightarrow> p_ts p ! j = zeroed_ThreadState \<and> p_repl p ! j = None \<and> p_phase p ! j = Absent)"

text \<open>What every turn keeps, with the counter of the wait group: it is the number of threads that have not reported.\<close>

definition running :: "('j, 'v) engine \<Rightarrow> config \<Rightarrow> nat \<Rightarrow> nat \<Rightarrow> ('j, 'v) program \<Rightarrow> bool" where
  "running e cfg n i p \<longleftrightarrow>
     program_inv e cfg n p \<and> untouched n i p \<and> p_remaining p = int (how_many unreported (p_phase p))"

lemma running_did [simp]: "running e cfg n i (did calls p) = running e cfg n i p"
  by (simp add: running_def untouched_def)

lemma running_parts:
  "running e cfg n i p \<Longrightarrow> program_inv e cfg n p" "running e cfg n i p \<Longrightarrow> shape n p"
  "running e cfg n i p \<Longrightarrow> gone {i ..< n} p"
  by (auto simp: running_def program_inv_def gone_def untouched_def zeroed_ThreadState_def shape_def)

lemma program_inv_same:
  assumes "program_inv e cfg n p" "p_ts q = p_ts p" "p_repl q = p_repl p" "p_sock q = p_sock p" "p_buf q = p_buf p" "p_w q = p_w p"
    "length (p_phase q) = n"
  shows "program_inv e cfg n q"
  using assms by (simp add: program_inv_def shape_def listeners_def listener_at_def)

lemma running_unmap [simp]: "running e cfg n i (unmap_module cfg' p) = running e cfg n i p"
  by (simp add: running_def untouched_def program_inv_def shape_def listeners_def unmap_same)

text \<open>What a turn may do to the phases: a thread that exists goes on, and one that has ended stays so.\<close>

definition goes_on :: "phase list \<Rightarrow> phase list \<Rightarrow> bool" where
  "goes_on phs phs' \<longleftrightarrow> length phs' = length phs \<and>
     (\<forall>j < length phs. (unreported (phs' ! j) \<longrightarrow> unreported (phs ! j)) \<and> (phs ! j = Ended \<longrightarrow> phs' ! j = Ended))"

lemma goes_on_refl [simp]: "goes_on phs phs"
  by (simp add: goes_on_def)

lemma goes_on_trans: "goes_on a b \<Longrightarrow> goes_on b c \<Longrightarrow> goes_on a c"
  by (simp add: goes_on_def)

lemma program_turn_running:
  assumes "program_turn e cfg (i, h) p = Some p'" "running e cfg n k p" "sized h"
  shows "running e cfg n k p' \<and> ready_calls p' = ready_calls p \<and> goes_on (p_phase p) (p_phase p') \<and> p_remaining p' \<le> p_remaining p"
proof -
  have sh: "shape n p" by (rule running_parts(2) [OF assms(2)])
  obtain calls m ph l where i: "i < n" and t: "thread_turn e cfg h (p_remaining p, p_phase p ! i, listener_at i p) = Some (calls, m, ph, l)"
    and p': "p' = did [Socket_calls calls] ((put_listener i l p)\<lparr>p_phase := (p_phase p)[i := ph], p_remaining := m\<rparr>)"
    using assms(1) sh by (auto simp: program_turn_def shape_def bind_eq_Some_conv split: if_splits)
  note s = thread_turn_serves [OF t assms(3)]
  have len: "i < length (p_phase p)" using i sh by (simp add: shape_def)
  have ki: "i < k"
    using s i assms(2) by (auto simp: running_def untouched_def intro: leI)
  have "program_inv e cfg n (put_listener i l p)"
    using s by (intro program_inv_put [OF running_parts(1) [OF assms(2)] i]) (auto intro: serves_inv)
  then have "program_inv e cfg n p'" by (rule program_inv_same) (use p' sh in \<open>simp_all add: shape_def\<close>)
  moreover have "untouched n k p'" using assms(2) ki p' by (simp add: running_def untouched_def put_listener_def)
  moreover have "p_remaining p' = int (how_many unreported (p_phase p'))"
    using how_many_update [OF len, of unreported ph] s assms(2) p' by (auto simp: running_def unreported_def split: if_splits)
  moreover have "ready_calls p' = ready_calls p" using p' by (auto simp: ready_calls_def put_listener_def)
  moreover have "goes_on (p_phase p) ((p_phase p)[i := ph])"
    unfolding goes_on_def using s len by (simp add: nth_list_update unreported_def)
  then have "goes_on (p_phase p) (p_phase p')" using p' by simp
  moreover have "p_remaining p' \<le> p_remaining p" using s p' by simp
  ultimately show ?thesis by (simp add: running_def)
qed

abbreviation sized_schedule :: "('j, 'v) schedule \<Rightarrow> bool" where
  "sized_schedule \<equiv> list_all (\<lambda>(i, h). sized h)"

lemma run_schedule_running:
  "run_schedule e cfg sched p = Some p' \<Longrightarrow> running e cfg n k p \<Longrightarrow> sized_schedule sched \<Longrightarrow>
     running e cfg n k p' \<and> ready_calls p' = ready_calls p \<and> goes_on (p_phase p) (p_phase p') \<and> p_remaining p' \<le> p_remaining p"
proof (induction sched arbitrary: p)
  case (Cons ih sched)
  obtain i h where ih: "ih = (i, h)" by (rule prod.exhaust)
  obtain p1 where p1: "program_turn e cfg (i, h) p = Some p1" "run_schedule e cfg sched p1 = Some p'"
    using Cons.prems(1) ih by (auto simp: bind_eq_Some_conv)
  note t = program_turn_running [OF p1(1) Cons.prems(2)]
  from t Cons.IH [OF p1(2)] Cons.prems(3) ih show ?case by (auto intro: goes_on_trans)
qed simp

lemma seen_running:
  "seen e cfg scheds p = Some (ns, p') \<Longrightarrow> running e cfg n k p \<Longrightarrow> list_all sized_schedule scheds \<Longrightarrow>
     running e cfg n k p' \<and> ready_calls p' = ready_calls p \<and> (\<forall>m \<in> set (p_remaining p # ns). p_remaining p' \<le> m)"
proof (induction scheds arbitrary: p ns)
  case (Cons sched scheds)
  obtain p1 ms where p1: "run_schedule e cfg sched p = Some p1" "seen e cfg scheds p1 = Some (ms, p')" "ns = p_remaining p1 # ms"
    using Cons.prems(1) by (auto simp: bind_eq_Some_conv)
  note r = run_schedule_running [OF p1(1) Cons.prems(2)]
  from r Cons.IH [OF p1(2)] Cons.prems(3) p1(3) show ?case by (auto intro: order_trans)
qed simp

text \<open>A thread is set up: it was untouched, so its listener only wakes.\<close>

lemma running_setup:
  assumes "running e cfg n i p" "i < n" "init_thread_state e cfg i (p_ts p ! i) (p_w p) = Some (r, ts, w)"
  shows "running e cfg n (i + 1) (p\<lparr>p_ts := (p_ts p)[i := ts], p_sock := (p_sock p)[i := s], p_buf := (p_buf p)[i := m], p_w := w\<rparr>)"
    (is "running e cfg n (i + 1) ?p")
proof -
  have z: "p_ts p ! i = zeroed_ThreadState" "p_repl p ! i = None" and sh: "shape n p"
    using assms(1,2) running_parts(2) [OF assms(1)] by (auto simp: running_def untouched_def)
  let ?l = "listener_at i p"
  let ?l1 = "?l\<lparr>l_ts := ts, l_repl := None, l_w := w\<rparr>"
  have "serve e cfg ?l ?l1"
    using assms(3) z by (intro serve_wake [where i = i and r = r]) (simp_all add: listener_at_def zeroed_ThreadState_def)
  then have keeps: "l_inv e cfg fr (?l1\<lparr>l_sock := s, l_buf := m\<rparr>)" if "l_inv e cfg fr ?l" for fr
    using serve_inv [OF serve_buf [of e cfg "?l1\<lparr>l_sock := s\<rparr>"] serve_inv [OF serve_sock serve_inv [OF _ that]]] by simp
  have "?p = put_listener i (?l1\<lparr>l_sock := s, l_buf := m\<rparr>) p"
    using list_update_id [of "p_repl p" i] z(2) by (simp add: put_listener_def listener_at_def)
  then have "program_inv e cfg n ?p" using program_inv_put [OF running_parts(1) [OF assms(1)] assms(2) keeps] by simp
  then show ?thesis using assms(1) by (simp add: running_def untouched_def)
qed

lemma running_created:
  assumes "running e cfg n (i + 1) p" "i < n" "p_phase p ! i = Absent"
  shows "running e cfg n (i + 1) (p\<lparr>p_phase := (p_phase p)[i := Created]\<rparr>)"
proof -
  have "i < length (p_phase p)" using running_parts(2) [OF assms(1)] assms(2) by (simp add: shape_def)
  from how_many_update [OF this, of unreported Created] assms running_parts(1,2) [OF assms(1)] show ?thesis
    by (auto simp: running_def untouched_def unreported_def shape_def intro: program_inv_same)
qed

lemma running_calloc:
  assumes "hash_bits cfg < 64" "w_cache w = fc_empty (hash_bits cfg)" "n = n_threads cfg"
  shows "running e cfg n 0 (calloc_program cfg w\<lparr>p_remaining := int n\<rparr>)"
proof -
  let ?p = "calloc_program cfg w\<lparr>p_remaining := int n\<rparr>"
  have "listeners_start cfg (listeners n ?p) (p_w ?p)"
    using assms by (auto simp: listeners_start_def list_all_length listeners_def listener_at_def calloc_program_def listener_start_def
        ts_idle_def zeroed_ThreadState_def)
  then have "program_inv e cfg n ?p" using all_start assms(3) by (auto simp: program_inv_def shape_def calloc_program_def)
  then show ?thesis using assms(3) by (simp add: running_def untouched_def calloc_program_def how_many_def unreported_def)
qed

lemma init_threads_running:
  assumes "\<And>i. sized_schedule (snd (snd (snd (results i))))"
  shows "init_threads e cfg results k i p = Some (m, ok, p') \<Longrightarrow> i + k = n \<Longrightarrow> running e cfg n i p \<Longrightarrow>
     running e cfg n (m + 1) p' \<and> ready_calls p' = ready_calls p \<and> (ok \<longrightarrow> m = n \<and> running e cfg n n p')"
proof (induction k arbitrary: i p)
  case 0
  then show ?case by (auto simp: running_def untouched_def)
next
  case (Suc k)
  obtain a s c sched where res: "results i = (a, s, c, sched)" by (cases "results i")
  obtain r ts w where i: "init_thread_state e cfg i (p_ts p ! i) (p_w p) = Some (r, ts, w)"
    using Suc.prems(1) res by (auto simp: bind_eq_Some_conv)
  let ?p = "p\<lparr>p_ts := (p_ts p)[i := ts], p_sock := (p_sock p)[i := init_socket_state (socket_path (g_cmd_args cfg) ! i)],
    p_buf := (p_buf p)[i := replicate (input_buf_bytes cfg) NUL], p_w := w\<rparr>"
  have lt: "i < n" using Suc.prems(2) by simp
  have st: "running e cfg n (i + 1) ?p" by (rule running_setup [OF Suc.prems(3) lt i])
  have unmapped: "running e cfg n (i + 1) (unmap_module cfg ?p)" "ready_calls (unmap_module cfg ?p) = ready_calls p"
    using st by (simp_all add: ready_calls_def unmap_ready)
  show ?case
  proof (cases "r = 0 \<and> a = 0 \<and> s = 0 \<and> c = 0")
    case True
    let ?c = "?p\<lparr>p_phase := (p_phase ?p)[i := Created]\<rparr>"
    obtain p2 where p2: "run_schedule e cfg sched ?c = Some p2" "init_threads e cfg results k (i + 1) p2 = Some (m, ok, p')"
      using Suc.prems(1) res i True by (auto simp: bind_eq_Some_conv Let_def)
    have "p_phase ?p ! i = Absent" using Suc.prems(3) lt by (simp add: running_def untouched_def)
    from running_created [OF st lt this] have cr: "running e cfg n (i + 1) ?c" .
    have "sized_schedule sched" using assms [of i] res by simp
    note r = run_schedule_running [OF p2(1) cr this]
    have "ready_calls ?c = ready_calls p" by (simp add: ready_calls_def)
    with r Suc.IH [OF p2(2)] Suc.prems(2) show ?thesis by simp
  next
    case False
    then have "\<not> ok \<and> m = i \<and> (p' = ?p \<or> p' = unmap_module cfg ?p)"
      using Suc.prems(1) res i by (auto simp: Let_def split: if_splits)
    then show ?thesis using st unmapped by (auto simp: ready_calls_def)
  qed
qed

text \<open>The wait succeeds only when no thread is left that has not reported.\<close>

lemma wait_rounds_seen:
  "wait_rounds (zip rs ns) n = Some (0, m) \<Longrightarrow> \<forall>x \<in> set (n # ns). low \<le> x \<Longrightarrow> low \<le> (0 :: int)"
proof (induction ns arbitrary: rs n)
  case (Cons x ns)
  then show ?case by (cases rs) (auto split: if_splits)
qed (auto split: if_splits)

lemma start_threads_running:
  assumes "start_threads e cfg s p = Some (k, ready, p')" "running e cfg (n_threads cfg) 0 p"
    and "\<And>i. sized_schedule (snd (snd (snd (s_threads s i))))" "list_all sized_schedule (s_meanwhile s)"
  shows "running e cfg (n_threads cfg) (k + 1) p' \<and> ready_calls p' = ready_calls p \<and>
    (ready \<longrightarrow> running e cfg (n_threads cfg) (n_threads cfg) p' \<and> (\<forall>ph \<in> set (p_phase p'). \<not> unreported ph))"
proof -
  let ?n = "n_threads cfg"
  obtain ok p1 where i: "init_threads e cfg (s_threads s) ?n 0 p = Some (k, ok, p1)"
    using assms(1) by (auto simp: start_threads_def bind_eq_Some_conv split: if_splits)
  note r = init_threads_running [OF assms(3) i _ assms(2)]
  show ?thesis
  proof (cases ok)
    case False
    then show ?thesis using r assms(1) i by (auto simp: start_threads_def)
  next
    case True
    obtain ns wait_r held where m: "seen e cfg (s_meanwhile s) p1 = Some (ns, p')" "ready \<longleftrightarrow> wait_r = 0"
      and w: "wait_group_timed_wait (Timedwait (s_now s) (\<lambda>deadline. zip (s_timedwait s deadline) ns)) 10000000000
         (s_lock s) (s_unlock s) (p_remaining p1) = Some (wait_r, held)"
      using assms(1) i True by (auto simp: start_threads_def bind_eq_Some_conv)
    have run: "running e cfg ?n ?n p1" "k = ?n" "ready_calls p1 = ready_calls p" using r True by auto
    note sn = seen_running [OF m(1) run(1) assms(4)]
    have "p_remaining p' \<le> 0" if rd: ready
    proof (cases "p_remaining p1 = 0")
      case False
      then obtain rs x where "wait_rounds (zip rs ns) (p_remaining p1) = Some (0, x)"
        using w m(2) rd by (auto simp: wait_group_timed_wait_def simp del: wait_rounds.simps split: if_splits option.splits)
      then show ?thesis by (rule wait_rounds_seen) (use sn in blast)
    qed (use sn in auto)
    then have "\<forall>ph \<in> set (p_phase p'). \<not> unreported ph" if ready
      using sn that how_many_0 [of unreported "p_phase p'"] by (auto simp: running_def)
    then show ?thesis using sn run by (auto simp: running_def untouched_def)
  qed
qed

lemma put_listener_phase [simp]: "p_phase (put_listener i l p) = p_phase p"
  by (simp add: put_listener_def)

text \<open>The joins: afterwards every thread whose join succeeded has ended.\<close>

lemma join_threads_running:
  assumes "\<And>i. sized_schedule (fst (joins i))" "\<And>i. length (ts_current_uuid (snd (snd (joins i)))) = MESSAGE_UUID_MAX_BYTES + 1"
  shows "join_threads e cfg joins is p = Some p' \<Longrightarrow> running e cfg n n p \<Longrightarrow>
     running e cfg n n p' \<and> ready_calls p' = ready_calls p \<and> goes_on (p_phase p) (p_phase p') \<and>
     (\<forall>i \<in> set is. i < n \<and> (fst (snd (joins i)) = 0 \<longrightarrow> p_phase p' ! i = Ended))"
proof (induction "is" arbitrary: p)
  case (Cons i "is")
  obtain sched join_r malloced where j: "joins i = (sched, join_r, malloced)" by (rule prod_cases3)
  obtain p1 where p1: "run_schedule e cfg sched p = Some p1" using Cons.prems(1) j by (auto simp: bind_eq_Some_conv)
  have "sized_schedule sched" using assms(1) [of i] j by simp
  note r = run_schedule_running [OF p1 Cons.prems(2) this]
  then have len: "length (p_ts p1) = n" "length (p_phase p1) = n" using running_parts(2) [of e cfg n n p1] by (simp_all add: shape_def)
  obtain p2 where p2: "join_threads e cfg joins is p2 = Some p'" "running e cfg n n p2" "ready_calls p2 = ready_calls p1"
    "p_phase p2 = p_phase p1" "i < n" "join_r = 0 \<longrightarrow> p_phase p1 ! i = Ended"
  proof (cases "join_r = 0 \<and> ts_replacement_thread_state (p_ts p1 ! i) \<noteq> REPLACEMENT_THREAD_STATE_NONE")
    case False
    then show ?thesis using that [of p1] Cons.prems(1) j p1 r len by (auto split: if_splits)
  next
    case True
    then obtain l where l: "run_background e cfg malloced (listener_at i p1) = Some l" "join_threads e cfg joins is (put_listener i l p1) = Some p'"
      and i: "i < n" "p_phase p1 ! i = Ended"
      using Cons.prems(1) j p1 len by (auto simp: bind_eq_Some_conv split: if_splits)
    have "length (ts_current_uuid malloced) = MESSAGE_UUID_MAX_BYTES + 1" using assms(2) [of i] j by simp
    with l(1) have "program_inv e cfg n (put_listener i l p1)"
      using running_parts(1) r by (intro program_inv_put [OF _ i(1)]) (auto intro: run_background_inv)
    then have "running e cfg n n (put_listener i l p1)" using r by (simp add: running_def untouched_def put_listener_def)
    then show ?thesis using that l(2) i by (simp add: ready_calls_def put_listener_def)
  qed
  from Cons.IH [OF p2(1,2)] p2 r j len goes_on_trans [of "p_phase p" "p_phase p1" "p_phase p'"] show ?case
    by (auto simp: goes_on_def)
qed simp

lemma gone_all: "shape n p \<Longrightarrow> gone {..<n} p \<Longrightarrow> list_all (\<lambda>ts. ts_rt ts = None) (p_ts p)"
  by (auto simp: gone_def shape_def list_all_length)

lemma cleanup_done:
  assumes "program_inv e cfg n p" "0 < n" "gone {..<n} p"
  shows "all_freed_once (global_cleanup cfg p)" "list_all (\<lambda>ts. ts_rt ts = None) (p_ts (global_cleanup cfg p))"
    "Ready k \<in> set (p_calls (global_cleanup cfg p)) \<longleftrightarrow> k \<in> ready_calls p"
  using program_frees [OF assms(1,2)] gone_all assms(1,3) by (auto simp: program_inv_def global_cleanup_effect ready_calls_def)

lemma destroy_at_phase: "destroy_at i p = Some p' \<Longrightarrow> p_phase p' = p_phase p"
  by (auto simp: destroy_at_def bind_eq_Some_conv split: if_splits)

lemma destroy_threads_phase: "destroy_threads is p = Some p' \<Longrightarrow> p_phase p' = p_phase p"
  by (induction "is" arbitrary: p) (auto simp: bind_eq_Some_conv dest: destroy_at_phase)

lemma thread_init_error_phase: "thread_init_error is p = Some p' \<Longrightarrow> p_phase p' = p_phase p"
  by (induction "is" arbitrary: p) (auto simp: bind_eq_Some_conv dest: destroy_at_phase)

lemma global_cleanup_phase: "p_phase (global_cleanup cfg p) = p_phase p"
  by (simp add: global_cleanup_def unmap_module_def unmap_source_map_def Let_def split: option.splits)

text \<open>The buffers the script hands to the threads have the sizes the code allocates.\<close>

definition script_sized :: "('j, 'v) main_script \<Rightarrow> bool" where
  "script_sized s \<longleftrightarrow> (\<forall>i. sized_schedule (snd (snd (snd (s_threads s i)))) \<and> sized_schedule (fst (s_join s i)) \<and>
     length (ts_current_uuid (snd (snd (s_join s i)))) = MESSAGE_UUID_MAX_BYTES + 1) \<and> list_all sized_schedule (s_meanwhile s)"

section \<open>Properties\<close>


lemma demo_init:
  obtains ts w where "init_thread_state demo_engine demo_config 0 zeroed_ThreadState demo_world = Some (0, ts, w)"
    "ts_exit_status ts = 0" "ts_replacement_thread_state ts = REPLACEMENT_THREAD_STATE_NONE" "ts_thread_index ts = 0" "w_clock w = w_clock demo_world"
  by (simp add: init_thread_state_def load_modules_def set_properties.simps console_properties_def load_binary_module_def reset_fields_def
      demo_engine_def demo_config_def demo_world_def new_custom_context_def add_intrinsic_jsockd_def MAX_THREADS_def zeroed_ThreadState_def)

text \<open>One thread: it reports while \<open>main\<close> waits, accepts a client and is interrupted before the join returns.\<close>

definition demo_script :: "(nat, string) main_script" where
  "demo_script = \<lparr>s_wait_init = (0, 0, 0, 0, 0), s_threads = (\<lambda>_. (0, 0, 0, [])), s_lock = 0, s_now = Some \<lparr>tv_sec = 0, tv_nsec = 0\<rparr>,
     s_timedwait = (\<lambda>_. [0]), s_meanwhile = [[(0, Setup demo_socket_results 0 0 0)]], s_unlock = 0,
     s_join = (\<lambda>_. ([(0, Poll_accept 1 False 4), (0, Poll_stream (Turn None 0 True []))], 0, zeroed_ThreadState)), s_sig = SIGTERM\<rparr>"

abbreviation demo_program :: "(nat, string) program" where
  "demo_program \<equiv> calloc_program demo_config demo_world"

lemma demo_threads: "n_threads demo_config = 1" "g_n_threads demo_config = 1" "debug demo_config = False"
  "socket_path (g_cmd_args demo_config) = [''/tmp/a'']"
  by (simp_all add: n_threads_def demo_config_def zeroed_args_def MAX_THREADS_def)

definition quiet :: "(nat, string) listener \<Rightarrow> bool" where
  "quiet l \<longleftrightarrow> ts_exit_status (l_ts l) = 0 \<and> ts_thread_index (l_ts l) = 0 \<and> ts_replacement_thread_state (l_ts l) = REPLACEMENT_THREAD_STATE_NONE \<and>
     (\<forall>k. w_clock (l_w l) k \<noteq> None) \<and> length (unix_socket_filename (l_sock l)) \<le> 107"

lemma demo_turns:
  assumes "quiet l"
  shows "\<exists>l'. thread_turn demo_engine demo_config (Setup demo_socket_results 0 0 0) (1, Created, l) = Some ([], 0, Accepting, l') \<and> quiet l'"
    "\<exists>b l'. thread_turn demo_engine demo_config (Poll_accept 1 False 4) (0, Accepting, l) = Some ([], 0, Reading b, l') \<and> quiet l'"
    "\<exists>calls l'. thread_turn demo_engine demo_config (Poll_stream (Turn None 0 True [])) (0, Reading b, l) = Some (calls, 0, Ended, l') \<and> quiet l'"
proof -
  show "\<exists>l'. thread_turn demo_engine demo_config (Setup demo_socket_results 0 0 0) (1, Created, l) = Some ([], 0, Accepting, l') \<and> quiet l'"
    using assms by (simp add: wait_group_inc_def crosses_zero_def loop_setup_def initialize_and_listen_on_unix_socket_def
        demo_socket_results_def quiet_def Let_def)
  obtain t where "w_clock (l_w l) (w_tick (l_w l)) = Some t" using assms by (auto simp: quiet_def)
  then show "\<exists>b l'. thread_turn demo_engine demo_config (Poll_accept 1 False 4) (0, Accepting, l) = Some ([], 0, Reading b, l') \<and> quiet l'"
    using assms by (simp add: loop_accept_def poll_fd_def quiet_def Let_def)
  show "\<exists>calls l'. thread_turn demo_engine demo_config (Poll_stream (Turn None 0 True [])) (0, Reading b, l) = Some (calls, 0, Ended, l') \<and> quiet l'"
    using assms by (simp add: loop_turn_def loop_ends_def command_loop_end_def poll_fd_def quiet_def tick_handler_def Let_def)
qed

text \<open>A program with one thread, in phase \<open>ph\<close>, where nothing has gone wrong.\<close>

definition one_quiet :: "int \<Rightarrow> phase \<Rightarrow> (nat, string) program \<Rightarrow> bool" where
  "one_quiet n ph p \<longleftrightarrow> shape 1 p \<and> p_phase p = [ph] \<and> p_remaining p = n \<and> quiet (listener_at 0 p)"

lemma one_quiet_turn:
  assumes "one_quiet n ph p" "thread_turn demo_engine demo_config h (n, ph, listener_at 0 p) = Some (calls, n', ph', l')" "quiet l'"
  shows "\<exists>p'. program_turn demo_engine demo_config (0, h) p = Some p' \<and> one_quiet n' ph' p'"
  using assms by (auto simp: one_quiet_def shape_def program_turn_def listener_at_def put_listener_def quiet_def)

lemma one_quiet_at: "one_quiet n ph p \<Longrightarrow> quiet (listener_at 0 p)"
  by (simp add: one_quiet_def)

lemma demo_created:
  "\<exists>p. init_threads demo_engine demo_config (s_threads demo_script) 1 0 (demo_program\<lparr>p_remaining := 1\<rparr>) = Some (1, True, p) \<and>
     one_quiet 1 Created p"
proof -
  obtain ts w where "init_thread_state demo_engine demo_config 0 zeroed_ThreadState demo_world = Some (0, ts, w)"
    "ts_exit_status ts = 0" "ts_replacement_thread_state ts = REPLACEMENT_THREAD_STATE_NONE" "ts_thread_index ts = 0" "w_clock w = w_clock demo_world"
    by (rule demo_init)
  then show ?thesis
    by (simp add: calloc_program_def demo_script_def demo_threads one_quiet_def shape_def quiet_def listener_at_def init_socket_state_def demo_world_def)
qed

lemma demo_started:
  "\<exists>p. start_threads demo_engine demo_config demo_script (demo_program\<lparr>p_remaining := 1\<rparr>) = Some (1, True, p) \<and> one_quiet 0 Accepting p"
proof -
  obtain p where p: "init_threads demo_engine demo_config (s_threads demo_script) 1 0 (demo_program\<lparr>p_remaining := 1\<rparr>) = Some (1, True, p)"
    "one_quiet 1 Created p" using demo_created by blast
  obtain p' where p': "program_turn demo_engine demo_config (0, Setup demo_socket_results 0 0 0) p = Some p'" "one_quiet 0 Accepting p'"
    using demo_turns(1) [OF one_quiet_at [OF p(2)]] one_quiet_turn [OF p(2)] by blast
  then have "seen demo_engine demo_config (s_meanwhile demo_script) p = Some ([0], p')"
    by (simp add: demo_script_def one_quiet_def)
  moreover have "wait_group_timed_wait (Timedwait (s_now demo_script) (\<lambda>deadline. zip (s_timedwait demo_script deadline) [0])) 10000000000
      (s_lock demo_script) (s_unlock demo_script) (p_remaining p) = Some (0, False)"
    using p(2) by (simp add: demo_script_def wait_group_timed_wait_def one_quiet_def)
  ultimately show ?thesis using p(1) p'(2) by (simp add: start_threads_def demo_threads)
qed

lemma demo_shutdown: "\<exists>p. server_main demo_engine demo_config demo_script demo_program = Some (0, p)"
proof -
  obtain p where p: "start_threads demo_engine demo_config demo_script (demo_program\<lparr>p_remaining := 1\<rparr>) = Some (1, True, p)" "one_quiet 0 Accepting p"
    using demo_started by blast
  let ?p = "did [Ready 1] p"
  have q: "one_quiet 0 Accepting ?p" using p(2) by (simp add: one_quiet_def shape_def listener_at_def)
  obtain b p1 where p1: "program_turn demo_engine demo_config (0, Poll_accept 1 False 4) ?p = Some p1" "one_quiet 0 (Reading b) p1"
    using demo_turns(2) [OF one_quiet_at [OF q]] one_quiet_turn [OF q] by blast
  obtain p2 where p2: "program_turn demo_engine demo_config (0, Poll_stream (Turn None 0 True [])) p1 = Some p2" "one_quiet 0 Ended p2"
    using demo_turns(3) [OF one_quiet_at [OF p1(2)]] one_quiet_turn [OF p1(2)] by blast
  have join: "join_threads demo_engine demo_config (s_join demo_script) [0] ?p = Some p2"
    using p1 p2 by (auto simp: demo_script_def one_quiet_def shape_def quiet_def listener_at_def)
  obtain p3 where p3: "destroy_threads [0] p2 = Some p3" "list_all (\<lambda>ts. ts_exit_status ts = 0) (p_ts p3)"
  proof -
    obtain ts' w' where c: "cleanup_thread_state (p_ts p2 ! 0) (p_w p2) = (ts', w')" by fastforce
    have "ts_exit_status ts' = 0" using cleanup_exit_status [OF c] p2(2) by (simp add: one_quiet_def quiet_def listener_at_def)
    moreover obtain ts where "p_ts p2 = [ts]" using p2(2) by (auto simp: one_quiet_def shape_def length_Suc_conv)
    ultimately show ?thesis using that c p2(2)
      by (simp add: destroy_at_def destroy_thread_state_def listener_at_def put_listener_def one_quiet_def quiet_def)
  qed
  have one: "[0 ..< g_n_threads demo_config] = [0]" by (simp add: demo_threads)
  have answers: "s_wait_init demo_script = (0, 0, 0, 0, 0)" "s_sig demo_script = SIGTERM" by (simp_all add: demo_script_def)
  have group: "wait_group_init 0 0 0 0 0 n = (0, Some n)" for n by (simp add: wait_group_init_def)
  have "server_main demo_engine demo_config demo_script demo_program = Some (0, global_cleanup demo_config p3)"
    unfolding server_main_def answers prod.case group one demo_threads(1) bind.bind_lunit of_nat_1 p(1) join p3(1) Let_def
    using p3(2) by (simp add: demo_threads(3) global_cleanup_effect list_ex_iff list_all_iff)
  then show ?thesis by blast
qed


section \<open>What goes wrong on the error paths\<close>

text \<open>
  When the threads were created and the wait for them fails, \<open>thread_init_n\<close> is the number of threads, and
  the loop that destroys the thread states reads the one after the last.
\<close>

lemma thread_init_error_snoc:
  "thread_init_error (xs @ [i]) p = (do { q \<leftarrow> thread_init_error xs p; destroy_at i (did [Free_input_buffer i] q) })"
proof (induction xs arbitrary: p)
  case Nil
  show ?case by (cases "destroy_at i (did [Free_input_buffer i] p)") simp_all
next
  case (Cons x xs)
  then show ?case by (cases "destroy_at x (did [Free_input_buffer x] p)") simp_all
qed

lemma destroy_at_length: "destroy_at i p = Some q \<Longrightarrow> length (p_ts q) = length (p_ts p)"
  by (auto simp: destroy_at_def put_listener_def bind_eq_Some_conv split: if_splits)

lemma thread_init_error_length: "thread_init_error xs p = Some q \<Longrightarrow> length (p_ts q) = length (p_ts p)"
proof (induction xs arbitrary: p)
  case (Cons x xs)
  then obtain p1 where "destroy_at x (did [Free_input_buffer x] p) = Some p1" "thread_init_error xs p1 = Some q"
    by (auto simp: bind_eq_Some_conv)
  with Cons.IH [of p1] destroy_at_length show ?case by fastforce
qed simp

lemma wait_failure_reads_beyond_threads:
  assumes "s_wait_init s = (0, 0, 0, 0, 0)"
    and "start_threads e cfg s (p\<lparr>p_remaining := int (n_threads cfg)\<rparr>) = Some (length (p_ts p1), False, p1)"
  shows "server_main e cfg s p = None"
proof -
  let ?n = "length (p_ts p1)"
  have "thread_init_error ([0 ..< ?n] @ [?n]) p1 = None"
  proof (cases "thread_init_error [0 ..< ?n] p1")
    case (Some q)
    then have "length (p_ts q) = ?n" by (rule thread_init_error_length)
    with Some show ?thesis by (simp add: thread_init_error_snoc destroy_at_def)
  qed (simp add: thread_init_error_snoc)
  then show ?thesis using assms by (simp add: server_main_def wait_group_init_def)
qed

text \<open>
  When a thread cannot be set up, the loop on the error path destroys the states of the threads before it, which are
  running: a thread that is in its read loop is left there without a runtime.
\<close>

lemma setup_failure_destroys_running:
  assumes "thread_init_error [0 ..< k + 1] p = Some p'" "program_inv e cfg n p" "i < k" "i < n"
  shows "p_phase p' ! i = p_phase p ! i \<and> ts_rt (p_ts p' ! i) = None"
proof -
  have "program_inv e cfg n p' \<and> gone (set [0 ..< k + 1] \<union> {}) p' \<and> ready_calls p' = ready_calls p"
    by (rule thread_init_error_inv [OF assms(1,2)]) (simp add: gone_def)
  then show ?thesis using assms(3,4) thread_init_error_phase [OF assms(1)] by (auto simp: gone_def program_inv_def shape_def)
qed

text \<open>When the wait group cannot be set up, the module is unmapped, and then unmapped again by the cleanup.\<close>

lemma wait_group_failure_unmaps_twice:
  assumes "g_module_bytecode cfg = Some (b # bs)" "s_wait_init s = (r, setclock, cond_init, attr_destroy, mutex_init)" "r \<noteq> 0" "g_source_map cfg = []"
  shows "\<exists>p'. server_main e cfg s (calloc_program cfg w) = Some (1, p') \<and>
    p_calls p' = [Munmap Module_mapping (length (b # bs) + ED25519_SIGNATURE_SIZE), Wait_group_destroy,
      Munmap Module_mapping (length (b # bs) + ED25519_SIGNATURE_SIZE)]"
  using assms by (simp add: server_main_def wait_group_init_def global_cleanup_def unmap_module_def unmap_source_map_def calloc_program_def Let_def)

end
