(* ===== verification/Evaluation.thy ===== *)
theory Evaluation
  imports Program
begin

text \<open>
  The mode that evaluates one script, \<open>eval\<close> in \<open>main.c\<close>: it maps the files as a server does, sets up one thread
  state, runs the script and prints its value.
\<close>

section \<open>Definitions\<close>

text \<open>The mapping of the module, when there is one to unmap.\<close>

definition module_calls :: "config \<Rightarrow> main_call list" where
  "module_calls cfg =
     (case g_module_bytecode cfg of None \<Rightarrow> []
      | Some m \<Rightarrow> if m \<noteq> [] then [Munmap Module_mapping (length m + ED25519_SIGNATURE_SIZE)] else [])"

text \<open>
  The end of \<open>eval\<close>: the thread state is cleaned up and the files are unmapped. \<open>early\<close> are the mappings that were
  unmapped before.
\<close>

definition eval_cleanup ::
  "config \<Rightarrow> main_call list \<Rightarrow> int \<Rightarrow> string \<Rightarrow> ('j, 'v) ThreadState \<Rightarrow> world \<Rightarrow> (int \<times> string \<times> main_call list \<times> world) option" where
  "eval_cleanup cfg early exit_status out ts w =
     (case cleanup_thread_state ts w of (ts', w') \<Rightarrow>
      Some (exit_status, out, early @ module_calls cfg @
        (if g_source_map cfg \<noteq> [] \<and> \<not> source_map_unmapped w' then [Munmap Source_map_mapping (length (g_source_map cfg))] else []), w'))"

text \<open>The script: given on the command line, or all of standard input, which may fail to be read.\<close>

definition eval_source :: "config \<Rightarrow> (string option \<times> bool) option \<Rightarrow> string option option" where
  "eval_source cfg stdin =
     (case eval_input (g_cmd_args cfg) of
        None \<Rightarrow> None
      | Some (Eval_code code) \<Rightarrow> Some (Some code)
      | Some EVAL_INPUT_STDIN_SENTINEL \<Rightarrow> map_option fst stdin)"

text \<open>
  \<open>eval\<close>, once the files are loaded: the exit status, what is printed, the mappings that are unmapped, and the
  world. \<open>map_failed\<close> says that the source map could not be loaded: then the module is unmapped at
  once, and loading it afterwards reads memory that is gone.
\<close>

definition eval_main ::
  "('j, 'v) engine \<Rightarrow> config \<Rightarrow> bool \<Rightarrow> (string \<Rightarrow> 'j \<Rightarrow> 'v js \<times> 'j) \<Rightarrow> ('v js \<Rightarrow> 'j \<Rightarrow> string) \<Rightarrow> (string option \<times> bool) option
     \<Rightarrow> world \<Rightarrow> (int \<times> string \<times> main_call list \<times> world) option" where
  "eval_main e cfg map_failed JS_Eval print_value stdin w =
     (let gone = (map_failed \<and> module_calls cfg \<noteq> []);
          finish = eval_cleanup cfg (if map_failed then module_calls cfg else [])
      in do {
        (r, ts, w1) \<leftarrow> init_thread_state e (if gone then cfg\<lparr>g_module_bytecode := None\<rparr> else cfg) 0 zeroed_ThreadState w;
        if r \<noteq> 0 then finish 1 [] ts w1
        else if gone then None
        else do {
          input \<leftarrow> eval_source cfg stdin;
          (case input of
             None \<Rightarrow> finish 1 [] ts w1
           | Some code \<Rightarrow> do {
               j \<leftarrow> ts_rt ts;
               (case JS_SetPropertyStr e ''M'' j of (set_r, j1) \<Rightarrow>
                if set_r \<noteq> 1 then finish 1 [] ts w1
                else case JS_Eval code j1 of (result, j2) \<Rightarrow>
                if result = JS_EXCEPTION then finish 1 [] ts w1
                else finish 0 (print_value result j2) ts w1)
             })
        }
      })"

text \<open>
  The files \<open>eval\<close> maps, and whether the source map could not be: the module comes first and has to load. Nothing
  sets the number of threads here.
\<close>

definition eval_globals ::
  "string \<Rightarrow> (byte list \<Rightarrow> byte list \<Rightarrow> byte list \<Rightarrow> bool) \<Rightarrow> byte list \<Rightarrow> string option \<Rightarrow> (string \<Rightarrow> (int, byte list) sum) \<Rightarrow> config
     \<Rightarrow> (config \<times> bool) option" where
  "eval_globals VERSION ed25519_verify junk env_pubkey map_file cfg = do {
     cfg1 \<leftarrow> (case es6_module_bytecode_file (g_cmd_args cfg) of
         None \<Rightarrow> Some (cfg\<lparr>g_module_bytecode := None\<rparr>)
       | Some f \<Rightarrow>
           (case load_module_bytecode (debug cfg) VERSION ed25519_verify junk env_pubkey (map_file f) of
              Inl e \<Rightarrow> None
            | Inr (bytes, n) \<Rightarrow> Some (cfg\<lparr>g_module_bytecode := Some (take n bytes)\<rparr>)));
     Some (case source_map_file (g_cmd_args cfg) of
         None \<Rightarrow> (cfg1\<lparr>g_source_map := []\<rparr>, False)
       | Some f \<Rightarrow>
           (case map_file f of
              Inl e \<Rightarrow> (cfg1\<lparr>g_source_map := []\<rparr>, True)
            | Inr bytes \<Rightarrow> (cfg1\<lparr>g_source_map := map (\<lambda>b. char_of (unat b)) bytes\<rparr>, False)))
   }"

text \<open>The whole of \<open>eval\<close>.\<close>

definition eval_command ::
  "('j, 'v) engine \<Rightarrow> string \<Rightarrow> (byte list \<Rightarrow> byte list \<Rightarrow> byte list \<Rightarrow> bool) \<Rightarrow> byte list \<Rightarrow> string option \<Rightarrow> (string \<Rightarrow> (int, byte list) sum) \<Rightarrow> config
     \<Rightarrow> (string \<Rightarrow> 'j \<Rightarrow> 'v js \<times> 'j) \<Rightarrow> ('v js \<Rightarrow> 'j \<Rightarrow> string) \<Rightarrow> (string option \<times> bool) option \<Rightarrow> world
     \<Rightarrow> (int \<times> string \<times> main_call list \<times> world) option" where
  "eval_command e VERSION ed25519_verify junk env_pubkey map_file cfg JS_Eval print_value stdin w =
     (case eval_globals VERSION ed25519_verify junk env_pubkey map_file cfg of
        None \<Rightarrow> Some (1, [], [], w)
      | Some (cfg1, map_failed) \<Rightarrow> eval_main e cfg1 map_failed JS_Eval print_value stdin w)"

section \<open>What an evaluation runs\<close>

text \<open>A module file that a release build accepts, and the bytecode in it.\<close>

definition verified_module ::
  "string \<Rightarrow> (byte list \<Rightarrow> byte list \<Rightarrow> byte list \<Rightarrow> bool) \<Rightarrow> string option \<Rightarrow> (int, byte list) sum \<Rightarrow> byte list \<Rightarrow> bool" where
  "verified_module VERSION ed25519_verify env_pubkey mapped code \<longleftrightarrow>
     (\<exists>file key. mapped = Inr file \<and> code \<noteq> [] \<and>
        length code + VERSION_STRING_SIZE + ED25519_SIGNATURE_SIZE = length file \<and> code = take (length code) file \<and>
        module_version file = cstr VERSION \<and> env_pubkey = Some key \<and> 2 * ED25519_PUBLIC_KEY_SIZE \<le> length (cstr key) + 1 \<and>
        ed25519_verify (module_signature file) (module_signed file) (take ED25519_PUBLIC_KEY_SIZE (hex_pairs (cstr key))))"

lemma load_verified:
  assumes "length junk = ED25519_PUBLIC_KEY_SIZE"
  shows "verified_module VERSION ed25519_verify env_pubkey mapped code \<longleftrightarrow>
    (\<exists>file n. load_module_bytecode False VERSION ed25519_verify junk env_pubkey mapped = Inr (file, n) \<and> code = take n file)"
    (is "?L = ?R")
proof
  assume ?L
  then obtain fl where "mapped = Inr fl" "code = take (length code) fl"
    "load_module_bytecode False VERSION ed25519_verify junk env_pubkey mapped = Inr (fl, length code)"
    unfolding verified_module_def load_release [OF assms] by (metis length_greater_0_conv)
  then show ?R by blast
next
  assume ?R
  then obtain fl n where l: "load_module_bytecode False VERSION ed25519_verify junk env_pubkey mapped = Inr (fl, n)" "code = take n fl"
    by blast
  from l(1) [unfolded load_release [OF assms]] have "length code = n" "0 < n" using l(2) by auto
  with l(2) l(1) [unfolded load_release [OF assms]] show ?L unfolding verified_module_def by fastforce
qed

text \<open>Every way through \<open>eval\<close> ends at the cleanup; the status is 0 only when the script was run.\<close>

lemma eval_main_ends:
  assumes "eval_main e cfg map_failed JS_Eval print_value stdin w = Some (status, out, calls, w')"
  shows "\<exists>r ts w1. init_thread_state e (if map_failed \<and> module_calls cfg \<noteq> [] then cfg\<lparr>g_module_bytecode := None\<rparr> else cfg) 0
      zeroed_ThreadState w = Some (r, ts, w1) \<and>
    eval_cleanup cfg (if map_failed then module_calls cfg else []) status out ts w1 = Some (status, out, calls, w') \<and>
    (status = 1 \<and> out = [] \<or>
     status = 0 \<and> r = 0 \<and> (\<exists>code j result j'. eval_source cfg stdin = Some (Some code) \<and>
       JS_Eval code j = (result, j') \<and> result \<noteq> JS_EXCEPTION \<and> out = print_value result j'))"
proof -
  let ?gone = "map_failed \<and> module_calls cfg \<noteq> []"
  let ?fin = "eval_cleanup cfg (if map_failed then module_calls cfg else [])"
  have fin: "?fin st res ts w1 = Some (status, out, calls, w') \<Longrightarrow> st = status \<and> res = out" for st res ts w1
    by (auto simp: eval_cleanup_def split: prod.splits)
  note run = assms [unfolded eval_main_def Let_def]
  obtain r ts w1 where i: "init_thread_state e (if ?gone then cfg\<lparr>g_module_bytecode := None\<rparr> else cfg) 0 zeroed_ThreadState w = Some (r, ts, w1)"
    using run by (auto simp: bind_eq_Some_conv)
  note run = run [unfolded i bind.bind_lunit prod.case]
  have fails: ?thesis if "?fin 1 [] ts w1 = Some (status, out, calls, w')" using i that fin [OF that] by auto
  show ?thesis
  proof (cases "r = 0")
    case True
    then obtain inp where inp: "eval_source cfg stdin = Some inp"
      using run by (auto simp: bind_eq_Some_conv split: if_splits)
    show ?thesis
    proof (cases inp)
      case None
      then show ?thesis using fails run True inp by (simp split: if_splits)
    next
      case (Some code)
      then obtain j where j: "ts_rt ts = Some j" using run True inp by (auto simp: bind_eq_Some_conv split: if_splits)
      obtain set_r j1 result j2 where c: "JS_SetPropertyStr e ''M'' j = (set_r, j1)" "JS_Eval code j1 = (result, j2)" by fastforce
      have last_step: "(if set_r \<noteq> 1 then ?fin 1 [] ts w1 else if result = JS_EXCEPTION then ?fin 1 [] ts w1
          else ?fin 0 (print_value result j2) ts w1) = Some (status, out, calls, w')"
        using run True inp Some j c by (auto split: if_splits)
      show ?thesis
      proof (cases "set_r = 1 \<and> result \<noteq> JS_EXCEPTION")
        case False
        then show ?thesis using fails last_step by (auto split: if_splits)
      next
        case ok: True
        then have f: "?fin 0 (print_value result j2) ts w1 = Some (status, out, calls, w')" using last_step by simp
        have "JS_Eval code j1 = (result, j2) \<and> result \<noteq> JS_EXCEPTION \<and> out = print_value result j2" using fin [OF f] c(2) ok by simp
        then show ?thesis using i f fin [OF f] True inp Some by blast
      qed
    qed
  qed (use fails run in simp)
qed

text \<open>
  In \<open>eval\<close>, a source map that cannot be loaded makes the code unmap the module and go on; setting up
  the thread state then reads the module.
\<close>

lemma eval_without_source_map_reads_unmapped:
  assumes "g_module_bytecode cfg = Some (b # bs)"
    and "init_thread_state e (cfg\<lparr>g_module_bytecode := None\<rparr>) 0 zeroed_ThreadState w = Some (0, ts, w1)"
  shows "eval_main e cfg True JS_Eval print_value stdin w = None"
  using assms by (simp add: eval_main_def module_calls_def Let_def)

section \<open>Properties\<close>


text \<open>A module of one byte of bytecode, and a command line that evaluates the script \<open>1\<close> with it.\<close>

definition demo_module :: "byte list" where
  "demo_module = 5 # version_field ''1.0'' @ replicate 64 3"

definition demo_eval_config :: config where
  "demo_eval_config = demo_config\<lparr>g_cmd_args := zeroed_args\<lparr>es6_module_bytecode_file := Some ''m'', eval_input := Some (Eval_code ''1'')\<rparr>\<rparr>"

abbreviation demo_eval :: "(byte list \<Rightarrow> byte list \<Rightarrow> byte list \<Rightarrow> bool) \<Rightarrow> (int \<times> string \<times> main_call list \<times> world) option" where
  "demo_eval verify \<equiv> eval_command demo_engine ''1.0'' verify (replicate 32 0) (Some (replicate 63 CHR ''a'')) (\<lambda>_. Inr demo_module)
     demo_eval_config (\<lambda>code j. (Js code, j)) (\<lambda>v j. case v of Js s \<Rightarrow> s | _ \<Rightarrow> []) None demo_world"

lemma demo_module_loads:
  "load_module_bytecode False ''1.0'' (\<lambda>s m k. s = replicate 64 3) (replicate 32 0) (Some (replicate 63 CHR ''a'')) (Inr demo_module) =
     Inr (demo_module, 1)"
proof -
  let ?v = "version_field ''1.0''" and ?s = "replicate 64 (3 :: byte)"
  have len: "length ?v = VERSION_STRING_SIZE" "length ?s = ED25519_SIGNATURE_SIZE" by (simp_all add: file_sizes)
  have "module_version ([5] @ ?v @ ?s) = ''1.0''" "module_signature ([5] @ ?v @ ?s) = ?s"
    using module_fields [OF len, of "[5]"] cstr_version_field [of "''1.0''"]
    by (simp_all only: module_version_def) (simp_all add: file_sizes)
  moreover have "length (cstr (replicate 63 CHR ''a'')) = 63" by (simp add: cstr_no_NUL)
  ultimately show ?thesis using len by (simp add: load_release demo_module_def file_sizes)
qed

lemma demo_evaluates: "\<exists>calls w'. demo_eval (\<lambda>s m k. s = replicate 64 3) = Some (0, ''1'', calls, w')"
proof -
  let ?cfg = "demo_eval_config\<lparr>g_module_bytecode := Some (take 1 demo_module), g_source_map := []\<rparr>"
  have g: "eval_globals ''1.0'' (\<lambda>s m k. s = replicate 64 3) (replicate 32 0) (Some (replicate 63 CHR ''a'')) (\<lambda>_. Inr demo_module) demo_eval_config =
      Some (?cfg, False)"
    using demo_module_loads by (simp add: eval_globals_def demo_eval_config_def demo_config_def zeroed_args_def)
  show ?thesis
    unfolding eval_command_def g option.case prod.case
    by (simp add: eval_main_def eval_cleanup_def module_calls_def eval_source_def init_thread_state_def load_modules_def set_properties.simps
        console_properties_def load_binary_module_def reset_fields_def demo_engine_def demo_eval_config_def demo_config_def demo_world_def
        new_custom_context_def add_intrinsic_jsockd_def MAX_THREADS_def zeroed_ThreadState_def demo_module_def split: prod.split)
qed


end
