(* ===== verification/Spec2Isabelle.thy ===== *)
theory Spec2Isabelle
  imports Hex Line_Buf Utils Text_Objects Function_Cache Hash_Cache_Conc Wait_Group Cmd_Args Log Module_File Server_Stream Evaluation
begin

text \<open>
  A verification of jsockd, a server that runs JavaScript commands for local clients. One process listens on
  up to 256 Unix sockets with a thread each; a client sends a command as three lines (an identifier, a
  JavaScript function, a JSON parameter) and gets one line back. The functions are compiled by QuickJS to
  bytecode, which all threads share in a cache. A module of library code, compiled and signed
  beforehand, may be loaded into every VM. The code is C, under \<open>src/jsockd_server/src\<close>; names of C
  functions, fields and constants are kept.

  \<^bold>\<open>Parts of the program and where they are\<close>

  \<^item> \<open>Prelude\<close>: machine types, NUL-terminated strings (\<open>cstr\<close>), stores into a buffer (\<open>poke\<close>, \<open>cells\<close>).

  \<^item> \<open>Hex\<close> (\<open>hex.c\<close>): \<open>hex_decode\<close> into a caller's buffer and \<open>hex_encode\<close> onto a stream that may fail.

  \<^item> \<open>Line_Buf\<close> (\<open>line_buf.c\<close>): the reader that cuts the bytes of a socket into lines, its buffer a list of
  cells, its handler an argument that may store into the buffer. The abstract reader \<open>frame_run\<close> works
  on the stream alone; the locale \<open>line_client\<close> is what a handler has to promise for the
  buffer to refine it, \<open>handler_view\<close> lets a handler on part of the state stand for the whole one.
  Lines are framed honestly, in order, whatever the reads; a refused line is replayed without loss.

  \<^item> \<open>Utils\<close> (\<open>utils.c\<close>): whole writes over partial and interrupted system calls, polling, time differences in
  64 bits, the bounded error buffer, standard input, temporary directories.

  \<^item> \<open>Text_Codec\<close>, \<open>Text_Objects\<close> (\<open>textencodedecode.c\<close>): the resumable UTF-8 decoder as a refinement of the decoder of
  the Encoding Standard, which is written out as a byte-by-byte automaton; \<open>TextDecoder\<close> and \<open>TextEncoder\<close>
  over it, with streaming and \<open>encodeInto\<close>.

  \<^item> \<open>Hash_Cache\<close> (\<open>hash_cache.c\<close>, one thread), \<open>Function_Cache\<close> (its use in \<open>main.c\<close>), \<open>Hash_Cache_Conc\<close> (several threads):
  lookup and insertion in a bounded probe window; the locale \<open>ref_cache\<close> states what a cache with reference
  counts promises and derives that referenced entries survive, and is interpreted on the cache of compiled
  functions; the step relation \<open>cstep\<close> interleaves the atomic accesses of any number of threads, with exact counts, stable
  pinned entries, and equality with the one-thread model when a call runs alone.

  \<^item> \<open>Wait_Group\<close> (\<open>wait_group.c\<close>): the counter and its condition variable, all three platform branches, and the step
  relation \<open>wg_step\<close> of a waiter and reporters: no wakeup is lost, 0 is returned only when all have reported.

  \<^item> \<open>Cmd_Args\<close> (\<open>cmdargs.c\<close>): every option and every check; an accepted command line asks for one mode, and every
  server configuration can be written as one.

  \<^item> \<open>Log\<close> (\<open>log.c\<close>, \<open>console.c\<close>): records of prefixed lines whose last one is marked.

  \<^item> \<open>Module_File\<close> (\<open>modcompiler.c\<close>, \<open>mmap_file.c\<close>, \<open>verify_bytecode.c\<close>, the loader in \<open>main.c\<close>): key files, compilation and
  signing, loading; a release build loads verified modules of its own version only.

  \<^item> \<open>Thread_State\<close> (\<open>threadstate.c\<close>, \<open>backtrace.c\<close>, \<open>custom_module_loader.c\<close>): the record \<open>ThreadState\<close> with the fields of the C
  struct, its setup on any contents of the memory, the interrupt handler, clean-up.

  \<^item> \<open>Messages\<close> (\<open>messages.c\<close>): \<open>JSockD.sendMessage\<close>, which writes a request to the client and reads its answer
  into the listener's input buffer.

  \<^item> \<open>Server\<close> (\<open>main.c\<close>): sockets, the three line handlers, the lines that begin with a question mark, memory checks,
  the replacement of a thread state in the background, ticks, the read loop, the loop of a listener. \<open>Server_Correct\<close>:
  one reply per command, what the special lines do, the loop after a replacement ends. \<open>Server_Stream\<close>: the
  handler as a client of \<open>Line_Buf\<close>; what the server does depends on the lines and not on the reads. \<open>Server_Safety\<close>:
  the step relation \<open>serve\<close> of one listener and its invariant, with the blocks of bytecode counted as a multiset of owners and
  what other listeners own as a parameter; a listener ends with everything closed and released. \<open>Listeners\<close>: all listeners over one world,
  with steps in any order (\<open>any_serves\<close>): no double free, no dangling entry, no block owned by two, and the cache changes no result.
  \<open>Threads\<close>: \<open>command_loop\<close> cut at the points where it waits for the system (\<open>thread_turn\<close>), the same as the loop when a thread runs alone.

  \<^item> \<open>Program\<close> (\<open>main.c\<close>, \<open>globals.c\<close>): signals, environment, modes, setup and shutdown of the threads, which take
  their turns in any order with each other and with \<open>main\<close> (\<open>run_schedule\<close>); the server reports to be ready only when
  every thread has reported, and when it ends, every runtime is freed, no block of bytecode was freed twice, those of the cache
  were all freed, and the exit status is right.

  \<^item> \<open>Evaluation\<close> (\<open>main.c\<close>): the mode that evaluates one script; a release build that was given a module runs it only when
  the module verifies.

  \<^bold>\<open>How the parts are put together\<close>

  \<open>main_dispatch\<close> chooses the mode from \<open>Cmd_Args\<close>; \<open>server_main\<close> sets up a \<open>ThreadState\<close> per socket, lets
  the threads run \<open>command_loop\<close> by turns and waits through \<open>Wait_Group\<close>. A listener is the record of its thread state, the replacement it
  may have, its socket, its input buffer and the \<open>world\<close>: what the system answers (clock, polls, writes, thread
  calls) and what all threads share (the cache, the memory of bytecode, the flag that stops the server). \<open>read_loop\<close> passes the bytes of a read
  to \<open>line_buf_read\<close>, which calls \<open>command_loop_line_handler_wrapper\<close>, which calls \<open>line_handler\<close>. Handlers return the C result and the
  listener; \<open>None\<close> stands for a call that does not return: a failed assertion, a read of freed or unmapped memory,
  a loop whose scripted answers have run out.

  \<^bold>\<open>Parameters\<close>

  QuickJS is the record \<open>engine\<close>, whose fields are the calls the code makes on a VM of an arbitrary type, with no law assumed
  about them; a run of JavaScript is a tree \<open>js_run\<close> that ends or sends a message and goes on with the answer.
  Ed25519 and xxHash are arguments; where a property needs a law of theirs (a signature made with a key verifies with it) it
  is a hypothesis. System calls are scripts of answers. Witnesses instantiate the parameters with concrete functions.

  \<^bold>\<open>Loops\<close>

  Recursion is structural on the script of answers, or has a measure: bytes left in a buffer for \<open>replay_loop\<close>, the maximum
  of tries for \<open>get_tries\<close>, the remaining input for the decoders. There is no fuel. The one loop with no bound of its own,
  \<open>replay_while\<close>, is a \<open>partial_function\<close>, and \<open>trampoline_ends\<close> shows that it returns after at most one replay. \<open>writes_terminate\<close>
  shows that writing returns when calls make progress.

  \<^bold>\<open>Where the code fails\<close>

  Lemmas beside the properties exhibit inputs on which the code does something it should not, among them: a cache hit
  takes a reference that nobody gives back (\<open>hit_keeps_reference\<close>), a parameter that is too long leaves the command's
  bytecode behind (\<open>long_parameter_skips_cleanup\<close>), the answer to a message is read over lines that are waiting in the buffer
  (\<open>answer_overwrites_next_line\<close>), a client that stays silent suspends the time limit (\<open>silent_client_waits_forever\<close>), error paths of
  \<open>main\<close> release twice or read past the threads (\<open>wait_failure_reads_beyond_threads\<close>, \<open>wait_group_failure_unmaps_twice\<close>)
  or take the runtime from threads that are running (\<open>setup_failure_destroys_running\<close>), and a reader of the
  cache can be given an entry while it is replaced (\<open>reader_race\<close>). The properties are stated so that they hold despite these.

  \<^bold>\<open>Not modelled\<close>

  \<^item> Ed25519 (\<open>lib/ed25519\<close>) and xxHash (\<open>lib/xxHash\<close>) are third-party code kept in the repository; QuickJS is built from elsewhere.

  \<^item> The reference counts of JavaScript values, the tables that register classes and properties with QuickJS, and the pointer from
  a runtime back to its thread state (\<open>register_thread_state_runtime\<close>), which is an argument here.

  \<^item> Helpers that only call the platform or QuickJS: \<open>munmap_or_warn\<close>, the attributes of the recursive mutex, \<open>dump_error\<close>,
  \<open>print_value_to_stdout\<close>.

  \<^item> Interleaving inside a step of a listener, except for the accesses to the cache (\<open>Hash_Cache_Conc\<close>) and the wait group: in \<open>Listeners\<close> the
  handling of a line is one step, in \<open>Program\<close> a turn of a thread, from one poll to the next, and so are the steps of \<open>main\<close> between
  a creation, a wake-up and a join. A background thread that replaces a thread state finishes between two rounds of the read loop or
  before it is joined. What a thread does after \<open>main\<close> has destroyed its state on an error path is left out.

  \<^item> The client libraries (Go, Python, Elixir), the JavaScript shims, the build files and the tests.
\<close>

end
